(* ===== verification/Klist.thy ===== *)
theory Klist
  imports Kprelude
begin

text \<open>
  The circular doubly linked lists of include/util/list.h.  Every kernel
  object that sits on a list embeds a \<^verbatim>\<open>list_link_t\<close>; a list is a link of its
  own whose neighbours are the first and the last element.  The links live in
  a store from link addresses to link values, so sharing and aliasing are
  explicit, and each macro is a sequence of field writes on that store.

  The representation predicate \<open>dlist\<close> says that a list header represents a
  sequence of link addresses; the lemmas show that every macro implements the
  corresponding operation on the sequence and leaves disjoint lists alone.
\<close>

section \<open>Links and the macros\<close>

record 'a list_link =
  l_next :: "'a option"
  l_prev :: "'a option"

type_synonym 'a lheap = "'a \<Rightarrow> 'a list_link"

definition list_link_init :: "'a \<Rightarrow> 'a lheap \<Rightarrow> 'a lheap" where
  "list_link_init link h = h(link := \<lparr>l_next = None, l_prev = None\<rparr>)"

definition list_link_is_linked :: "'a \<Rightarrow> 'a lheap \<Rightarrow> bool" where
  "list_link_is_linked link h = (l_next (h link) \<noteq> None \<and> l_prev (h link) \<noteq> None)"

definition list_init :: "'a \<Rightarrow> 'a lheap \<Rightarrow> 'a lheap" where
  "list_init l h = h(l := \<lparr>l_next = Some l, l_prev = Some l\<rparr>)"

definition list_empty :: "'a \<Rightarrow> 'a lheap \<Rightarrow> bool" where
  "list_empty l h = (l_next (h l) = Some l)"

definition list_insert_before :: "'a \<Rightarrow> 'a \<Rightarrow> 'a lheap \<Rightarrow> 'a lheap option" where
  "list_insert_before old new h =
    (let h1 = h(new := (h new)\<lparr>l_next := Some old\<rparr>);
         h2 = h1(new := (h1 new)\<lparr>l_prev := l_prev (h1 old)\<rparr>)
     in do {
       p \<leftarrow> l_prev (h2 old);
       let h3 = h2(p := (h2 p)\<lparr>l_next := Some new\<rparr>);
       Some (h3(old := (h3 old)\<lparr>l_prev := Some new\<rparr>))
     })"

definition list_insert_head :: "'a \<Rightarrow> 'a \<Rightarrow> 'a lheap \<Rightarrow> 'a lheap option" where
  "list_insert_head l link h = do {
     first \<leftarrow> l_next (h l);
     list_insert_before first link h
   }"

definition list_insert_tail :: "'a \<Rightarrow> 'a \<Rightarrow> 'a lheap \<Rightarrow> 'a lheap option" where
  "list_insert_tail l link h = list_insert_before l link h"

definition list_remove :: "'a \<Rightarrow> 'a lheap \<Rightarrow> 'a lheap option" where
  "list_remove link h = do {
     prev \<leftarrow> l_prev (h link);
     next \<leftarrow> l_next (h link);
     let h1 = h(prev := (h prev)\<lparr>l_next := Some next\<rparr>);
     let h2 = h1(next := (h1 next)\<lparr>l_prev := Some prev\<rparr>);
     Some (h2(link := \<lparr>l_next = None, l_prev = None\<rparr>))
   }"

definition list_remove_head :: "'a \<Rightarrow> 'a lheap \<Rightarrow> 'a lheap option" where
  "list_remove_head l h = do { first \<leftarrow> l_next (h l); list_remove first h }"

definition list_remove_tail :: "'a \<Rightarrow> 'a lheap \<Rightarrow> 'a lheap option" where
  "list_remove_tail l h = do { last \<leftarrow> l_prev (h l); list_remove last h }"

text \<open>
  \<open>list_iterate_begin\<close> and \<open>list_iterate_reverse\<close> visit the links from the
  first (last) one until the walk is back at the header; the visited
  addresses are collected.  The walk may cycle without reaching the header, so
  it takes fuel; running out of fuel and running into NULL both give
  \<^term>\<open>None\<close>.
\<close>

fun list_iterate_from :: "('a lheap \<Rightarrow> 'a \<Rightarrow> 'a option) \<Rightarrow> nat \<Rightarrow> 'a \<Rightarrow> 'a option \<Rightarrow> 'a lheap \<Rightarrow> 'a list option" where
  "list_iterate_from step 0 l link h = None"
| "list_iterate_from step (Suc n) l None h = None"
| "list_iterate_from step (Suc n) l (Some link) h =
    (if link = l then Some []
     else do { xs \<leftarrow> list_iterate_from step n l (step h link) h; Some (link # xs) })"

definition list_iterate :: "nat \<Rightarrow> 'a \<Rightarrow> 'a lheap \<Rightarrow> 'a list option" where
  "list_iterate n l h = list_iterate_from (\<lambda>h x. l_next (h x)) n l (l_next (h l)) h"

definition list_iterate_reverse :: "nat \<Rightarrow> 'a \<Rightarrow> 'a lheap \<Rightarrow> 'a list option" where
  "list_iterate_reverse n l h = list_iterate_from (\<lambda>h x. l_prev (h x)) n l (l_prev (h l)) h"

section \<open>What a list represents\<close>

fun dseg :: "'a lheap \<Rightarrow> 'a \<Rightarrow> 'a list \<Rightarrow> 'a \<Rightarrow> bool" where
  "dseg h a [] b \<longleftrightarrow> l_next (h a) = Some b \<and> l_prev (h b) = Some a"
| "dseg h a (x # xs) b \<longleftrightarrow> l_next (h a) = Some x \<and> l_prev (h x) = Some a \<and> dseg h x xs b"

definition dlist :: "'a lheap \<Rightarrow> 'a \<Rightarrow> 'a list \<Rightarrow> bool" where
  "dlist h l xs \<longleftrightarrow> distinct (l # xs) \<and> dseg h l xs l"


lemma dseg_append [klink]:
  "dseg h a (xs @ x # ys) b \<longleftrightarrow> dseg h a xs x \<and> dseg h x ys b"
  by (induction xs arbitrary: a) auto

lemma dseg_frame:
  assumes "\<And>x. x \<in> insert a (set xs) \<Longrightarrow> l_next (h' x) = l_next (h x)"
    and "\<And>x. x \<in> insert b (set xs) \<Longrightarrow> l_prev (h' x) = l_prev (h x)"
  shows "dseg h' a xs b \<longleftrightarrow> dseg h a xs b"
  using assms by (induction xs arbitrary: a) auto

lemma dlist_frame:
  assumes "dlist h l xs" and "\<And>x. x \<in> set (l # xs) \<Longrightarrow> h' x = h x"
  shows "dlist h' l xs"
  using assms dseg_frame [of l xs h' h l] by (auto simp: dlist_def)

lemma dseg_first: "dseg h a xs b \<Longrightarrow> l_next (h a) = Some (hd (xs @ [b]))"
  by (cases xs) auto

lemma dseg_last: "dseg h a xs b \<Longrightarrow> l_prev (h b) = Some (last (a # xs))"
  by (induction xs arbitrary: a) auto

lemma dseg_before:
  "dseg h a (xs @ ys) b \<Longrightarrow> l_prev (h (hd (ys @ [b]))) = Some (last (a # xs))"
  by (cases ys) (auto simp: dseg_append dest: dseg_last)

lemma dseg_insert:
  assumes "\<And>x. l_next (h' x) = (if x = last (a # xs) then Some link
              else if x = link then Some (hd (ys @ [b])) else l_next (h x))"
    and "\<And>x. l_prev (h' x) = (if x = hd (ys @ [b]) then Some link
              else if x = link then Some (last (a # xs)) else l_prev (h x))"
    and "dseg h a (xs @ ys) b" and "distinct (a # xs @ ys)" and "b \<notin> set (xs @ ys)"
    and "link \<notin> set (a # b # xs @ ys)"
  shows "dseg h' a (xs @ link # ys) b"
  using assms
proof (induction xs arbitrary: a)
  case Nil
  show ?case
  proof (cases ys)
    case Nil
    with Nil.prems show ?thesis by auto
  next
    case (Cons y zs)
    have "dseg h' y zs b \<longleftrightarrow> dseg h y zs b"
      by (rule dseg_frame) (use Cons Nil.prems in auto)
    with Cons Nil.prems show ?thesis by auto
  qed
next
  case (Cons x xs)
  have "last (x # xs) \<noteq> a" using Cons.prems(4) by (auto dest: last_in_set split: if_splits)
  moreover have "hd (ys @ [b]) \<noteq> x" using Cons.prems(4,5) by (cases ys) auto
  moreover have "dseg h' x (xs @ link # ys) b"
    by (rule Cons.IH) (use Cons.prems in auto)
  ultimately show ?case using Cons.prems by auto
qed

lemma dseg_delete:
  assumes "\<And>x. l_next (h' x) = (if x = link then None
              else if x = last (a # xs) then Some (hd (ys @ [b])) else l_next (h x))"
    and "\<And>x. l_prev (h' x) = (if x = link then None
              else if x = hd (ys @ [b]) then Some (last (a # xs)) else l_prev (h x))"
    and "dseg h a (xs @ link # ys) b" and "distinct (a # xs @ link # ys)"
    and "b \<notin> set (xs @ link # ys)"
  shows "dseg h' a (xs @ ys) b"
  using assms
proof (induction xs arbitrary: a)
  case Nil
  show ?case
  proof (cases ys)
    case Nil
    with Nil.prems show ?thesis by auto
  next
    case (Cons y zs)
    have "dseg h' y zs b \<longleftrightarrow> dseg h y zs b"
      by (rule dseg_frame) (use Cons Nil.prems in auto)
    with Cons Nil.prems show ?thesis by auto
  qed
next
  case (Cons x xs)
  have "last (x # xs) \<noteq> a" using Cons.prems(4) by (auto dest: last_in_set split: if_splits)
  moreover have "hd (ys @ [b]) \<noteq> x" using Cons.prems(4,5) by (cases ys) auto
  moreover have "dseg h' x (xs @ ys) b"
    by (rule Cons.IH) (use Cons.prems in auto)
  ultimately show ?case using Cons.prems by auto
qed


section \<open>The macros implement the sequence operations\<close>

lemma list_init_dlist: "dlist (list_init l h) l []"
  by (simp add: list_init_def dlist_def)

lemma list_empty_dlist:
  assumes "dlist h l xs"
  shows "list_empty l h \<longleftrightarrow> xs = []"
  using assms by (cases xs) (auto simp: list_empty_def dlist_def)

lemma dlist_links:
  assumes "dlist h l xs"
  shows "l_next (h l) = Some (hd (xs @ [l]))" "l_prev (h l) = Some (last (l # xs))"
  using assms dseg_first [of h l xs l] dseg_last [of h l xs l] by (auto simp: dlist_def)

lemma dlist_linked:
  assumes "dlist h l xs" and "x \<in> set xs"
  shows "list_link_is_linked x h"
proof -
  from assms(2) obtain ys zs where "xs = ys @ x # zs" by (meson split_list)
  with assms(1) have "dseg h l ys x" "dseg h x zs l" by (auto simp: dlist_def dseg_append)
  then show ?thesis
    using dseg_first [of h x zs l] dseg_last [of h l ys x] by (simp add: list_link_is_linked_def)
qed

lemma list_insert_before_dlist:
  assumes "dlist h l (xs @ ys)" and "link \<notin> set (l # xs @ ys)"
  shows "\<exists>h'. list_insert_before (hd (ys @ [l])) link h = Some h' \<and>
      dlist h' l (xs @ link # ys) \<and> (\<forall>a. a \<notin> set (l # link # xs @ ys) \<longrightarrow> h' a = h a)"
proof -
  define old where "old = hd (ys @ [l])"
  define p where "p = last (l # xs)"
  have old: "old \<in> set (l # ys)" by (cases ys) (auto simp: old_def)
  have p: "p \<in> set (l # xs)" unfolding p_def by (rule last_in_set) simp
  have ne: "link \<noteq> old" "link \<noteq> p" using old p assms(2) by auto
  have prev: "l_prev (h old) = Some p"
    using assms(1) unfolding old_def p_def by (auto simp: dlist_def dest: dseg_before)
  define h' where "h' = (let h3 = (h(link := (h link)\<lparr>l_next := Some old, l_prev := Some p\<rparr>))
      (p := (h p)\<lparr>l_next := Some link\<rparr>) in h3(old := (h3 old)\<lparr>l_prev := Some link\<rparr>))"
  have run: "list_insert_before old link h = Some h'"
    using ne prev by (simp add: list_insert_before_def h'_def Let_def)
  have nx: "l_next (h' x) = (if x = p then Some link else if x = link then Some old
      else l_next (h x))" for x
    using ne by (auto simp: h'_def Let_def)
  have pv: "l_prev (h' x) = (if x = old then Some link else if x = link then Some p
      else l_prev (h x))" for x
    using ne by (auto simp: h'_def Let_def)
  have "dseg h' l (xs @ link # ys) l"
    by (rule dseg_insert [where h = h])
      (use assms nx pv in \<open>auto simp: dlist_def old_def p_def\<close>)
  with assms have "dlist h' l (xs @ link # ys)" by (auto simp: dlist_def)
  moreover have "\<forall>a. a \<notin> set (l # link # xs @ ys) \<longrightarrow> h' a = h a"
    using old p by (auto simp: h'_def Let_def)
  ultimately show ?thesis using run by (auto simp: old_def)
qed

lemma list_remove_dlist:
  assumes "dlist h l (xs @ link # ys)"
  shows "\<exists>h'. list_remove link h = Some h' \<and> dlist h' l (xs @ ys) \<and>
      h' link = \<lparr>l_next = None, l_prev = None\<rparr> \<and>
      (\<forall>a. a \<notin> set (l # link # xs @ ys) \<longrightarrow> h' a = h a)"
proof -
  define n where "n = hd (ys @ [l])"
  define p where "p = last (l # xs)"
  have n: "n \<in> set (l # ys)" by (cases ys) (auto simp: n_def)
  have p: "p \<in> set (l # xs)" unfolding p_def by (rule last_in_set) simp
  have ne: "link \<noteq> n" "link \<noteq> p" using n p assms by (auto simp: dlist_def)
  have segs: "dseg h l xs link" "dseg h link ys l"
    using assms by (auto simp: dlist_def dseg_append)
  have lk: "l_prev (h link) = Some p" "l_next (h link) = Some n"
    using segs by (auto simp: p_def n_def dest: dseg_last dseg_first)
  define h' where "h' = (let h1 = h(p := (h p)\<lparr>l_next := Some n\<rparr>);
      h2 = h1(n := (h1 n)\<lparr>l_prev := Some p\<rparr>)
      in h2(link := \<lparr>l_next = None, l_prev = None\<rparr>))"
  have run: "list_remove link h = Some h'"
    using lk by (simp add: list_remove_def h'_def Let_def)
  have nx: "l_next (h' x) = (if x = link then None else if x = p then Some n
      else l_next (h x))" for x
    using ne by (auto simp: h'_def Let_def)
  have pv: "l_prev (h' x) = (if x = link then None else if x = n then Some p
      else l_prev (h x))" for x
    using ne by (auto simp: h'_def Let_def)
  have "dseg h' l (xs @ ys) l"
    by (rule dseg_delete [where h = h and link = link])
      (use assms nx pv in \<open>auto simp: dlist_def n_def p_def\<close>)
  with assms have "dlist h' l (xs @ ys)" by (auto simp: dlist_def)
  moreover have "\<forall>a. a \<notin> set (l # link # xs @ ys) \<longrightarrow> h' a = h a"
    using n p by (auto simp: h'_def Let_def)
  ultimately show ?thesis using run by (auto simp: h'_def Let_def)
qed


lemma list_insert_head_dlist:
  assumes "dlist h l xs" and "link \<notin> set (l # xs)"
  shows "\<exists>h'. list_insert_head l link h = Some h' \<and> dlist h' l (link # xs) \<and>
      (\<forall>a. a \<notin> set (l # link # xs) \<longrightarrow> h' a = h a)"
  using list_insert_before_dlist [of h l "[]" xs link] assms
  by (simp add: list_insert_head_def dlist_links(1))

lemma list_insert_tail_dlist:
  assumes "dlist h l xs" and "link \<notin> set (l # xs)"
  shows "\<exists>h'. list_insert_tail l link h = Some h' \<and> dlist h' l (xs @ [link]) \<and>
      (\<forall>a. a \<notin> set (l # link # xs) \<longrightarrow> h' a = h a)"
  using list_insert_before_dlist [of h l xs "[]" link] assms
  by (simp add: list_insert_tail_def)

lemma list_remove_head_dlist:
  assumes "dlist h l (x # xs)"
  shows "\<exists>h'. list_remove_head l h = Some h' \<and> dlist h' l xs \<and>
      h' x = \<lparr>l_next = None, l_prev = None\<rparr> \<and>
      (\<forall>a. a \<notin> set (l # x # xs) \<longrightarrow> h' a = h a)"
  using list_remove_dlist [of h l "[]" x xs] dlist_links(1) [OF assms] assms
  by (simp add: list_remove_head_def)

lemma list_remove_tail_dlist:
  assumes "dlist h l (xs @ [x])"
  shows "\<exists>h'. list_remove_tail l h = Some h' \<and> dlist h' l xs \<and>
      h' x = \<lparr>l_next = None, l_prev = None\<rparr> \<and>
      (\<forall>a. a \<notin> set (l # x # xs) \<longrightarrow> h' a = h a)"
  using list_remove_dlist [of h l xs x "[]"] dlist_links(2) [OF assms] assms
  by (simp add: list_remove_tail_def)

lemma list_iterate_from_next:
  assumes "dseg h a xs l" and "l \<notin> set xs" and "length xs < n"
  shows "list_iterate_from (\<lambda>h x. l_next (h x)) n l (l_next (h a)) h = Some xs"
  using assms
proof (induction xs arbitrary: a n)
  case Nil
  then show ?case by (cases n) auto
next
  case (Cons x xs)
  then obtain m where "n = Suc m" by (cases n) auto
  with Cons.IH [of x m] Cons.prems show ?case by auto
qed

lemma list_iterate_from_prev:
  assumes "dseg h l xs b" and "l \<notin> set xs" and "length xs < n"
  shows "list_iterate_from (\<lambda>h x. l_prev (h x)) n l (l_prev (h b)) h = Some (rev xs)"
  using assms
proof (induction xs arbitrary: b n rule: rev_induct)
  case Nil
  then show ?case by (cases n) auto
next
  case (snoc x xs)
  then obtain m where "n = Suc m" by (cases n) auto
  with snoc.IH [of x m] snoc.prems show ?case by (auto simp: dseg_append)
qed

lemma list_iterate_dlist:
  "dlist h l xs \<Longrightarrow> length xs < n \<Longrightarrow> list_iterate n l h = Some xs"
  by (simp add: dlist_def list_iterate_def list_iterate_from_next)

lemma list_iterate_reverse_dlist:
  "dlist h l xs \<Longrightarrow> length xs < n \<Longrightarrow> list_iterate_reverse n l h = Some (rev xs)"
  by (simp add: dlist_def list_iterate_reverse_def list_iterate_from_prev)

lemma list_iterate_from_fuel:
  "list_iterate_from step n l link h = Some xs \<Longrightarrow> n \<le> m \<Longrightarrow>
    list_iterate_from step m l link h = Some xs"
proof (induction n arbitrary: link m xs)
  case 0
  then show ?case by simp
next
  case (Suc n)
  from Suc.prems(2) obtain k where k: "m = Suc k" "n \<le> k" by (cases m) simp_all
  from Suc.prems(1) obtain a where a: "link = Some a" by (cases link) simp_all
  show ?case
  proof (cases "a = l")
    case True
    with Suc.prems(1) a k show ?thesis by simp
  next
    case False
    with Suc.prems(1) a obtain ys where
      "list_iterate_from step n l (step h a) h = Some ys" "xs = a # ys"
      by (auto simp: bind_eq_Some_conv)
    with Suc.IH [of "step h a" ys k] k False a show ?thesis by simp
  qed
qed

lemma list_iterate_fuel:
  assumes "dlist h l xs" and "list_iterate n l h = Some ys"
  shows "ys = xs"
  using list_iterate_from_fuel [OF assms(2) [unfolded list_iterate_def], of "n + Suc (length xs)"]
    list_iterate_dlist [OF assms(1), of "n + Suc (length xs)"] by (simp add: list_iterate_def)

lemma list_iterate_from_bound:
  "list_iterate_from step n l link h = Some xs \<Longrightarrow> length xs < n"
proof (induction n arbitrary: link xs)
  case 0
  then show ?case by simp
next
  case (Suc n)
  from Suc.prems obtain a where a: "link = Some a" by (cases link) simp_all
  show ?case
  proof (cases "a = l")
    case True
    with Suc.prems a show ?thesis by simp
  next
    case False
    with Suc.prems a obtain ys where
      "list_iterate_from step n l (step h a) h = Some ys" "xs = a # ys"
      by (auto simp: bind_eq_Some_conv)
    with Suc.IH [of "step h a" ys] show ?thesis by simp
  qed
qed

lemma list_iterate_reverse_fuel:
  assumes "dlist h l xs" and "list_iterate_reverse n l h = Some ys"
  shows "ys = rev xs" and "length xs < n"
proof -
  show ys: "ys = rev xs"
    using list_iterate_from_fuel [OF assms(2) [unfolded list_iterate_reverse_def], of "n + Suc (length xs)"]
      list_iterate_reverse_dlist [OF assms(1), of "n + Suc (length xs)"]
    by (simp add: list_iterate_reverse_def)
  show "length xs < n"
    using list_iterate_from_bound [OF assms(2) [unfolded list_iterate_reverse_def]] ys by simp
qed

lemma dlist_unique:
  assumes "dlist h l xs" and "dlist h l ys"
  shows "xs = ys"
  using list_iterate_dlist [OF assms(1), of "Suc (length xs + length ys)"]
    list_iterate_dlist [OF assms(2), of "Suc (length xs + length ys)"] by auto


section \<open>The interface the queue code uses\<close>

text \<open>
  A linked list as its clients see it: a representation relation, insertion
  at the front and removal of the last link, and the promise that lists made of
  other links do not change.  A client that inserts at the front and removes
  at the back, as the thread queues of proc/sched.c do, has a FIFO queue; that
  is proved here once, from the contract alone.
\<close>

fun push_all :: "('l \<Rightarrow> 'h \<Rightarrow> 'h option) \<Rightarrow> 'l list \<Rightarrow> 'h \<Rightarrow> 'h option" where
  "push_all ins [] h = Some h"
| "push_all ins (x # xs) h = do { h' \<leftarrow> ins x h; push_all ins xs h' }"

fun pop_all :: "('h \<Rightarrow> 'l option) \<Rightarrow> ('l \<Rightarrow> 'h \<Rightarrow> 'h option) \<Rightarrow> nat \<Rightarrow> 'h \<Rightarrow> ('l list \<times> 'h) option" where
  "pop_all lst rm 0 h = Some ([], h)"
| "pop_all lst rm (Suc n) h = do {
     x \<leftarrow> lst h;
     h' \<leftarrow> rm x h;
     (xs, h'') \<leftarrow> pop_all lst rm n h';
     Some (x # xs, h'')
   }"

locale link_list =
  fixes rep :: "'h \<Rightarrow> 'l \<Rightarrow> 'l list \<Rightarrow> bool"
    and ins_head :: "'l \<Rightarrow> 'l \<Rightarrow> 'h \<Rightarrow> 'h option"
    and last_of :: "'l \<Rightarrow> 'h \<Rightarrow> 'l option"
    and rem :: "'l \<Rightarrow> 'h \<Rightarrow> 'h option"
  assumes ins_head_rep: "rep h l xs \<Longrightarrow> x \<notin> set (l # xs) \<Longrightarrow>
      \<exists>h'. ins_head l x h = Some h' \<and> rep h' l (x # xs)"
    and ins_head_other: "rep h l xs \<Longrightarrow> x \<notin> set (l # xs) \<Longrightarrow> ins_head l x h = Some h' \<Longrightarrow>
      rep h k ys \<Longrightarrow> set (k # ys) \<inter> set (l # x # xs) = {} \<Longrightarrow> rep h' k ys"
    and last_of_rep: "rep h l (xs @ [x]) \<Longrightarrow> last_of l h = Some x"
    and rem_rep: "rep h l (xs @ x # ys) \<Longrightarrow> \<exists>h'. rem x h = Some h' \<and> rep h' l (xs @ ys)"
    and rem_other: "rep h l (xs @ x # ys) \<Longrightarrow> rem x h = Some h' \<Longrightarrow>
      rep h k zs \<Longrightarrow> set (k # zs) \<inter> set (l # xs @ x # ys) = {} \<Longrightarrow> rep h' k zs"
    and rep_distinct: "rep h l xs \<Longrightarrow> distinct (l # xs)"
begin

lemma push_all_rep:
  assumes "rep h l ys" and "distinct xs" and "set xs \<inter> set (l # ys) = {}"
  shows "\<exists>h'. push_all (ins_head l) xs h = Some h' \<and> rep h' l (rev xs @ ys)"
  using assms
proof (induction xs arbitrary: h ys)
  case Nil
  then show ?case by simp
next
  case (Cons x xs)
  with ins_head_rep [of h l ys x] obtain h1
    where h1: "ins_head l x h = Some h1" "rep h1 l (x # ys)" by auto
  from Cons.IH [OF h1(2)] Cons.prems obtain h'
    where "push_all (ins_head l) xs h1 = Some h'" "rep h' l (rev xs @ x # ys)" by auto
  with h1 show ?case by simp
qed

lemma pop_all_rep:
  assumes "rep h l (xs @ rev ys)"
  shows "\<exists>h'. pop_all (last_of l) rem (length ys) h = Some (ys, h') \<and> rep h' l xs"
  using assms
proof (induction ys arbitrary: h)
  case Nil
  then show ?case by simp
next
  case (Cons y ys)
  then have y: "rep h l ((xs @ rev ys) @ [y])" by simp
  with rem_rep [of h l "xs @ rev ys" y "[]"] obtain h1
    where h1: "rem y h = Some h1" "rep h1 l (xs @ rev ys)" by auto
  from Cons.IH [OF h1(2)] obtain h'
    where "pop_all (last_of l) rem (length ys) h1 = Some (ys, h')" "rep h' l xs" by blast
  with h1 last_of_rep [OF y] show ?case by simp
qed

lemma fifo:
  assumes "rep h l []" and "distinct xs" and "l \<notin> set xs"
  shows "\<exists>h1 h2. push_all (ins_head l) xs h = Some h1 \<and>
      pop_all (last_of l) rem (length xs) h1 = Some (xs, h2) \<and> rep h2 l []"
  using push_all_rep [OF assms(1,2)] assms(3) pop_all_rep [of _ l "[]" xs] by fastforce

end

interpretation klist: link_list dlist list_insert_head "\<lambda>l h. l_prev (h l)" list_remove
proof (unfold_locales, goal_cases)
  case (1 h l xs x)
  then show ?case using list_insert_head_dlist by fast
next
  case (2 h l xs x h' k ys)
  then show ?case
    using list_insert_head_dlist [OF 2(1,2)]
    by (intro dlist_frame [OF 2(4)]) (auto simp: disjoint_iff)
next
  case (3 h l xs x)
  then show ?case by (simp add: dlist_links)
next
  case (4 h l xs x ys)
  then show ?case using list_remove_dlist by fast
next
  case (5 h l xs x ys h' k zs)
  then show ?case
    using list_remove_dlist [OF 5(1)]
    by (intro dlist_frame [OF 5(3)]) (auto simp: disjoint_iff)
next
  case (6 h l xs)
  then show ?case by (simp add: dlist_def)
qed

end
