(* ===== verification/Sched.thy ===== *)
theory Sched
  imports Klist
begin

text \<open>
  Kernel threads and the scheduler: proc/sched.c, the thread state of
  include/proc/kthread.h and the thread queue of include/proc/sched.h.

  A thread queue is a link in the store of \<open>Klist\<close> plus its size counter, and a
  thread sits on a queue through its own link, so the queue operations are the
  list macros applied to that store, as in the code.  The kernel is not preemptive:
  an operation runs until it calls \<open>sched_switch\<close>, which hands the processor to
  the thread at the tail of the run queue.  Where the run queue is empty,
  \<open>sched_switch\<close> waits for interrupts; the interrupts that arrive are an
  argument, a list of handlers, and waiting for more of them than there are is a
  result of its own.
\<close>

section \<open>State\<close>

datatype ktq = Kt_runq | Km_waitq nat | P_wait nat | Vn_waitq nat | Waitq nat

datatype laddr = Tq_list ktq | Kt_qlink nat

datatype kt_state = KT_NO_STATE | KT_RUN | KT_SLEEP | KT_SLEEP_CANCELLABLE | KT_EXITED

record kthread =
  kt_retval :: int
  kt_proc :: nat
  kt_cancelled :: int
  kt_wchan :: "ktq option"
  kt_state :: kt_state

record sched =
  links :: "laddr lheap"
  tq_size :: "ktq \<Rightarrow> int"
  threads :: "nat \<Rightarrow> kthread option"
  curthr :: "nat option"
  curproc :: "nat option"
  ipl :: nat
  saved_ipl :: "nat \<Rightarrow> nat"

datatype 's switched = Switched 's | Waiting 's

abbreviation (input) IPL_LOW :: nat where "IPL_LOW \<equiv> 0"
abbreviation (input) IPL_HIGH :: nat where "IPL_HIGH \<equiv> 255"

definition list_item :: "laddr \<Rightarrow> nat option" where
  "list_item a = (case a of Kt_qlink t \<Rightarrow> Some t | Tq_list q \<Rightarrow> None)"

definition thread_upd :: "nat \<Rightarrow> (kthread \<Rightarrow> kthread) \<Rightarrow> 'z sched_scheme \<Rightarrow> 'z sched_scheme option" where
  "thread_upd t f s = do { th \<leftarrow> threads s t; Some (s\<lparr>threads := (threads s)(t \<mapsto> f th)\<rparr>) }"

section \<open>Thread queues\<close>

definition ktqueue_enqueue :: "ktq \<Rightarrow> nat \<Rightarrow> 'z sched_scheme \<Rightarrow> 'z sched_scheme option" where
  "ktqueue_enqueue q thr s = do {
     th \<leftarrow> threads s thr;
     kassert (kt_wchan th = None);
     h \<leftarrow> list_insert_head (Tq_list q) (Kt_qlink thr) (links s);
     Some (s\<lparr>links := h,
             tq_size := (tq_size s)(q := tq_size s q + 1),
             threads := (threads s)(thr \<mapsto> th\<lparr>kt_wchan := Some q\<rparr>)\<rparr>)
   }"

definition ktqueue_dequeue :: "ktq \<Rightarrow> 'z sched_scheme \<Rightarrow> (nat option \<times> 'z sched_scheme) option" where
  "ktqueue_dequeue q s =
    (if list_empty (Tq_list q) (links s) then Some (None, s)
     else do {
       link \<leftarrow> l_prev (links s (Tq_list q));
       thr \<leftarrow> list_item link;
       h \<leftarrow> list_remove link (links s);
       th \<leftarrow> threads s thr;
       Some (Some thr, s\<lparr>links := h,
               tq_size := (tq_size s)(q := tq_size s q - 1),
               threads := (threads s)(thr \<mapsto> th\<lparr>kt_wchan := None\<rparr>)\<rparr>)
     })"

definition ktqueue_remove :: "ktq \<Rightarrow> nat \<Rightarrow> 'z sched_scheme \<Rightarrow> 'z sched_scheme option" where
  "ktqueue_remove q thr s = do {
     kassert (list_link_is_linked (Kt_qlink thr) (links s));
     h \<leftarrow> list_remove (Kt_qlink thr) (links s);
     th \<leftarrow> threads s thr;
     Some (s\<lparr>links := h,
             tq_size := (tq_size s)(q := tq_size s q - 1),
             threads := (threads s)(thr \<mapsto> th\<lparr>kt_wchan := None\<rparr>)\<rparr>)
   }"

definition sched_queue_init :: "ktq \<Rightarrow> 'z sched_scheme \<Rightarrow> 'z sched_scheme" where
  "sched_queue_init q s = s\<lparr>links := list_init (Tq_list q) (links s),
                            tq_size := (tq_size s)(q := 0)\<rparr>"

definition sched_queue_empty :: "ktq \<Rightarrow> 'z sched_scheme \<Rightarrow> bool" where
  "sched_queue_empty q s = list_empty (Tq_list q) (links s)"

section \<open>Scheduling\<close>

definition sched_make_runnable :: "nat \<Rightarrow> 'z sched_scheme \<Rightarrow> 'z sched_scheme option" where
  "sched_make_runnable thr s = do {
     th \<leftarrow> threads s thr;
     kassert (kt_wchan th \<noteq> Some Kt_runq);
     let interrupt_l = ipl s;
     s1 \<leftarrow> thread_upd thr (kt_state_update (\<lambda>_. KT_RUN)) (s\<lparr>ipl := IPL_HIGH\<rparr>);
     s2 \<leftarrow> ktqueue_enqueue Kt_runq thr s1;
     Some (s2\<lparr>ipl := interrupt_l\<rparr>)
   }"

text \<open>
  The waiting loop of \<open>sched_switch\<close>: interrupts are let in at the low level
  one at a time until one of them has made a thread runnable.
\<close>

fun sched_intr_wait ::
  "('z sched_scheme \<Rightarrow> 'z sched_scheme option) list \<Rightarrow> 'z sched_scheme \<Rightarrow> 'z sched_scheme switched option" where
  "sched_intr_wait [] s =
    (if sched_queue_empty Kt_runq s then Some (Waiting (s\<lparr>ipl := IPL_LOW\<rparr>)) else Some (Switched s))"
| "sched_intr_wait (irq # irqs) s =
    (if sched_queue_empty Kt_runq s then do {
       s1 \<leftarrow> irq (s\<lparr>ipl := IPL_LOW\<rparr>);
       sched_intr_wait irqs (s1\<lparr>ipl := IPL_HIGH\<rparr>)
     } else Some (Switched s))"

text \<open>
  The local \<open>interrupt_l\<close> of a thread inside \<open>sched_switch\<close> stays on its kernel
  stack until it runs again; \<^const>\<open>saved_ipl\<close> is that local of every
  suspended thread (for a thread that has not run yet it is the level
  \<open>__context_initial_func\<close> of proc/context.c sets).
\<close>

definition sched_switch ::
  "('z sched_scheme \<Rightarrow> 'z sched_scheme option) list \<Rightarrow> 'z sched_scheme \<Rightarrow> 'z sched_scheme switched option" where
  "sched_switch irqs s = do {
     thr1 \<leftarrow> curthr s;
     let s1 = s\<lparr>saved_ipl := (saved_ipl s)(thr1 := ipl s), ipl := IPL_HIGH\<rparr>;
     r \<leftarrow> sched_intr_wait irqs s1;
     (case r of
        Waiting s2 \<Rightarrow> Some (Waiting s2)
      | Switched s2 \<Rightarrow> do {
          (next, s3) \<leftarrow> ktqueue_dequeue Kt_runq s2;
          thr \<leftarrow> next;
          th \<leftarrow> threads s3 thr;
          Some (Switched (s3\<lparr>curthr := Some thr, curproc := Some (kt_proc th),
                             ipl := saved_ipl s3 thr\<rparr>))
        })
   }"

text \<open>
  The sleeping operations up to and including the switch; what the caller does
  after it runs when the thread is scheduled again.  For the cancellable sleep
  that is the test of \<^const>\<open>kt_cancelled\<close>, \<open>sched_cancellable_result\<close>.
\<close>

definition sched_sleep_on ::
  "('z sched_scheme \<Rightarrow> 'z sched_scheme option) list \<Rightarrow> ktq \<Rightarrow> 'z sched_scheme \<Rightarrow> 'z sched_scheme switched option" where
  "sched_sleep_on irqs q s = do {
     cur \<leftarrow> curthr s;
     s1 \<leftarrow> thread_upd cur (kt_state_update (\<lambda>_. KT_SLEEP)) s;
     s2 \<leftarrow> ktqueue_enqueue q cur s1;
     sched_switch irqs s2
   }"

definition sched_cancellable_sleep_on ::
  "('z sched_scheme \<Rightarrow> 'z sched_scheme option) list \<Rightarrow> ktq \<Rightarrow> 'z sched_scheme \<Rightarrow> 'z sched_scheme switched option" where
  "sched_cancellable_sleep_on irqs q s = do {
     cur \<leftarrow> curthr s;
     s1 \<leftarrow> thread_upd cur (kt_state_update (\<lambda>_. KT_SLEEP_CANCELLABLE)) s;
     s2 \<leftarrow> ktqueue_enqueue q cur s1;
     sched_switch irqs s2
   }"

definition sched_cancellable_result :: "'z sched_scheme \<Rightarrow> int option" where
  "sched_cancellable_result s = do {
     cur \<leftarrow> curthr s;
     th \<leftarrow> threads s cur;
     Some (if kt_cancelled th = 1 then - EINTR else 0)
   }"

definition sched_wakeup_on :: "ktq \<Rightarrow> 'z sched_scheme \<Rightarrow> (nat option \<times> 'z sched_scheme) option" where
  "sched_wakeup_on q s =
    (if \<not> sched_queue_empty q s then do {
       (next, s1) \<leftarrow> ktqueue_dequeue q s;
       thr \<leftarrow> next;
       th \<leftarrow> threads s1 thr;
       kassert (kt_state th = KT_SLEEP \<or> kt_state th = KT_SLEEP_CANCELLABLE);
       s2 \<leftarrow> sched_make_runnable thr s1;
       Some (Some thr, s2)
     } else Some (None, s))"

text \<open>
  \<open>sched_broadcast_on\<close> loops until the queue is empty; every round shortens the
  queue, so as many rounds as threads on it are enough
  (\<open>sched_broadcast_on_spec\<close> below).
\<close>

fun sched_broadcast_on :: "nat \<Rightarrow> ktq \<Rightarrow> 'z sched_scheme \<Rightarrow> 'z sched_scheme option" where
  "sched_broadcast_on 0 q s = (if sched_queue_empty q s then Some s else None)"
| "sched_broadcast_on (Suc n) q s =
    (if sched_queue_empty q s then Some s
     else do { (thr, s1) \<leftarrow> sched_wakeup_on q s; sched_broadcast_on n q s1 })"

definition sched_cancel :: "nat \<Rightarrow> 'z sched_scheme \<Rightarrow> 'z sched_scheme option" where
  "sched_cancel kthr s = do {
     th \<leftarrow> threads s kthr;
     kassert (kt_state th \<noteq> KT_NO_STATE \<and> kt_state th \<noteq> KT_EXITED);
     s1 \<leftarrow> thread_upd kthr (kt_cancelled_update (\<lambda>_. 1)) s;
     (if kt_state th = KT_SLEEP_CANCELLABLE then do {
        q \<leftarrow> kt_wchan th;
        s2 \<leftarrow> ktqueue_remove q kthr s1;
        sched_make_runnable kthr s2
      } else Some s1)
   }"


section \<open>What the queues represent\<close>

text \<open>
  \<open>sched_rep s Q\<close>: in state \<open>s\<close> every queue \<open>q\<close> holds the threads \<open>Q q\<close>, in the
  order they arrived.  The links form the list, the size counter is its length, the
  back pointer \<^const>\<open>kt_wchan\<close> of a thread names the queue it is on, and a thread
  on no queue has NULL links.
\<close>

definition wchan_of :: "'z sched_scheme \<Rightarrow> nat \<Rightarrow> ktq option" where
  "wchan_of s t = Option.bind (threads s t) kt_wchan"

definition sched_rep :: "'z sched_scheme \<Rightarrow> (ktq \<Rightarrow> nat list) \<Rightarrow> bool" where
  "sched_rep s Q \<longleftrightarrow>
     (\<forall>q. dlist (links s) (Tq_list q) (map Kt_qlink (rev (Q q)))) \<and>
     (\<forall>q. tq_size s q = int (length (Q q))) \<and>
     (\<forall>q t. t \<in> set (Q q) \<longleftrightarrow> wchan_of s t = Some q) \<and>
     (\<forall>t. wchan_of s t = None \<longrightarrow> links s (Kt_qlink t) = \<lparr>l_next = None, l_prev = None\<rparr>)"

lemma sched_repD:
  assumes "sched_rep s Q"
  shows "dlist (links s) (Tq_list q) (map Kt_qlink (rev (Q q)))"
    and "tq_size s q = int (length (Q q))"
    and "t \<in> set (Q q) \<longleftrightarrow> wchan_of s t = Some q"
    and "wchan_of s t = None \<Longrightarrow> links s (Kt_qlink t) = \<lparr>l_next = None, l_prev = None\<rparr>"
  using assms by (auto simp: sched_rep_def)

lemma sched_rep_cong:
  assumes "links s' = links s" and "tq_size s' = tq_size s" and "wchan_of s' = wchan_of s"
  shows "sched_rep s' Q \<longleftrightarrow> sched_rep s Q"
  using assms by (simp add: sched_rep_def)

lemma sched_rep_distinct: "sched_rep s Q \<Longrightarrow> distinct (Q q)"
  using sched_repD(1) [of s Q q] by (simp add: dlist_def distinct_map)

lemma sched_rep_disjoint: "sched_rep s Q \<Longrightarrow> x \<in> set (Q k) \<Longrightarrow> x \<in> set (Q q) \<Longrightarrow> k = q"
  using sched_repD(3) [of s Q x k] sched_repD(3) [of s Q x q] by simp

lemma sched_rep_unique:
  assumes "sched_rep s Q" and "sched_rep s Q'"
  shows "Q = Q'"
proof
  fix q
  have "map Kt_qlink (rev (Q q)) = map Kt_qlink (rev (Q' q))"
    using assms by (meson dlist_unique sched_repD(1))
  moreover have "inj Kt_qlink" by (simp add: inj_def)
  ultimately show "Q q = Q' q" by simp
qed

lemma sched_queue_empty_rep: "sched_rep s Q \<Longrightarrow> sched_queue_empty q s \<longleftrightarrow> Q q = []"
  using list_empty_dlist [OF sched_repD(1), of s Q q] by (simp add: sched_queue_empty_def)

lemma ktqueue_enqueue_rep:
  assumes rep: "sched_rep s Q" and th: "threads s t = Some th" and wc: "kt_wchan th = None"
  shows "\<exists>h. ktqueue_enqueue q t s = Some (s\<lparr>links := h,
        tq_size := (tq_size s)(q := tq_size s q + 1),
        threads := (threads s)(t \<mapsto> th\<lparr>kt_wchan := Some q\<rparr>)\<rparr>) \<and>
      sched_rep (s\<lparr>links := h, tq_size := (tq_size s)(q := tq_size s q + 1),
        threads := (threads s)(t \<mapsto> th\<lparr>kt_wchan := Some q\<rparr>)\<rparr>) (Q(q := Q q @ [t]))"
proof -
  have nowc: "wchan_of s t = None" using th wc by (simp add: wchan_of_def)
  then have notin: "t \<notin> set (Q k)" for k using sched_repD(3) [OF rep] by auto
  have "Kt_qlink t \<notin> set (Tq_list q # map Kt_qlink (rev (Q q)))" using notin by auto
  from list_insert_head_dlist [OF sched_repD(1) [OF rep] this] obtain h where
    h: "list_insert_head (Tq_list q) (Kt_qlink t) (links s) = Some h"
    and hl: "dlist h (Tq_list q) (Kt_qlink t # map Kt_qlink (rev (Q q)))"
    and fr: "\<And>a. a \<notin> set (Tq_list q # Kt_qlink t # map Kt_qlink (rev (Q q))) \<Longrightarrow> h a = links s a"
    by blast
  define s' where "s' = s\<lparr>links := h, tq_size := (tq_size s)(q := tq_size s q + 1),
        threads := (threads s)(t \<mapsto> th\<lparr>kt_wchan := Some q\<rparr>)\<rparr>"
  have wc': "wchan_of s' x = (if x = t then Some q else wchan_of s x)" for x
    by (simp add: s'_def wchan_of_def)
  have other: "dlist h (Tq_list k) (map Kt_qlink (rev (Q k)))" if "k \<noteq> q" for k
    by (rule dlist_frame [OF sched_repD(1) [OF rep]])
      (use that notin sched_rep_disjoint [OF rep] in \<open>auto intro!: fr\<close>)
  have "sched_rep s' (Q(q := Q q @ [t]))"
    unfolding sched_rep_def
  proof (intro conjI allI impI)
    fix k
    show "dlist (links s') (Tq_list k) (map Kt_qlink (rev ((Q(q := Q q @ [t])) k)))"
      using hl other by (simp add: s'_def)
    show "tq_size s' k = int (length ((Q(q := Q q @ [t])) k))"
      using sched_repD(2) [OF rep] by (simp add: s'_def)
    fix x
    show "x \<in> set ((Q(q := Q q @ [t])) k) \<longleftrightarrow> wchan_of s' x = Some k"
      using sched_repD(3) [OF rep] notin nowc by (auto simp: wc')
  next
    fix x assume "wchan_of s' x = None"
    then have "x \<noteq> t" "wchan_of s x = None" by (auto simp: wc' split: if_splits)
    moreover from this have "x \<notin> set (Q q)" using sched_repD(3) [OF rep] by simp
    ultimately show "links s' (Kt_qlink x) = \<lparr>l_next = None, l_prev = None\<rparr>"
      using fr [of "Kt_qlink x"] sched_repD(4) [OF rep] by (auto simp: s'_def)
  qed
  then show ?thesis using h th wc by (auto simp: ktqueue_enqueue_def s'_def)
qed

lemma ktqueue_unlink_rep:
  assumes rep: "sched_rep s Q" and Q: "Q q = xs @ t # ys"
  shows "\<exists>h th. list_remove (Kt_qlink t) (links s) = Some h \<and> threads s t = Some th \<and>
      kt_wchan th = Some q \<and>
      sched_rep (s\<lparr>links := h, tq_size := (tq_size s)(q := tq_size s q - 1),
        threads := (threads s)(t \<mapsto> th\<lparr>kt_wchan := None\<rparr>)\<rparr>) (Q(q := xs @ ys))"
proof -
  have "dlist (links s) (Tq_list q) (map Kt_qlink (rev ys) @ Kt_qlink t # map Kt_qlink (rev xs))"
    using sched_repD(1) [OF rep, of q] by (simp add: Q)
  from list_remove_dlist [OF this] obtain h where
    h: "list_remove (Kt_qlink t) (links s) = Some h"
    and hl: "dlist h (Tq_list q) (map Kt_qlink (rev ys) @ map Kt_qlink (rev xs))"
    and ht: "h (Kt_qlink t) = \<lparr>l_next = None, l_prev = None\<rparr>"
    and fr: "\<And>a. a \<notin> set (Tq_list q # Kt_qlink t # map Kt_qlink (rev ys) @ map Kt_qlink (rev xs))
      \<Longrightarrow> h a = links s a"
    by blast
  have wc: "wchan_of s t = Some q" using sched_repD(3) [OF rep, of t q] Q by simp
  then obtain th where th: "threads s t = Some th" "kt_wchan th = Some q"
    by (auto simp: wchan_of_def bind_eq_Some_conv)
  have dist: "t \<notin> set xs" "t \<notin> set ys" using sched_rep_distinct [OF rep, of q] by (auto simp: Q)
  define s' where "s' = s\<lparr>links := h, tq_size := (tq_size s)(q := tq_size s q - 1),
        threads := (threads s)(t \<mapsto> th\<lparr>kt_wchan := None\<rparr>)\<rparr>"
  have wc': "wchan_of s' x = (if x = t then None else wchan_of s x)" for x
    by (simp add: s'_def wchan_of_def)
  have in_q: "wchan_of s x = Some q \<longleftrightarrow> x \<in> set (xs @ t # ys)" for x
    using sched_repD(3) [OF rep, of x q] by (simp add: Q)
  have disj: "x \<notin> set (xs @ t # ys)" if "k \<noteq> q" "x \<in> set (Q k)" for x k
    using sched_rep_disjoint [OF rep that(2), of q] that(1) by (auto simp: Q)
  have other: "dlist h (Tq_list k) (map Kt_qlink (rev (Q k)))" if "k \<noteq> q" for k
    by (rule dlist_frame [OF sched_repD(1) [OF rep]])
      (use that disj in \<open>fastforce intro!: fr\<close>)
  have "sched_rep s' (Q(q := xs @ ys))"
    unfolding sched_rep_def
  proof (intro conjI allI impI)
    fix k
    show "dlist (links s') (Tq_list k) (map Kt_qlink (rev ((Q(q := xs @ ys)) k)))"
      using hl other by (simp add: s'_def)
    show "tq_size s' k = int (length ((Q(q := xs @ ys)) k))"
      using sched_repD(2) [OF rep] by (simp add: s'_def Q)
    fix x
    show "x \<in> set ((Q(q := xs @ ys)) k) \<longleftrightarrow> wchan_of s' x = Some k"
      using sched_repD(3) [OF rep, of x k] dist wc by (auto simp: wc' Q)
  next
    fix x assume "wchan_of s' x = None"
    then consider "x = t" | "x \<noteq> t" "wchan_of s x = None" by (auto simp: wc' split: if_splits)
    then show "links s' (Kt_qlink x) = \<lparr>l_next = None, l_prev = None\<rparr>"
    proof cases
      case 2
      then have "x \<notin> set (xs @ t # ys)" using in_q [of x] by simp
      then have "h (Kt_qlink x) = links s (Kt_qlink x)" by (intro fr) auto
      with 2 show ?thesis using sched_repD(4) [OF rep, of x] by (simp add: s'_def)
    qed (simp add: s'_def ht)
  qed
  then show ?thesis using h th by (auto simp: s'_def)
qed


lemma ktqueue_dequeue_rep:
  assumes rep: "sched_rep s Q" and Q: "Q q = t # ts"
  shows "\<exists>h th. ktqueue_dequeue q s = Some (Some t, s\<lparr>links := h,
        tq_size := (tq_size s)(q := tq_size s q - 1),
        threads := (threads s)(t \<mapsto> th\<lparr>kt_wchan := None\<rparr>)\<rparr>) \<and>
      threads s t = Some th \<and> kt_wchan th = Some q \<and>
      sched_rep (s\<lparr>links := h, tq_size := (tq_size s)(q := tq_size s q - 1),
        threads := (threads s)(t \<mapsto> th\<lparr>kt_wchan := None\<rparr>)\<rparr>) (Q(q := ts))"
proof -
  have ne: "\<not> list_empty (Tq_list q) (links s)"
    using sched_queue_empty_rep [OF rep, of q] Q by (simp add: sched_queue_empty_def)
  have "l_prev (links s (Tq_list q)) = Some (Kt_qlink t)"
    using dlist_links(2) [OF sched_repD(1) [OF rep, of q]] by (simp add: Q)
  with ne ktqueue_unlink_rep [OF rep, of q "[]" t ts] Q show ?thesis
    by (auto simp: ktqueue_dequeue_def list_item_def)
qed

lemma ktqueue_dequeue_empty: "sched_rep s Q \<Longrightarrow> Q q = [] \<Longrightarrow> ktqueue_dequeue q s = Some (None, s)"
  using sched_queue_empty_rep [of s Q q] by (simp add: ktqueue_dequeue_def sched_queue_empty_def)

lemma ktqueue_remove_rep:
  assumes rep: "sched_rep s Q" and Q: "Q q = xs @ t # ys"
  shows "\<exists>h th. ktqueue_remove q t s = Some (s\<lparr>links := h,
        tq_size := (tq_size s)(q := tq_size s q - 1),
        threads := (threads s)(t \<mapsto> th\<lparr>kt_wchan := None\<rparr>)\<rparr>) \<and>
      threads s t = Some th \<and>
      sched_rep (s\<lparr>links := h, tq_size := (tq_size s)(q := tq_size s q - 1),
        threads := (threads s)(t \<mapsto> th\<lparr>kt_wchan := None\<rparr>)\<rparr>) (Q(q := xs @ ys))"
proof -
  have "list_link_is_linked (Kt_qlink t) (links s)"
    by (rule dlist_linked [OF sched_repD(1) [OF rep, of q]]) (simp add: Q)
  with ktqueue_unlink_rep [OF rep Q] show ?thesis by (auto simp: ktqueue_remove_def)
qed


section \<open>What the scheduling operations do\<close>

text \<open>
  The effect of each operation on the arrival-ordered queues and on the threads.
  \<open>same_ctx\<close> says that an operation leaves the running thread, the interrupt
  levels and the rest of the kernel's state alone.
\<close>

definition same_ctx :: "'z sched_scheme \<Rightarrow> 'z sched_scheme \<Rightarrow> bool" where
  "same_ctx s s' \<longleftrightarrow> curthr s' = curthr s \<and> curproc s' = curproc s \<and> ipl s' = ipl s \<and>
     saved_ipl s' = saved_ipl s \<and> sched.more s' = sched.more s"

lemma same_ctx_refl [simp]: "same_ctx s s"
  by (simp add: same_ctx_def)

lemma same_ctx_trans: "same_ctx s s' \<Longrightarrow> same_ctx s' s'' \<Longrightarrow> same_ctx s s''"
  by (simp add: same_ctx_def)

lemma wchan_of_upd [simp]:
  "wchan_of (s\<lparr>threads := (threads s)(t \<mapsto> th)\<rparr>) x = (if x = t then kt_wchan th else wchan_of s x)"
  by (simp add: wchan_of_def)

lemma sched_make_runnable_rep:
  assumes rep: "sched_rep s Q" and th: "threads s t = Some th" and wc: "kt_wchan th = None"
  shows "\<exists>s'. sched_make_runnable t s = Some s' \<and>
      sched_rep s' (Q(Kt_runq := Q Kt_runq @ [t])) \<and> same_ctx s s' \<and>
      threads s' = (threads s)(t \<mapsto> th\<lparr>kt_state := KT_RUN, kt_wchan := Some Kt_runq\<rparr>)"
proof -
  define th1 where "th1 = th\<lparr>kt_state := KT_RUN\<rparr>"
  define s1 where "s1 = s\<lparr>ipl := IPL_HIGH, threads := (threads s)(t \<mapsto> th1)\<rparr>"
  have wc1: "wchan_of s1 x = wchan_of s x" for x
    using th wc by (simp add: s1_def th1_def wchan_of_def)
  have "sched_rep s1 Q"
    using rep by (subst sched_rep_cong [where s = s]) (auto simp: s1_def wc1 [unfolded s1_def])
  moreover have "threads s1 t = Some th1" "kt_wchan th1 = None" by (simp_all add: s1_def th1_def wc)
  ultimately obtain s2 where
    s2: "ktqueue_enqueue Kt_runq t s1 = Some s2" "sched_rep s2 (Q(Kt_runq := Q Kt_runq @ [t]))"
      "threads s2 = (threads s)(t \<mapsto> th1\<lparr>kt_wchan := Some Kt_runq\<rparr>)"
      "same_ctx s1 s2"
    using ktqueue_enqueue_rep [of s1 Q t th1 Kt_runq] by (auto simp: s1_def same_ctx_def)
  have "sched_make_runnable t s = Some (s2\<lparr>ipl := ipl s\<rparr>)"
    using th wc s2(1) by (simp add: sched_make_runnable_def thread_upd_def s1_def th1_def)
  moreover have "sched_rep (s2\<lparr>ipl := ipl s\<rparr>) (Q(Kt_runq := Q Kt_runq @ [t]))"
    using s2(2) by (subst sched_rep_cong [where s = s2]) (auto simp: wchan_of_def fun_eq_iff)
  ultimately show ?thesis using s2(3,4) by (auto simp: th1_def same_ctx_def s1_def)
qed

lemma sched_wakeup_on_rep:
  assumes rep: "sched_rep s Q" and Q: "Q q = t # ts" and th: "threads s t = Some th"
    and st: "kt_state th = KT_SLEEP \<or> kt_state th = KT_SLEEP_CANCELLABLE"
  shows "\<exists>s'. sched_wakeup_on q s = Some (Some t, s') \<and>
      sched_rep s' ((Q(q := ts))(Kt_runq := (Q(q := ts)) Kt_runq @ [t])) \<and> same_ctx s s' \<and>
      threads s' = (threads s)(t \<mapsto> th\<lparr>kt_state := KT_RUN, kt_wchan := Some Kt_runq\<rparr>)"
proof -
  from ktqueue_dequeue_rep [OF rep Q] th obtain s1 where
    s1: "ktqueue_dequeue q s = Some (Some t, s1)" "sched_rep s1 (Q(q := ts))"
      "threads s1 = (threads s)(t \<mapsto> th\<lparr>kt_wchan := None\<rparr>)" "same_ctx s s1"
    by (auto simp: same_ctx_def)
  have th1: "threads s1 t = Some (th\<lparr>kt_wchan := None\<rparr>)" by (simp add: s1(3))
  from sched_make_runnable_rep [OF s1(2) th1] obtain s2 where
    s2: "sched_make_runnable t s1 = Some s2" "same_ctx s1 s2"
      "sched_rep s2 ((Q(q := ts))(Kt_runq := (Q(q := ts)) Kt_runq @ [t]))"
      "threads s2 = (threads s1)(t \<mapsto> th\<lparr>kt_wchan := None, kt_state := KT_RUN, kt_wchan := Some Kt_runq\<rparr>)"
    by auto
  have "\<not> sched_queue_empty q s" using sched_queue_empty_rep [OF rep, of q] Q by simp
  then have "sched_wakeup_on q s = Some (Some t, s2)"
    using s1(1) th1 st s2(1) by (simp add: sched_wakeup_on_def)
  with s1 s2 show ?thesis by (auto intro: same_ctx_trans)
qed

lemma sched_wakeup_on_empty: "sched_rep s Q \<Longrightarrow> Q q = [] \<Longrightarrow> sched_wakeup_on q s = Some (None, s)"
  by (simp add: sched_wakeup_on_def sched_queue_empty_rep)

lemma sched_switch_rep:
  assumes rep: "sched_rep s Q" and Q: "Q Kt_runq = t # ts" and cur: "curthr s = Some c"
  shows "\<exists>s' th. sched_switch irqs s = Some (Switched s') \<and> threads s t = Some th \<and>
      sched_rep s' (Q(Kt_runq := ts)) \<and> threads s' = (threads s)(t \<mapsto> th\<lparr>kt_wchan := None\<rparr>) \<and>
      curthr s' = Some t \<and> curproc s' = Some (kt_proc th) \<and>
      ipl s' = (if t = c then ipl s else saved_ipl s t) \<and>
      saved_ipl s' = (saved_ipl s)(c := ipl s) \<and> sched.more s' = sched.more s"
proof -
  define s1 where "s1 = s\<lparr>saved_ipl := (saved_ipl s)(c := ipl s), ipl := IPL_HIGH\<rparr>"
  have rep1: "sched_rep s1 Q"
    using rep by (subst sched_rep_cong [where s = s]) (auto simp: s1_def wchan_of_def fun_eq_iff)
  have "\<not> sched_queue_empty Kt_runq s1" using sched_queue_empty_rep [OF rep1] Q by simp
  then have wait: "sched_intr_wait irqs s1 = Some (Switched s1)" by (cases irqs) auto
  from ktqueue_dequeue_rep [OF rep1 Q] obtain s2 th where
    s2: "ktqueue_dequeue Kt_runq s1 = Some (Some t, s2)" "sched_rep s2 (Q(Kt_runq := ts))"
      "threads s2 = (threads s)(t \<mapsto> th\<lparr>kt_wchan := None\<rparr>)" "same_ctx s1 s2"
      "threads s t = Some th"
    by (auto simp: same_ctx_def s1_def)
  define s3 where "s3 = s2\<lparr>curthr := Some t, curproc := Some (kt_proc th), ipl := saved_ipl s2 t\<rparr>"
  have "sched_switch irqs s = Some (Switched s3)"
    using cur wait s2(1,3) by (simp add: sched_switch_def s1_def [symmetric] s3_def)
  moreover have "sched_rep s3 (Q(Kt_runq := ts))"
    using s2(2) by (subst sched_rep_cong [where s = s2]) (auto simp: s3_def wchan_of_def fun_eq_iff)
  ultimately show ?thesis
    using s2 by (auto simp: s3_def same_ctx_def s1_def)
qed


section \<open>The scheduler invariant\<close>

text \<open>
  The comment above \<open>sched_cancel\<close> states the scheduler's basic duty: unless a
  thread is in \<^const>\<open>KT_NO_STATE\<close> or \<^const>\<open>KT_EXITED\<close> it is on some queue,
  otherwise it never runs again.  \<open>thread_ok\<close> makes that precise: a thread on the
  run queue is \<^const>\<open>KT_RUN\<close>, a thread on another queue is asleep, and a thread
  on no queue is the current one, or has not started, or has exited.
\<close>

definition asleep :: "kthread \<Rightarrow> bool" where
  "asleep th \<longleftrightarrow> kt_state th = KT_SLEEP \<or> kt_state th = KT_SLEEP_CANCELLABLE"

definition thread_ok :: "nat option \<Rightarrow> nat \<Rightarrow> kthread \<Rightarrow> bool" where
  "thread_ok c t th \<longleftrightarrow>
    (case kt_wchan th of
       None \<Rightarrow> kt_state th = KT_NO_STATE \<or> kt_state th = KT_EXITED \<or> kt_state th = KT_RUN \<and> c = Some t
     | Some q \<Rightarrow> if q = Kt_runq then kt_state th = KT_RUN else asleep th)"

definition sched_ok :: "'z sched_scheme \<Rightarrow> bool" where
  "sched_ok s \<longleftrightarrow> (\<forall>t th. threads s t = Some th \<longrightarrow> thread_ok (curthr s) t th)"

definition sched_inv :: "'z sched_scheme \<Rightarrow> (ktq \<Rightarrow> nat list) \<Rightarrow> bool" where
  "sched_inv s Q \<longleftrightarrow> sched_rep s Q \<and> sched_ok s"

definition cur_running :: "'z sched_scheme \<Rightarrow> bool" where
  "cur_running s \<longleftrightarrow> (\<exists>c th. curthr s = Some c \<and> threads s c = Some th \<and>
     kt_wchan th = None \<and> kt_state th = KT_RUN)"

definition cur_parked :: "'z sched_scheme \<Rightarrow> bool" where
  "cur_parked s \<longleftrightarrow> (\<exists>c th. curthr s = Some c \<and> threads s c = Some th \<and>
     (kt_wchan th \<noteq> None \<or> kt_state th \<noteq> KT_RUN))"

lemma sched_ok_upd:
  assumes "sched_ok s" and "threads s' = (threads s)(t \<mapsto> th)" and "curthr s' = curthr s"
    and "thread_ok (curthr s) t th"
  shows "sched_ok s'"
  using assms by (auto simp: sched_ok_def)

lemma sched_inv_thread:
  assumes "sched_inv s Q" and "t \<in> set (Q q)"
  obtains th where "threads s t = Some th" and "kt_wchan th = Some q" and
    "q = Kt_runq \<Longrightarrow> kt_state th = KT_RUN" and "q \<noteq> Kt_runq \<Longrightarrow> asleep th"
proof -
  from assms have "wchan_of s t = Some q" by (simp add: sched_inv_def sched_rep_def)
  then obtain th where th: "threads s t = Some th" "kt_wchan th = Some q"
    by (auto simp: wchan_of_def bind_eq_Some_conv)
  moreover have "thread_ok (curthr s) t th" using assms(1) th by (simp add: sched_inv_def sched_ok_def)
  ultimately show ?thesis using that by (auto simp: thread_ok_def split: if_splits)
qed

lemma sched_wakeup_on_inv [kinv]:
  assumes "sched_inv s Q" and "q \<noteq> Kt_runq" and "Q q = t # ts"
  shows "\<exists>s' th. sched_wakeup_on q s = Some (Some t, s') \<and>
      sched_inv s' (Q(q := ts, Kt_runq := Q Kt_runq @ [t])) \<and> same_ctx s s' \<and>
      threads s t = Some th \<and>
      threads s' = (threads s)(t \<mapsto> th\<lparr>kt_state := KT_RUN, kt_wchan := Some Kt_runq\<rparr>)"
proof -
  have "t \<in> set (Q q)" using assms(3) by simp
  then obtain th where th: "threads s t = Some th" "asleep th"
    using assms(1,2) by (auto elim: sched_inv_thread)
  have rep: "sched_rep s Q" using assms(1) by (simp add: sched_inv_def)
  from sched_wakeup_on_rep [OF rep assms(3) th(1)] th(2) obtain s' where
    s': "sched_wakeup_on q s = Some (Some t, s')" "same_ctx s s'"
      "sched_rep s' ((Q(q := ts))(Kt_runq := (Q(q := ts)) Kt_runq @ [t]))"
      "threads s' = (threads s)(t \<mapsto> th\<lparr>kt_state := KT_RUN, kt_wchan := Some Kt_runq\<rparr>)"
    by (auto simp: asleep_def)
  have "sched_ok s'"
    by (rule sched_ok_upd [OF _ s'(4)])
      (use assms(1) s'(2) in \<open>auto simp: sched_inv_def same_ctx_def thread_ok_def\<close>)
  with s' th(1) assms(2) show ?thesis by (auto simp: sched_inv_def)
qed

lemma sched_make_runnable_inv [kinv]:
  assumes "sched_inv s Q" and "threads s t = Some th" and "kt_wchan th = None"
  shows "\<exists>s'. sched_make_runnable t s = Some s' \<and>
      sched_inv s' (Q(Kt_runq := Q Kt_runq @ [t])) \<and> same_ctx s s' \<and>
      threads s' = (threads s)(t \<mapsto> th\<lparr>kt_state := KT_RUN, kt_wchan := Some Kt_runq\<rparr>)"
proof -
  have rep: "sched_rep s Q" using assms(1) by (simp add: sched_inv_def)
  from sched_make_runnable_rep [OF rep assms(2,3)] obtain s' where
    s': "sched_make_runnable t s = Some s'" "same_ctx s s'"
      "sched_rep s' (Q(Kt_runq := Q Kt_runq @ [t]))"
      "threads s' = (threads s)(t \<mapsto> th\<lparr>kt_state := KT_RUN, kt_wchan := Some Kt_runq\<rparr>)"
    by blast
  have "sched_ok s'"
    by (rule sched_ok_upd [OF _ s'(4)])
      (use assms(1) s'(2) in \<open>auto simp: sched_inv_def same_ctx_def thread_ok_def\<close>)
  with s' show ?thesis by (auto simp: sched_inv_def)
qed

lemma sched_broadcast_on_inv [kinv]:
  assumes "sched_inv s Q" and "q \<noteq> Kt_runq" and "length (Q q) \<le> n"
  shows "\<exists>s'. sched_broadcast_on n q s = Some s' \<and>
      sched_inv s' (Q(q := [], Kt_runq := Q Kt_runq @ Q q)) \<and> same_ctx s s'"
  using assms
proof (induction n arbitrary: s Q)
  case 0
  then have "sched_queue_empty q s" by (simp add: sched_inv_def sched_queue_empty_rep [of s Q])
  with 0 show ?case by (auto simp: fun_upd_idem)
next
  case (Suc n)
  have em: "sched_queue_empty q s \<longleftrightarrow> Q q = []"
    using Suc.prems(1) by (simp add: sched_inv_def sched_queue_empty_rep [of s Q])
  show ?case
  proof (cases "Q q")
    case Nil
    with em Suc.prems show ?thesis by (auto simp: fun_upd_idem)
  next
    case (Cons t ts)
    from sched_wakeup_on_inv [OF Suc.prems(1,2) Cons] obtain s1 where
      s1: "sched_wakeup_on q s = Some (Some t, s1)" "same_ctx s s1"
        "sched_inv s1 (Q(q := ts, Kt_runq := Q Kt_runq @ [t]))" by blast
    let ?Q1 = "Q(q := ts, Kt_runq := Q Kt_runq @ [t])"
    have Q1: "?Q1(q := [], Kt_runq := ?Q1 Kt_runq @ ?Q1 q) = Q(q := [], Kt_runq := Q Kt_runq @ t # ts)"
      using Suc.prems(2) by (auto simp: fun_eq_iff)
    have "length (?Q1 q) \<le> n" using Suc.prems(2,3) Cons by simp
    from Suc.IH [OF s1(3) Suc.prems(2) this, unfolded Q1] obtain s2 where
      s2: "sched_broadcast_on n q s1 = Some s2" "same_ctx s1 s2"
        "sched_inv s2 (Q(q := [], Kt_runq := Q Kt_runq @ t # ts))" by blast
    have "sched_broadcast_on (Suc n) q s = Some s2" using em Cons s1(1) s2(1) by simp
    moreover have "same_ctx s s2" using s1(2) s2(2) by (rule same_ctx_trans)
    ultimately show ?thesis using s2(3) unfolding Cons by blast
  qed
qed


lemma sched_cancel_sleeping [kinv]:
  assumes "sched_inv s Q" and "threads s t = Some th" and "kt_state th = KT_SLEEP_CANCELLABLE"
    and "kt_wchan th = Some q" and "q \<noteq> Kt_runq"
  shows "\<exists>s'. sched_cancel t s = Some s' \<and>
      sched_inv s' (Q(q := remove1 t (Q q), Kt_runq := Q Kt_runq @ [t])) \<and> same_ctx s s' \<and>
      threads s' = (threads s)(t \<mapsto> th\<lparr>kt_cancelled := 1, kt_state := KT_RUN, kt_wchan := Some Kt_runq\<rparr>)"
proof -
  define s1 where "s1 = s\<lparr>threads := (threads s)(t \<mapsto> th\<lparr>kt_cancelled := 1\<rparr>)\<rparr>"
  have rep: "sched_rep s Q" using assms(1) by (simp add: sched_inv_def)
  have rep1: "sched_rep s1 Q"
    using rep assms(2) by (subst sched_rep_cong [where s = s]) (auto simp: s1_def wchan_of_def fun_eq_iff)
  have "t \<in> set (Q q)" using sched_repD(3) [OF rep] assms(2,4) by (simp add: wchan_of_def)
  then obtain xs ys where Q: "Q q = xs @ t # ys" "t \<notin> set xs" by (meson split_list_first)
  then have rem: "remove1 t (Q q) = xs @ ys" by (simp add: remove1_append)
  from ktqueue_remove_rep [OF rep1 Q(1)] obtain s2 where
    s2: "ktqueue_remove q t s1 = Some s2" "sched_rep s2 (Q(q := xs @ ys))" "same_ctx s1 s2"
      "threads s2 = (threads s)(t \<mapsto> th\<lparr>kt_cancelled := 1, kt_wchan := None\<rparr>)"
    by (auto simp: s1_def same_ctx_def)
  have th2: "threads s2 t = Some (th\<lparr>kt_cancelled := 1, kt_wchan := None\<rparr>)" by (simp add: s2(4))
  from sched_make_runnable_rep [OF s2(2) th2] obtain s3 where
    s3: "sched_make_runnable t s2 = Some s3" "same_ctx s2 s3"
      "sched_rep s3 (Q(q := xs @ ys, Kt_runq := Q Kt_runq @ [t]))"
      "threads s3 = (threads s)(t \<mapsto> th\<lparr>kt_cancelled := 1, kt_state := KT_RUN, kt_wchan := Some Kt_runq\<rparr>)"
    using assms(5) by (auto simp: s2(4))
  have ctx: "same_ctx s s3" using s2(3) s3(2) by (auto simp: s1_def same_ctx_def)
  have "sched_ok s3"
    by (rule sched_ok_upd [OF _ s3(4)])
      (use assms(1) ctx in \<open>auto simp: sched_inv_def same_ctx_def thread_ok_def\<close>)
  moreover have "sched_cancel t s = Some s3"
    using assms(2-4) s2(1) s3(1) by (simp add: sched_cancel_def thread_upd_def s1_def)
  ultimately show ?thesis using s3(3,4) ctx rem by (auto simp: sched_inv_def)
qed

lemma sched_cancel_other [kinv]:
  assumes "sched_inv s Q" and "threads s t = Some th"
    and "kt_state th = KT_RUN \<or> kt_state th = KT_SLEEP"
  shows "\<exists>s'. sched_cancel t s = Some s' \<and> sched_inv s' Q \<and> same_ctx s s' \<and>
      threads s' = (threads s)(t \<mapsto> th\<lparr>kt_cancelled := 1\<rparr>)"
proof -
  define s1 where "s1 = s\<lparr>threads := (threads s)(t \<mapsto> th\<lparr>kt_cancelled := 1\<rparr>)\<rparr>"
  have "sched_rep s1 Q"
    using assms(1,2) by (subst sched_rep_cong [where s = s])
      (auto simp: s1_def wchan_of_def fun_eq_iff sched_inv_def)
  moreover have "thread_ok (curthr s) t th"
    using assms(1,2) by (auto simp: sched_inv_def sched_ok_def)
  then have "sched_ok s1"
    using assms(1) by (intro sched_ok_upd [of s s1 t "th\<lparr>kt_cancelled := 1\<rparr>"])
      (auto simp: sched_inv_def thread_ok_def s1_def asleep_def split: option.splits)
  moreover have "sched_cancel t s = Some s1"
    using assms(2,3) by (auto simp: sched_cancel_def thread_upd_def s1_def)
  ultimately show ?thesis by (auto simp: s1_def sched_inv_def same_ctx_def)
qed

text \<open>Going to sleep: the current thread changes state and joins the queue's tail.\<close>

lemma sleep_enqueue_inv [kinv]:
  assumes "sched_inv s Q" and "curthr s = Some c" and "threads s c = Some th"
    and "kt_wchan th = None" and "q \<noteq> Kt_runq" and "st = KT_SLEEP \<or> st = KT_SLEEP_CANCELLABLE"
  shows "\<exists>s1 s2. thread_upd c (kt_state_update (\<lambda>_. st)) s = Some s1 \<and>
      ktqueue_enqueue q c s1 = Some s2 \<and> sched_inv s2 (Q(q := Q q @ [c])) \<and> same_ctx s s2 \<and>
      threads s2 = (threads s)(c \<mapsto> th\<lparr>kt_state := st, kt_wchan := Some q\<rparr>)"
proof -
  define s1 where "s1 = s\<lparr>threads := (threads s)(c \<mapsto> th\<lparr>kt_state := st\<rparr>)\<rparr>"
  have s1: "thread_upd c (kt_state_update (\<lambda>_. st)) s = Some s1"
    using assms(3) by (simp add: thread_upd_def s1_def)
  have "sched_rep s1 Q"
    using assms(1,3) by (subst sched_rep_cong [where s = s])
      (auto simp: s1_def wchan_of_def fun_eq_iff sched_inv_def)
  moreover have "threads s1 c = Some (th\<lparr>kt_state := st\<rparr>)" by (simp add: s1_def)
  ultimately obtain s2 where
    s2: "ktqueue_enqueue q c s1 = Some s2" "sched_rep s2 (Q(q := Q q @ [c]))" "same_ctx s s2"
      "threads s2 = (threads s)(c \<mapsto> th\<lparr>kt_state := st, kt_wchan := Some q\<rparr>)"
    using ktqueue_enqueue_rep [of s1 Q c "th\<lparr>kt_state := st\<rparr>" q] assms(4)
    by (auto simp: s1_def same_ctx_def)
  have "sched_ok s2"
    by (rule sched_ok_upd [OF _ s2(4)])
      (use assms s2(3) in \<open>auto simp: sched_inv_def same_ctx_def thread_ok_def asleep_def\<close>)
  with s1 s2 show ?thesis by (auto simp: sched_inv_def)
qed


text \<open>
  Interrupt handlers run while a thread waits inside \<open>sched_switch\<close>.  What the
  scheduler relies on: a handler keeps the invariant, does not change the current
  thread, and does not make a parked current thread look running.  The further
  argument \<open>I\<close> is a property of the queues and of the rest of the kernel's state
  that the handlers keep as well.
\<close>

definition handler_ok ::
  "((nat \<Rightarrow> kthread option) \<Rightarrow> 'z \<Rightarrow> (ktq \<Rightarrow> nat list) \<Rightarrow> bool) \<Rightarrow> ('z sched_scheme \<Rightarrow> 'z sched_scheme option) \<Rightarrow> bool" where
  "handler_ok I irq \<longleftrightarrow> (\<forall>s Q. sched_inv s Q \<and> cur_parked s \<and> I (threads s) (sched.more s) Q \<longrightarrow>
     (\<exists>s' Q'. irq s = Some s' \<and> sched_inv s' Q' \<and> cur_parked s' \<and> I (threads s') (sched.more s') Q' \<and>
        curthr s' = curthr s))"

definition irq_wakeup :: "ktq \<Rightarrow> 'z sched_scheme \<Rightarrow> 'z sched_scheme option" where
  "irq_wakeup q s = map_option snd (sched_wakeup_on q s)"

lemma sched_inv_ipl [simp]:
  "sched_inv (s\<lparr>ipl := i\<rparr>) Q = sched_inv s Q"
  "sched_inv (s\<lparr>saved_ipl := f\<rparr>) Q = sched_inv s Q"
  by (simp_all add: sched_inv_def sched_rep_def sched_ok_def wchan_of_def)

lemma cur_parked_ipl [simp]:
  "cur_parked (s\<lparr>ipl := i\<rparr>) = cur_parked s"
  "cur_parked (s\<lparr>saved_ipl := f\<rparr>) = cur_parked s"
  by (simp_all add: cur_parked_def)

lemma irq_wakeup_ok:
  assumes "q \<noteq> Kt_runq"
    and "\<And>T m Q t ts th. I T m Q \<Longrightarrow> Q q = t # ts \<Longrightarrow> T t = Some th \<Longrightarrow> kt_wchan th = Some q \<Longrightarrow>
      I (T(t \<mapsto> th\<lparr>kt_state := KT_RUN, kt_wchan := Some Kt_runq\<rparr>)) m
        (Q(q := ts, Kt_runq := Q Kt_runq @ [t]))"
  shows "handler_ok I (irq_wakeup q)"
  unfolding handler_ok_def
proof (intro allI impI, elim conjE)
  fix s Q
  assume inv: "sched_inv s Q" and par: "cur_parked s" and I: "I (threads s) (sched.more s) Q"
  show "\<exists>s' Q'. irq_wakeup q s = Some s' \<and> sched_inv s' Q' \<and> cur_parked s' \<and>
      I (threads s') (sched.more s') Q' \<and> curthr s' = curthr s"
  proof (cases "Q q")
    case Nil
    then have "sched_wakeup_on q s = Some (None, s)"
      using inv by (simp add: sched_inv_def sched_wakeup_on_empty [of s Q])
    with inv par I show ?thesis by (auto simp: irq_wakeup_def)
  next
    case (Cons t ts)
    from sched_wakeup_on_inv [OF inv assms(1) Cons] obtain s' th where th: "threads s t = Some th" and
      s': "sched_wakeup_on q s = Some (Some t, s')" "same_ctx s s'"
        "sched_inv s' (Q(q := ts, Kt_runq := Q Kt_runq @ [t]))"
        "threads s' = (threads s)(t \<mapsto> th\<lparr>kt_state := KT_RUN, kt_wchan := Some Kt_runq\<rparr>)"
      by blast
    have "wchan_of s t = Some q"
      using inv Cons sched_repD(3) [of s Q t q] by (simp add: sched_inv_def)
    then have wc: "kt_wchan th = Some q" using th by (simp add: wchan_of_def)
    have "cur_parked s'" using par s'(2,4) by (auto simp: cur_parked_def same_ctx_def)
    with s' assms(2) [OF I Cons th wc] show ?thesis
      by (auto simp: irq_wakeup_def same_ctx_def)
  qed
qed

lemma sched_intr_wait_inv:
  assumes "sched_inv s Q" and "cur_parked s" and "I (threads s) (sched.more s) Q"
    and "\<forall>irq \<in> set irqs. handler_ok I irq"
  shows "\<exists>s' Q'. sched_inv s' Q' \<and> cur_parked s' \<and> I (threads s') (sched.more s') Q' \<and> curthr s' = curthr s \<and>
      (sched_intr_wait irqs s = Some (Waiting s') \<and> Q' Kt_runq = [] \<or>
       sched_intr_wait irqs s = Some (Switched s') \<and> Q' Kt_runq \<noteq> [])"
  using assms
proof (induction irqs arbitrary: s Q)
  case Nil
  have em: "sched_queue_empty Kt_runq s \<longleftrightarrow> Q Kt_runq = []"
    using Nil.prems(1) by (simp add: sched_inv_def sched_queue_empty_rep [of s Q])
  show ?case
    by (rule exI [of _ "if Q Kt_runq = [] then s\<lparr>ipl := IPL_LOW\<rparr> else s"], rule exI [of _ Q])
      (use Nil.prems em in auto)
next
  case (Cons irq irqs)
  have em: "sched_queue_empty Kt_runq s \<longleftrightarrow> Q Kt_runq = []"
    using Cons.prems(1) by (simp add: sched_inv_def sched_queue_empty_rep [of s Q])
  show ?case
  proof (cases "Q Kt_runq = []")
    case True
    have "handler_ok I irq" using Cons.prems(4) by simp
    then have "\<exists>s1 Q1. irq (s\<lparr>ipl := IPL_LOW\<rparr>) = Some s1 \<and> sched_inv s1 Q1 \<and> cur_parked s1 \<and>
        I (threads s1) (sched.more s1) Q1 \<and> curthr s1 = curthr (s\<lparr>ipl := IPL_LOW\<rparr>)"
      unfolding handler_ok_def by (rule allE [of _ "s\<lparr>ipl := IPL_LOW\<rparr>"]) (use Cons.prems in auto)
    then obtain s1 Q1 where
      s1: "irq (s\<lparr>ipl := IPL_LOW\<rparr>) = Some s1" "sched_inv s1 Q1" "cur_parked s1"
        "I (threads s1) (sched.more s1) Q1" "curthr s1 = curthr s" by auto
    from Cons.IH [of "s1\<lparr>ipl := IPL_HIGH\<rparr>" Q1] s1 Cons.prems(4) obtain s' Q' where
      "sched_inv s' Q' \<and> cur_parked s' \<and> I (threads s') (sched.more s') Q' \<and> curthr s' = curthr s \<and>
      (sched_intr_wait irqs (s1\<lparr>ipl := IPL_HIGH\<rparr>) = Some (Waiting s') \<and> Q' Kt_runq = [] \<or>
       sched_intr_wait irqs (s1\<lparr>ipl := IPL_HIGH\<rparr>) = Some (Switched s') \<and> Q' Kt_runq \<noteq> [])"
      by auto
    with True em s1(1) show ?thesis by auto
  next
    case False
    with em Cons.prems show ?thesis by auto
  qed
qed


text \<open>
  Switching away from a parked thread: either the machine is left waiting for an
  interrupt, or the processor goes to a runnable thread and the invariant holds.
\<close>

lemma sched_switch_inv:
  assumes "sched_inv s Q" and "cur_parked s" and "I (threads s) (sched.more s) Q"
    and "\<forall>irq \<in> set irqs. handler_ok I irq"
    and drop: "\<And>T m Q t ts th. I T m Q \<Longrightarrow> Q Kt_runq = t # ts \<Longrightarrow> T t = Some th \<Longrightarrow>
      kt_wchan th = Some Kt_runq \<Longrightarrow> I (T(t \<mapsto> th\<lparr>kt_wchan := None\<rparr>)) m (Q(Kt_runq := ts))"
  shows "\<exists>s' Q'. sched_inv s' Q' \<and> I (threads s') (sched.more s') Q' \<and>
      (sched_switch irqs s = Some (Waiting s') \<and> cur_parked s' \<and> Q' Kt_runq = [] \<or>
       sched_switch irqs s = Some (Switched s') \<and> cur_running s')"
proof -
  from assms(2) obtain c where c: "curthr s = Some c" by (auto simp: cur_parked_def)
  define s1 where "s1 = s\<lparr>saved_ipl := (saved_ipl s)(c := ipl s), ipl := IPL_HIGH\<rparr>"
  have "sched_inv s1 Q" "cur_parked s1" "I (threads s1) (sched.more s1) Q"
    using assms(1-3) by (simp_all add: s1_def)
  from sched_intr_wait_inv [OF this assms(4)] obtain s2 Q2 where
    s2: "sched_inv s2 Q2" "cur_parked s2" "I (threads s2) (sched.more s2) Q2" "curthr s2 = Some c" and
    w: "sched_intr_wait irqs s1 = Some (Waiting s2) \<and> Q2 Kt_runq = [] \<or>
       sched_intr_wait irqs s1 = Some (Switched s2) \<and> Q2 Kt_runq \<noteq> []"
    using c by (auto simp: s1_def)
  show ?thesis
  proof (cases "Q2 Kt_runq")
    case Nil
    with w have "sched_switch irqs s = Some (Waiting s2)"
      by (simp add: sched_switch_def c s1_def [symmetric])
    with s2 Nil show ?thesis by blast
  next
    case (Cons t ts)
    have rep2: "sched_rep s2 Q2" using s2(1) by (simp add: sched_inv_def)
    from ktqueue_dequeue_rep [OF rep2 Cons] obtain s3 th where
      s3: "ktqueue_dequeue Kt_runq s2 = Some (Some t, s3)" "sched_rep s3 (Q2(Kt_runq := ts))"
        "threads s3 = (threads s2)(t \<mapsto> th\<lparr>kt_wchan := None\<rparr>)" "same_ctx s2 s3"
        "threads s2 t = Some th" "kt_wchan th = Some Kt_runq"
      by (auto simp: same_ctx_def)
    have st: "kt_state th = KT_RUN"
      using s2(1) s3(5) Cons by (auto elim!: sched_inv_thread [of s2 Q2 t Kt_runq])
    define s4 where "s4 = s3\<lparr>curthr := Some t, curproc := Some (kt_proc th), ipl := saved_ipl s3 t\<rparr>"
    have sw: "sched_switch irqs s = Some (Switched s4)"
      using w Cons s3(1,3) by (simp add: sched_switch_def c s1_def [symmetric] s4_def)
    have rep4: "sched_rep s4 (Q2(Kt_runq := ts))"
      using s3(2) by (subst sched_rep_cong [where s = s3]) (auto simp: s4_def wchan_of_def fun_eq_iff)
    have "sched_ok s4"
      unfolding sched_ok_def
    proof (intro allI impI)
      fix x thx assume x: "threads s4 x = Some thx"
      show "thread_ok (curthr s4) x thx"
      proof (cases "x = t")
        case True
        with x st show ?thesis by (auto simp: s4_def s3(3) thread_ok_def)
      next
        case False
        with x have x2: "threads s2 x = Some thx" by (simp add: s4_def s3(3))
        then have "thread_ok (Some c) x thx"
          using s2(1,4) by (auto simp: sched_inv_def sched_ok_def)
        moreover have "\<not> (kt_wchan thx = None \<and> kt_state thx = KT_RUN \<and> c = x)"
          using s2(2,4) x2 by (auto simp: cur_parked_def)
        ultimately show ?thesis by (auto simp: thread_ok_def split: option.splits)
      qed
    qed
    moreover have "cur_running s4" using st by (auto simp: cur_running_def s4_def s3(3))
    moreover have "I (threads s4) (sched.more s4) (Q2(Kt_runq := ts))"
      using drop [OF s2(3) Cons s3(5,6)] s3(3,4) by (simp add: s4_def same_ctx_def)
    ultimately show ?thesis using sw rep4 by (auto simp: sched_inv_def)
  qed
qed

end
