(* ===== verification/Kmutex.thy ===== *)
theory Kmutex
  imports Sched
begin

text \<open>
  Mutexes (proc/kmutex.c) and the threads that use them.  A mutex is its
  holder and its wait queue; unlocking hands the mutex over to the thread that
  has waited longest.  The second half is the kernel's non-preemptive execution as
  a step relation over whole scheduler operations, with the invariant that gives
  mutual exclusion.
\<close>

section \<open>The mutex operations\<close>

record kmutexes = sched +
  km_holder :: "nat \<Rightarrow> nat option"

type_synonym irq_list = "(kmutexes \<Rightarrow> kmutexes option) list"

text \<open>
  A lock operation either returns at once with the mutex held, or puts the
  caller to sleep and switches; in the second case it returns when the caller is
  scheduled again.
\<close>

datatype lock_result = Lock_ret kmutexes | Lock_slept "kmutexes switched"

definition kmutex_init :: "nat \<Rightarrow> kmutexes \<Rightarrow> kmutexes" where
  "kmutex_init mtx s = (sched_queue_init (Km_waitq mtx) s)\<lparr>km_holder := (km_holder s)(mtx := None)\<rparr>"

definition kmutex_lock :: "irq_list \<Rightarrow> nat \<Rightarrow> kmutexes \<Rightarrow> lock_result option" where
  "kmutex_lock irqs mtx s = do {
     cur \<leftarrow> curthr s;
     kassert (km_holder s mtx \<noteq> Some cur);
     (if km_holder s mtx \<noteq> None
      then map_option Lock_slept (sched_sleep_on irqs (Km_waitq mtx) s)
      else Some (Lock_ret (s\<lparr>km_holder := (km_holder s)(mtx := Some cur)\<rparr>)))
   }"

definition kmutex_lock_cancellable :: "irq_list \<Rightarrow> nat \<Rightarrow> kmutexes \<Rightarrow> lock_result option" where
  "kmutex_lock_cancellable irqs mtx s = do {
     cur \<leftarrow> curthr s;
     kassert (km_holder s mtx \<noteq> Some cur);
     (if km_holder s mtx \<noteq> None
      then map_option Lock_slept (sched_cancellable_sleep_on irqs (Km_waitq mtx) s)
      else Some (Lock_ret (s\<lparr>km_holder := (km_holder s)(mtx := Some cur)\<rparr>)))
   }"

definition kmutex_unlock :: "nat \<Rightarrow> kmutexes \<Rightarrow> kmutexes option" where
  "kmutex_unlock mtx s = do {
     cur \<leftarrow> curthr s;
     kassert (km_holder s mtx = Some cur);
     let s1 = s\<lparr>km_holder := (km_holder s)(mtx := None)\<rparr>;
     (if tq_size s1 (Km_waitq mtx) \<noteq> 0 then do {
        (thr, s2) \<leftarrow> sched_wakeup_on (Km_waitq mtx) s1;
        Some (s2\<lparr>km_holder := (km_holder s2)(mtx := thr)\<rparr>)
      } else Some s1)
   }"

section \<open>Executions\<close>

text \<open>
  A configuration is the kernel's state and what the threads are doing: \<open>pc t\<close> is
  \<open>Some (m, c)\<close> while thread \<open>t\<close> is inside a sleeping lock call on mutex \<open>m\<close>
  (cancellable if \<open>c\<close>), and \<open>owns\<close> holds \<open>(t, m)\<close> from the moment a lock call on
  \<open>m\<close> returned success to \<open>t\<close> until \<open>t\<close> unlocks \<open>m\<close>.
\<close>

record config =
  st :: kmutexes
  pc :: "nat \<Rightarrow> (nat \<times> bool) option"
  owns :: "(nat \<times> nat) set"

text \<open>
  When a thread is scheduled again inside a lock call, that call returns: a plain
  lock with success, a cancellable one with what the cancellable sleep returned.
\<close>

definition returned :: "kmutexes \<Rightarrow> (nat \<Rightarrow> (nat \<times> bool) option) \<Rightarrow> (nat \<times> nat) set \<Rightarrow> config" where
  "returned s p own =
    (case curthr s of
       None \<Rightarrow> \<lparr>st = s, pc = p, owns = own\<rparr>
     | Some t \<Rightarrow>
        (case p t of
           None \<Rightarrow> \<lparr>st = s, pc = p, owns = own\<rparr>
         | Some (m, c) \<Rightarrow>
            \<lparr>st = s, pc = p(t := None),
             owns = (if c \<and> sched_cancellable_result s \<noteq> Some 0 then own else insert (t, m) own)\<rparr>))"

text \<open>The queues code outside proc/ sleeps and wakes on: not the run queue, not a mutex's.\<close>

definition public_queue :: "ktq \<Rightarrow> bool" where
  "public_queue q \<longleftrightarrow> (case q of Kt_runq \<Rightarrow> False | Km_waitq m \<Rightarrow> False | _ \<Rightarrow> True)"

definition irqs_of :: "ktq list \<Rightarrow> irq_list" where
  "irqs_of qs = map irq_wakeup qs"

inductive kstep :: "config \<Rightarrow> config \<Rightarrow> bool" where
  lock_now: "kmutex_lock (irqs_of qs) m (st c) = Some (Lock_ret s') \<Longrightarrow> curthr (st c) = Some t \<Longrightarrow>
    kstep c (c\<lparr>st := s', owns := insert (t, m) (owns c)\<rparr>)"
| lock_sleep: "kmutex_lock (irqs_of qs) m (st c) = Some (Lock_slept (Switched s')) \<Longrightarrow>
    curthr (st c) = Some t \<Longrightarrow> list_all public_queue qs \<Longrightarrow>
    kstep c (returned s' ((pc c)(t \<mapsto> (m, False))) (owns c))"
| lockc_now: "kmutex_lock_cancellable (irqs_of qs) m (st c) = Some (Lock_ret s') \<Longrightarrow>
    curthr (st c) = Some t \<Longrightarrow>
    kstep c (c\<lparr>st := s', owns := insert (t, m) (owns c)\<rparr>)"
| lockc_sleep: "kmutex_lock_cancellable (irqs_of qs) m (st c) = Some (Lock_slept (Switched s')) \<Longrightarrow>
    curthr (st c) = Some t \<Longrightarrow> list_all public_queue qs \<Longrightarrow>
    kstep c (returned s' ((pc c)(t \<mapsto> (m, True))) (owns c))"
| unlock: "kmutex_unlock m (st c) = Some s' \<Longrightarrow> curthr (st c) = Some t \<Longrightarrow>
    kstep c (c\<lparr>st := s', owns := owns c - {(t, m)}\<rparr>)"
| yield: "curthr (st c) = Some t \<Longrightarrow> sched_make_runnable t (st c) = Some s1 \<Longrightarrow>
    sched_switch (irqs_of qs) s1 = Some (Switched s') \<Longrightarrow> list_all public_queue qs \<Longrightarrow>
    kstep c (returned s' (pc c) (owns c))"
| start: "sched_make_runnable t (st c) = Some s' \<Longrightarrow> threads (st c) t = Some th \<Longrightarrow>
    kt_state th = KT_NO_STATE \<Longrightarrow> kstep c (c\<lparr>st := s'\<rparr>)"
| sleep: "sched_sleep_on (irqs_of qs) q (st c) = Some (Switched s') \<Longrightarrow> public_queue q \<Longrightarrow>
    list_all public_queue qs \<Longrightarrow> kstep c (returned s' (pc c) (owns c))"
| sleepc: "sched_cancellable_sleep_on (irqs_of qs) q (st c) = Some (Switched s') \<Longrightarrow> public_queue q \<Longrightarrow>
    list_all public_queue qs \<Longrightarrow> kstep c (returned s' (pc c) (owns c))"
| wakeup: "sched_wakeup_on q (st c) = Some (r, s') \<Longrightarrow> public_queue q \<Longrightarrow> kstep c (c\<lparr>st := s'\<rparr>)"
| broadcast: "sched_broadcast_on n q (st c) = Some s' \<Longrightarrow> public_queue q \<Longrightarrow> kstep c (c\<lparr>st := s'\<rparr>)"
| cancel: "sched_cancel t (st c) = Some s' \<Longrightarrow> curthr (st c) \<noteq> Some t \<Longrightarrow> kstep c (c\<lparr>st := s'\<rparr>)"


section \<open>The mutex invariant\<close>

text \<open>
  \<open>mutex_inv p T m Q\<close>: with threads \<open>T\<close>, mutex holders \<open>m\<close> and queues \<open>Q\<close>, a free
  mutex has no waiters, a holder does not wait for its own mutex, and a thread inside a
  lock call still waits, or has been given the mutex, or (in a cancellable call) has
  been cancelled.
\<close>

definition holder_in :: "unit kmutexes_ext \<Rightarrow> nat \<Rightarrow> nat option" where
  "holder_in m = km_holder (sched.extend \<lparr>links = (\<lambda>_. \<lparr>l_next = None, l_prev = None\<rparr>),
     tq_size = (\<lambda>_. 0), threads = (\<lambda>_. None), curthr = None, curproc = None, ipl = 0,
     saved_ipl = (\<lambda>_. 0)\<rparr> m)"

definition call_ok ::
  "(nat \<Rightarrow> kthread option) \<Rightarrow> unit kmutexes_ext \<Rightarrow> (ktq \<Rightarrow> nat list) \<Rightarrow> nat \<Rightarrow> nat \<times> bool \<Rightarrow> bool" where
  "call_ok T m Q t kc \<longleftrightarrow> (\<exists>th. T t = Some th \<and>
     (t \<in> set (Q (Km_waitq (fst kc))) \<and>
        kt_state th = (if snd kc then KT_SLEEP_CANCELLABLE else KT_SLEEP) \<or>
      holder_in m (fst kc) = Some t \<or> snd kc \<and> kt_cancelled th = 1))"

definition mutex_inv ::
  "(nat \<Rightarrow> (nat \<times> bool) option) \<Rightarrow> (nat \<Rightarrow> kthread option) \<Rightarrow> unit kmutexes_ext \<Rightarrow> (ktq \<Rightarrow> nat list) \<Rightarrow> bool" where
  "mutex_inv p T m Q \<longleftrightarrow>
     (\<forall>k. holder_in m k = None \<longrightarrow> Q (Km_waitq k) = []) \<and>
     (\<forall>k t. holder_in m k = Some t \<longrightarrow> t \<notin> set (Q (Km_waitq k))) \<and>
     (\<forall>k t. t \<in> set (Q (Km_waitq k)) \<longrightarrow>
        (\<exists>th c. T t = Some th \<and> kt_wchan th = Some (Km_waitq k) \<and> p t = Some (k, c))) \<and>
     (\<forall>t kc. p t = Some kc \<longrightarrow> call_ok T m Q t kc)"

lemma holder_in_more [simp]: "holder_in (sched.more s) = km_holder s"
  by (cases s) (simp add: holder_in_def sched.defs)

lemma mutex_invD:
  assumes "mutex_inv p T m Q"
  shows "holder_in m k = None \<Longrightarrow> Q (Km_waitq k) = []"
    and "holder_in m k = Some t \<Longrightarrow> t \<notin> set (Q (Km_waitq k))"
    and "t \<in> set (Q (Km_waitq k)) \<Longrightarrow>
        \<exists>th c. T t = Some th \<and> kt_wchan th = Some (Km_waitq k) \<and> p t = Some (k, c)"
    and "p t = Some kc \<Longrightarrow> call_ok T m Q t kc"
  using assms unfolding mutex_inv_def by blast+

lemma mutex_inv_notin:
  assumes "mutex_inv p T m Q" and "T t = Some th" and "kt_wchan th \<noteq> Some (Km_waitq k)"
  shows "t \<notin> set (Q (Km_waitq k))"
  using mutex_invD(3) [OF assms(1), of t k] assms(2,3) by auto

text \<open>A change to one thread that waits for no mutex keeps the mutex invariant.\<close>

lemma mutex_inv_thread:
  assumes inv: "mutex_inv p T m Q" and Q: "\<And>k. Q' (Km_waitq k) = Q (Km_waitq k)"
    and t: "T t = Some th" "\<And>k. kt_wchan th \<noteq> Some (Km_waitq k)"
    and th': "kt_cancelled th' = kt_cancelled th \<or> kt_cancelled th' = 1"
  shows "mutex_inv p (T(t \<mapsto> th')) m Q'"
proof -
  have nt: "t \<notin> set (Q (Km_waitq k))" for k
    using mutex_inv_notin [OF inv t(1)] t(2) by blast
  have "call_ok (T(t \<mapsto> th')) m Q' x kc" if "call_ok T m Q x kc" for x kc
    using that nt [of "fst kc"] t(1) th' by (cases "x = t") (auto simp: call_ok_def Q)
  moreover have "\<exists>th c. (T(t \<mapsto> th')) x = Some th \<and> kt_wchan th = Some (Km_waitq k) \<and> p x = Some (k, c)"
    if "x \<in> set (Q (Km_waitq k))" for x k
    using that nt [of k] inv by (cases "x = t") (auto simp: mutex_inv_def)
  ultimately show ?thesis
    using inv unfolding mutex_inv_def Q by meson
qed

lemma mutex_inv_forget:
  assumes inv: "mutex_inv p T m Q" and nt: "\<And>k. t \<notin> set (Q (Km_waitq k))"
  shows "mutex_inv (p(t := None)) T m Q"
proof -
  have "\<exists>th c. T x = Some th \<and> kt_wchan th = Some (Km_waitq k) \<and> (p(t := None)) x = Some (k, c)"
    if "x \<in> set (Q (Km_waitq k))" for x k
    using that nt [of k] inv by (cases "x = t") (auto simp: mutex_inv_def)
  moreover have "call_ok T m Q x kc" if "(p(t := None)) x = Some kc" for x kc
    using that mutex_invD(4) [OF inv] by (auto split: if_splits)
  ultimately show ?thesis
    using inv unfolding mutex_inv_def by meson
qed

lemma mutex_inv_irq:
  assumes "public_queue q"
  shows "handler_ok (\<lambda>T m Q. m = m0 \<and> mutex_inv p T m Q) (irq_wakeup q)"
proof (rule irq_wakeup_ok)
  show "q \<noteq> Kt_runq" using assms by (auto simp: public_queue_def)
  have nq: "q \<noteq> Km_waitq k" "Km_waitq k \<noteq> q" for k using assms by (auto simp: public_queue_def)
  fix T :: "nat \<Rightarrow> kthread option" and m Q t ts th
  assume I: "m = m0 \<and> mutex_inv p T m Q" and th: "T t = Some th" "kt_wchan th = Some q"
  have "mutex_inv p (T(t \<mapsto> th\<lparr>kt_state := KT_RUN, kt_wchan := Some Kt_runq\<rparr>)) m
        (Q(q := ts, Kt_runq := Q Kt_runq @ [t]))"
    by (rule mutex_inv_thread [where Q = Q and T = T and th = th]) (use I th nq in auto)
  with I show "m = m0 \<and> mutex_inv p (T(t \<mapsto> th\<lparr>kt_state := KT_RUN, kt_wchan := Some Kt_runq\<rparr>)) m
        (Q(q := ts, Kt_runq := Q Kt_runq @ [t]))" by simp
qed

text \<open>
  The invariant of a configuration with its queues: the scheduler's and the mutexes'
  invariants, the current thread is running and inside no lock call, and a thread that
  owns a mutex holds it.
\<close>

definition config_inv :: "config \<Rightarrow> (ktq \<Rightarrow> nat list) \<Rightarrow> bool" where
  "config_inv c Q \<longleftrightarrow> sched_inv (st c) Q \<and> cur_running (st c) \<and>
     mutex_inv (pc c) (threads (st c)) (sched.more (st c)) Q \<and>
     (\<forall>t. curthr (st c) = Some t \<longrightarrow> pc c t = None) \<and>
     (\<forall>t m. (t, m) \<in> owns c \<longrightarrow> km_holder (st c) m = Some t)"

lemma mutex_inv_switch:
  assumes "sched_inv s Q" and "cur_parked s" and "mutex_inv p (threads s) (sched.more s) Q"
    and "list_all public_queue qs"
  shows "\<exists>s' Q'. sched_inv s' Q' \<and> mutex_inv p (threads s') (sched.more s') Q' \<and>
      km_holder s' = km_holder s \<and>
      (sched_switch (irqs_of qs) s = Some (Waiting s') \<and> cur_parked s' \<and> Q' Kt_runq = [] \<or>
       sched_switch (irqs_of qs) s = Some (Switched s') \<and> cur_running s')"
proof -
  let ?I = "\<lambda>T m Q. m = sched.more s \<and> mutex_inv p T m Q"
  have "\<exists>s' Q'. sched_inv s' Q' \<and> ?I (threads s') (sched.more s') Q' \<and>
      (sched_switch (irqs_of qs) s = Some (Waiting s') \<and> cur_parked s' \<and> Q' Kt_runq = [] \<or>
       sched_switch (irqs_of qs) s = Some (Switched s') \<and> cur_running s')"
  proof (rule sched_switch_inv [where I = ?I, OF assms(1,2)])
    show "?I (threads s) (sched.more s) Q" using assms(3) by simp
    show "\<forall>irq\<in>set (irqs_of qs). handler_ok ?I irq"
      using assms(4) by (auto simp: irqs_of_def list_all_iff intro: mutex_inv_irq)
    fix T :: "nat \<Rightarrow> kthread option" and m Q t ts th
    assume I: "?I T m Q" and th: "T t = Some th" "kt_wchan th = Some Kt_runq"
    have "mutex_inv p (T(t \<mapsto> th\<lparr>kt_wchan := None\<rparr>)) m (Q(Kt_runq := ts))"
      by (rule mutex_inv_thread [where Q = Q and T = T and th = th]) (use I th in auto)
    with I show "?I (T(t \<mapsto> th\<lparr>kt_wchan := None\<rparr>)) m (Q(Kt_runq := ts))" by simp
  qed
  then show ?thesis by (metis holder_in_more)
qed

text \<open>After a switch the thread that runs may return from a lock call.\<close>

lemma returned_inv:
  assumes "sched_inv s Q" and "cur_running s" and inv: "mutex_inv p (threads s) (sched.more s) Q"
    and own: "\<And>t m. (t, m) \<in> own \<Longrightarrow> km_holder s m = Some t"
  shows "config_inv (returned s p own) Q"
proof -
  from assms(2) obtain t th where
    t: "curthr s = Some t" "threads s t = Some th" "kt_wchan th = None" by (auto simp: cur_running_def)
  have nt: "t \<notin> set (Q (Km_waitq k))" for k
    using mutex_inv_notin [OF inv t(2)] t(3) by auto
  show ?thesis
  proof (cases "p t")
    case None
    then show ?thesis using assms t by (auto simp: returned_def config_inv_def)
  next
    case (Some kc)
    obtain k c where kc: "kc = (k, c)" by fastforce
    have "call_ok (threads s) (sched.more s) Q t (k, c)"
      using inv Some kc by (auto simp: mutex_inv_def)
    then have held: "km_holder s k = Some t" if "\<not> (c \<and> sched_cancellable_result s \<noteq> Some 0)"
      using that nt [of k] t by (auto simp: call_ok_def sched_cancellable_result_def)
    have "mutex_inv (p(t := None)) (threads s) (sched.more s) Q"
      using inv nt by (rule mutex_inv_forget)
    then show ?thesis
      using assms(1,2) t Some kc held own by (auto simp: returned_def config_inv_def)
  qed
qed

text \<open>Parking the current thread and switching, from a state satisfying the invariants.\<close>

lemma switch_returned:
  assumes "sched_switch (irqs_of qs) s = Some (Switched s')" and "list_all public_queue qs"
    and "sched_inv s Q" and "cur_parked s" and "mutex_inv p (threads s) (sched.more s) Q"
    and own: "\<And>t m. (t, m) \<in> own \<Longrightarrow> km_holder s m = Some t"
  shows "\<exists>Q'. config_inv (returned s' p own) Q'"
proof -
  from mutex_inv_switch [OF assms(3-5,2)] assms(1) obtain Q' where
    "sched_inv s' Q'" "mutex_inv p (threads s') (sched.more s') Q'" "km_holder s' = km_holder s"
    "cur_running s'" by auto
  then show ?thesis using returned_inv [of s' Q' p own] own by auto
qed


section \<open>Every step keeps the invariant\<close>

lemma sched_inv_holder [simp]: "sched_inv (s\<lparr>km_holder := f\<rparr>) Q = sched_inv s Q"
  by (simp add: sched_inv_def sched_rep_def sched_ok_def wchan_of_def)

lemma cur_running_holder [simp]: "cur_running (s\<lparr>km_holder := f\<rparr>) = cur_running s"
  by (simp add: cur_running_def)

lemma config_running:
  assumes "config_inv c Q" and "curthr (st c) = Some t"
  obtains th where "threads (st c) t = Some th" and "kt_wchan th = None" and "kt_state th = KT_RUN"
    and "pc c t = None" and "\<And>k. t \<notin> set (Q (Km_waitq k))"
proof -
  from assms obtain th where
    th: "threads (st c) t = Some th" "kt_wchan th = None" "kt_state th = KT_RUN" "pc c t = None"
    by (auto simp: config_inv_def cur_running_def)
  then show ?thesis
    using that mutex_inv_notin [of "pc c" "threads (st c)" "sched.more (st c)" Q t th] assms(1)
    by (auto simp: config_inv_def)
qed

lemma mutex_inv_acquire:
  assumes inv: "mutex_inv p (threads s) (sched.more s) Q" and free: "km_holder s k = None"
  shows "mutex_inv p (threads s) (sched.more (s\<lparr>km_holder := (km_holder s)(k := Some t)\<rparr>)) Q"
proof -
  let ?m = "sched.more (s\<lparr>km_holder := (km_holder s)(k := Some t)\<rparr>)"
  have h: "holder_in ?m = (km_holder s)(k := Some t)" by (simp only: holder_in_more) simp
  have "Q (Km_waitq k) = []" using mutex_invD(1) [OF inv, of k] free by simp
  moreover have "call_ok (threads s) ?m Q x kc" if "call_ok (threads s) (sched.more s) Q x kc" for x kc
    using that free unfolding call_ok_def h by (cases kc) auto
  ultimately show ?thesis
    using inv unfolding mutex_inv_def h by (auto split: if_splits)
qed

lemma lock_now_inv:
  assumes "config_inv c Q" and "curthr (st c) = Some t"
    and free: "km_holder (st c) m = None"
  shows "config_inv (c\<lparr>st := (st c)\<lparr>km_holder := (km_holder (st c))(m := Some t)\<rparr>,
      owns := insert (t, m) (owns c)\<rparr>) Q"
proof -
  have "mutex_inv (pc c) (threads (st c))
      (sched.more ((st c)\<lparr>km_holder := (km_holder (st c))(m := Some t)\<rparr>)) Q"
    using assms by (intro mutex_inv_acquire) (auto simp: config_inv_def)
  with assms show ?thesis by (auto simp: config_inv_def)
qed

lemma mutex_inv_wait:
  assumes inv: "mutex_inv p T m Q" and h: "holder_in m k = Some h" "h \<noteq> t"
    and p: "p t = None" and T: "T t = Some th" "\<And>k. kt_wchan th \<noteq> Some (Km_waitq k)"
    and st: "kt_state th' = (if c then KT_SLEEP_CANCELLABLE else KT_SLEEP)"
    and wc: "kt_wchan th' = Some (Km_waitq k)"
  shows "mutex_inv (p(t \<mapsto> (k, c))) (T(t \<mapsto> th')) m (Q(Km_waitq k := Q (Km_waitq k) @ [t]))"
    (is "mutex_inv ?p ?T m ?Q")
proof -
  have nt: "t \<notin> set (Q (Km_waitq j))" for j using mutex_inv_notin [OF inv T(1)] T(2) by blast
  have "call_ok ?T m ?Q x kc" if "?p x = Some kc" for x kc
  proof (cases "x = t")
    case True
    with that st show ?thesis by (auto simp: call_ok_def)
  next
    case False
    with that have "call_ok T m Q x kc" using mutex_invD(4) [OF inv, of x kc] by simp
    with False show ?thesis by (auto simp: call_ok_def)
  qed
  moreover have "\<exists>th c. ?T x = Some th \<and> kt_wchan th = Some (Km_waitq j) \<and> ?p x = Some (j, c)"
    if "x \<in> set (?Q (Km_waitq j))" for x j
  proof (cases "x = t")
    case True
    with that nt [of j] wc show ?thesis by (auto split: if_splits)
  next
    case False
    with that have "x \<in> set (Q (Km_waitq j))" by (auto split: if_splits)
    with False show ?thesis using mutex_invD(3) [OF inv, of x j] by simp
  qed
  moreover have "?Q (Km_waitq j) = []" if "holder_in m j = None" for j
    using that mutex_invD(1) [OF inv, of j] h by auto
  moreover have "x \<notin> set (?Q (Km_waitq j))" if "holder_in m j = Some x" for x j
    using that mutex_invD(2) [OF inv, of j x] h by auto
  ultimately show ?thesis unfolding mutex_inv_def by blast
qed

lemma lock_sleep_inv:
  assumes inv: "config_inv c Q" and t: "curthr (st c) = Some t"
    and held: "km_holder (st c) m \<noteq> None" "km_holder (st c) m \<noteq> Some t"
    and state: "ks = (if b then KT_SLEEP_CANCELLABLE else KT_SLEEP)"
    and s1: "thread_upd t (kt_state_update (\<lambda>_. ks)) (st c) = Some s1"
    and s2: "ktqueue_enqueue (Km_waitq m) t s1 = Some s2"
    and sw: "sched_switch (irqs_of qs) s2 = Some (Switched s')" and qs: "list_all public_queue qs"
  shows "\<exists>Q'. config_inv (returned s' ((pc c)(t \<mapsto> (m, b))) (owns c)) Q'"
proof -
  from config_running [OF inv t] obtain th where
    th: "threads (st c) t = Some th" "kt_wchan th = None" and pct: "pc c t = None" by metis
  have sinv: "sched_inv (st c) Q" using inv by (simp add: config_inv_def)
  have "ks = KT_SLEEP \<or> ks = KT_SLEEP_CANCELLABLE" using state by simp
  from sleep_enqueue_inv [OF sinv t th _ this, of "Km_waitq m"] s1 s2 have
    inv2: "sched_inv s2 (Q(Km_waitq m := Q (Km_waitq m) @ [t]))" "same_ctx (st c) s2"
    and th2: "threads s2 = (threads (st c))(t \<mapsto> th\<lparr>kt_state := ks, kt_wchan := Some (Km_waitq m)\<rparr>)"
    by auto
  from held obtain h where h: "km_holder (st c) m = Some h" "h \<noteq> t" by auto
  have more2: "sched.more s2 = sched.more (st c)" using inv2(2) by (simp add: same_ctx_def)
  have "mutex_inv ((pc c)(t \<mapsto> (m, b))) (threads s2) (sched.more s2) (Q(Km_waitq m := Q (Km_waitq m) @ [t]))"
    unfolding th2 more2 by (rule mutex_inv_wait [where h = h and th = th])
      (use inv h pct th state in \<open>auto simp: config_inv_def\<close>)
  moreover have "cur_parked s2" using inv2(2) t by (auto simp: cur_parked_def same_ctx_def th2)
  moreover have "km_holder s2 = km_holder (st c)" using more2 by (metis holder_in_more)
  ultimately show ?thesis
    using switch_returned [OF sw qs inv2(1)] inv by (auto simp: config_inv_def)
qed


lemma mutex_inv_release:
  assumes inv: "mutex_inv p T m Q" and h: "holder_in m k = Some t" and p: "p t = None"
    and Q: "Q (Km_waitq k) = []" and m': "holder_in m' = (holder_in m)(k := None)"
  shows "mutex_inv p T m' Q"
proof -
  have "call_ok T m' Q x kc" if "p x = Some kc" for x kc
    using mutex_invD(4) [OF inv that] h p that Q unfolding call_ok_def m' by (cases kc) auto
  then show ?thesis
    using inv Q unfolding mutex_inv_def m' by (auto split: if_splits)
qed

lemma mutex_inv_handover:
  assumes inv: "mutex_inv p T m Q" and h: "holder_in m k = Some t" and p: "p t = None"
    and Q: "Q (Km_waitq k) = x # xs" and dist: "x \<notin> set xs" and T: "T x = Some th"
    and m': "holder_in m' = (holder_in m)(k := Some x)"
  shows "mutex_inv p (T(x \<mapsto> th\<lparr>kt_state := KT_RUN, kt_wchan := Some Kt_runq\<rparr>)) m'
      (Q(Km_waitq k := xs, Kt_runq := Q Kt_runq @ [x]))" (is "mutex_inv p ?T m' ?Q")
proof -
  have wc: "kt_wchan th = Some (Km_waitq k)" and px: "\<exists>b. p x = Some (k, b)"
    using mutex_invD(3) [OF inv, of x k] Q T by auto
  have nx: "x \<notin> set (Q (Km_waitq j))" if "j \<noteq> k" for j
    using mutex_inv_notin [OF inv T, of j] wc that by auto
  have "call_ok ?T m' ?Q y kc" if "p y = Some kc" for y kc
  proof (cases "y = x")
    case True
    with px that have "fst kc = k" by auto
    with True show ?thesis unfolding call_ok_def m' by auto
  next
    case False
    then show ?thesis
      using mutex_invD(4) [OF inv that] Q h that p unfolding call_ok_def m' by (cases kc) auto
  qed
  moreover have "\<exists>th b. ?T y = Some th \<and> kt_wchan th = Some (Km_waitq j) \<and> p y = Some (j, b)"
    if "y \<in> set (?Q (Km_waitq j))" for y j
  proof -
    have "y \<noteq> x" "y \<in> set (Q (Km_waitq j))"
      using that dist nx [of j] Q by (auto split: if_splits)
    then show ?thesis using mutex_invD(3) [OF inv, of y j] by simp
  qed
  moreover have "?Q (Km_waitq j) = []" if "holder_in m' j = None" for j
    using that mutex_invD(1) [OF inv, of j] by (auto simp: m' split: if_splits)
  moreover have "y \<notin> set (?Q (Km_waitq j))" if "holder_in m' j = Some y" for y j
    using that mutex_invD(2) [OF inv, of j y] dist by (auto simp: m' split: if_splits)
  ultimately show ?thesis unfolding mutex_inv_def by blast
qed

text \<open>
  What unlocking does to the holder and to the queues: with nobody waiting the mutex
  becomes free; otherwise the thread that has waited longest becomes the holder and
  joins the run queue, without the mutex ever being free.
\<close>

lemma kmutex_unlock_effect:
  assumes inv: "sched_inv s Q" and t: "curthr s = Some t" and h: "km_holder s m = Some t"
  shows "\<exists>s'. kmutex_unlock m s = Some s' \<and> curthr s' = Some t \<and>
    (case Q (Km_waitq m) of
       [] \<Rightarrow> sched_inv s' Q \<and> threads s' = threads s \<and> km_holder s' = (km_holder s)(m := None)
     | x # xs \<Rightarrow> sched_inv s' (Q(Km_waitq m := xs, Kt_runq := Q Kt_runq @ [x])) \<and>
         km_holder s' = (km_holder s)(m := Some x) \<and>
         (\<exists>th. threads s x = Some th \<and>
            threads s' = (threads s)(x \<mapsto> th\<lparr>kt_state := KT_RUN, kt_wchan := Some Kt_runq\<rparr>)))"
proof -
  define s1 where "s1 = s\<lparr>km_holder := (km_holder s)(m := None)\<rparr>"
  have inv1: "sched_inv s1 Q" using inv by (simp add: s1_def)
  have size: "tq_size s1 (Km_waitq m) = int (length (Q (Km_waitq m)))"
    using inv1 sched_repD(2) [of s1 Q] by (simp add: sched_inv_def)
  show ?thesis
  proof (cases "Q (Km_waitq m)")
    case Nil
    then have "kmutex_unlock m s = Some s1" using t h size by (simp add: kmutex_unlock_def s1_def)
    with Nil inv1 t show ?thesis by (simp add: s1_def)
  next
    case (Cons x xs)
    from sched_wakeup_on_inv [OF inv1 _ Cons] obtain s2 th where
      s2: "sched_wakeup_on (Km_waitq m) s1 = Some (Some x, s2)" "same_ctx s1 s2"
        "sched_inv s2 (Q(Km_waitq m := xs, Kt_runq := Q Kt_runq @ [x]))"
      and th: "threads s1 x = Some th"
        "threads s2 = (threads s1)(x \<mapsto> th\<lparr>kt_state := KT_RUN, kt_wchan := Some Kt_runq\<rparr>)"
      by blast
    have h2: "km_holder s2 = km_holder s1"
      using s2(2) holder_in_more [of s2] holder_in_more [of s1] by (simp add: same_ctx_def)
    have "kmutex_unlock m s = Some (s2\<lparr>km_holder := (km_holder s2)(m := Some x)\<rparr>)"
      using t h size Cons s2(1) by (simp add: kmutex_unlock_def s1_def)
    with Cons s2 th h2 t show ?thesis by (auto simp: s1_def same_ctx_def)
  qed
qed

lemma unlock_inv:
  assumes inv: "config_inv c Q" and t: "curthr (st c) = Some t"
    and un: "kmutex_unlock m (st c) = Some s'"
  shows "\<exists>Q'. config_inv (c\<lparr>st := s', owns := owns c - {(t, m)}\<rparr>) Q'"
proof -
  let ?s = "st c"
  from un t have h: "km_holder ?s m = Some t" by (simp add: kmutex_unlock_def)
  from config_running [OF inv t] have pct: "pc c t = None" by metis
  have sinv: "sched_inv ?s Q" and minv: "mutex_inv (pc c) (threads ?s) (sched.more ?s) Q"
    using inv by (auto simp: config_inv_def)
  note eff = kmutex_unlock_effect [OF sinv t h] and hs = holder_in_more [of s'] holder_in_more [of ?s]
  show ?thesis
  proof (cases "Q (Km_waitq m)")
    case Nil
    with eff un have s': "sched_inv s' Q" "curthr s' = Some t" "threads s' = threads ?s"
        "km_holder s' = (km_holder ?s)(m := None)" by auto
    moreover have "mutex_inv (pc c) (threads ?s) (sched.more s') Q"
      by (rule mutex_inv_release [OF minv _ pct Nil]) (use h hs s' in auto)
    ultimately show ?thesis
      using inv t h by (intro exI [of _ Q]) (auto simp: config_inv_def cur_running_def)
  next
    case (Cons x xs)
    let ?Q = "Q(Km_waitq m := xs, Kt_runq := Q Kt_runq @ [x])"
    from eff un Cons obtain th where s': "sched_inv s' ?Q" "curthr s' = Some t"
        "km_holder s' = (km_holder ?s)(m := Some x)" "threads ?s x = Some th"
      and T: "threads s' = (threads ?s)(x \<mapsto> th\<lparr>kt_state := KT_RUN, kt_wchan := Some Kt_runq\<rparr>)" by auto
    have "x \<notin> set xs"
      using sinv Cons sched_rep_distinct [of ?s Q "Km_waitq m"] by (simp add: sched_inv_def)
    then have "mutex_inv (pc c) (threads s') (sched.more s') ?Q"
      unfolding T by (intro mutex_inv_handover [OF minv _ pct Cons]) (use h hs s' in auto)
    moreover have "x \<noteq> t" using mutex_invD(2) [OF minv, of m t] h Cons by auto
    ultimately show ?thesis
      using inv t s' h by (intro exI [of _ ?Q]) (auto simp: config_inv_def cur_running_def T)
  qed
qed


lemma config_same_ctx:
  assumes "config_inv c Q" and "same_ctx (st c) s'" and "sched_inv s' Q'"
    and "mutex_inv (pc c) (threads s') (sched.more s') Q'"
    and "\<And>t. curthr (st c) = Some t \<Longrightarrow> threads s' t = threads (st c) t \<or>
      (\<exists>th. threads s' t = Some th \<and> kt_wchan th = None \<and> kt_state th = KT_RUN)"
  shows "config_inv (c\<lparr>st := s'\<rparr>) Q'"
proof -
  have "km_holder s' = km_holder (st c)"
    using assms(2) holder_in_more [of s'] holder_in_more [of "st c"] by (simp add: same_ctx_def)
  moreover have "cur_running s'"
    using assms(1,2,5) by (auto simp: config_inv_def cur_running_def same_ctx_def)
  ultimately show ?thesis using assms by (auto simp: config_inv_def same_ctx_def)
qed

lemma yield_inv:
  assumes inv: "config_inv c Q" and t: "curthr (st c) = Some t"
    and run: "sched_make_runnable t (st c) = Some s1"
    and sw: "sched_switch (irqs_of qs) s1 = Some (Switched s')" and qs: "list_all public_queue qs"
  shows "\<exists>Q'. config_inv (returned s' (pc c) (owns c)) Q'"
proof -
  from config_running [OF inv t] obtain th where
    th: "threads (st c) t = Some th" "kt_wchan th = None" by metis
  have sinv: "sched_inv (st c) Q" and minv: "mutex_inv (pc c) (threads (st c)) (sched.more (st c)) Q"
    using inv by (auto simp: config_inv_def)
  let ?th = "th\<lparr>kt_state := KT_RUN, kt_wchan := Some Kt_runq\<rparr>"
  from sched_make_runnable_inv [OF sinv th] run have
    s1: "sched_inv s1 (Q(Kt_runq := Q Kt_runq @ [t]))" "same_ctx (st c) s1"
      "threads s1 = (threads (st c))(t \<mapsto> ?th)" by auto
  have "mutex_inv (pc c) ((threads (st c))(t \<mapsto> ?th)) (sched.more (st c)) (Q(Kt_runq := Q Kt_runq @ [t]))"
    by (rule mutex_inv_thread [OF minv _ th(1)]) (use th in auto)
  moreover have "cur_parked s1" using s1 t by (auto simp: cur_parked_def same_ctx_def)
  moreover have "km_holder s1 = km_holder (st c)"
    using s1(2) holder_in_more [of s1] holder_in_more [of "st c"] by (simp add: same_ctx_def)
  ultimately show ?thesis
    using switch_returned [OF sw qs s1(1)] s1(2,3) inv by (auto simp: config_inv_def same_ctx_def)
qed

lemma sleep_inv:
  assumes inv: "config_inv c Q" and t: "curthr (st c) = Some t" and q: "public_queue q"
    and ks: "ks = KT_SLEEP \<or> ks = KT_SLEEP_CANCELLABLE"
    and s1: "thread_upd t (kt_state_update (\<lambda>_. ks)) (st c) = Some s1"
    and s2: "ktqueue_enqueue q t s1 = Some s2"
    and sw: "sched_switch (irqs_of qs) s2 = Some (Switched s')" and qs: "list_all public_queue qs"
  shows "\<exists>Q'. config_inv (returned s' (pc c) (owns c)) Q'"
proof -
  from config_running [OF inv t] obtain th where
    th: "threads (st c) t = Some th" "kt_wchan th = None" by metis
  have sinv: "sched_inv (st c) Q" and minv: "mutex_inv (pc c) (threads (st c)) (sched.more (st c)) Q"
    using inv by (auto simp: config_inv_def)
  have nq: "q \<noteq> Kt_runq" "\<And>k. Km_waitq k \<noteq> q" using q by (auto simp: public_queue_def)
  let ?th = "th\<lparr>kt_state := ks, kt_wchan := Some q\<rparr>"
  from sleep_enqueue_inv [OF sinv t th nq(1) ks] s1 s2 have
    s2': "sched_inv s2 (Q(q := Q q @ [t]))" "same_ctx (st c) s2"
      "threads s2 = (threads (st c))(t \<mapsto> ?th)" by auto
  have "mutex_inv (pc c) ((threads (st c))(t \<mapsto> ?th)) (sched.more (st c)) (Q(q := Q q @ [t]))"
    by (rule mutex_inv_thread [OF minv _ th(1)]) (use th nq in auto)
  moreover have "cur_parked s2" using s2' t by (auto simp: cur_parked_def same_ctx_def)
  moreover have "km_holder s2 = km_holder (st c)"
    using s2'(2) holder_in_more [of s2] holder_in_more [of "st c"] by (simp add: same_ctx_def)
  ultimately show ?thesis
    using switch_returned [OF sw qs s2'(1)] s2'(2,3) inv by (auto simp: config_inv_def same_ctx_def)
qed

lemma wakeup_inv:
  assumes inv: "config_inv c Q" and q: "public_queue q" and w: "sched_wakeup_on q (st c) = Some (r, s')"
  shows "\<exists>Q'. config_inv (c\<lparr>st := s'\<rparr>) Q'"
proof -
  have sinv: "sched_inv (st c) Q" and minv: "mutex_inv (pc c) (threads (st c)) (sched.more (st c)) Q"
    using inv by (auto simp: config_inv_def)
  have nq: "q \<noteq> Kt_runq" "\<And>k. Km_waitq k \<noteq> q" using q by (auto simp: public_queue_def)
  show ?thesis
  proof (cases "Q q")
    case Nil
    with sinv w have "s' = st c" using sched_wakeup_on_empty [of "st c" Q q] by (auto simp: sched_inv_def)
    with inv show ?thesis by auto
  next
    case (Cons x xs)
    let ?Q = "Q(q := xs, Kt_runq := Q Kt_runq @ [x])"
    from sched_wakeup_on_inv [OF sinv nq(1) Cons] w obtain th where
      s': "sched_inv s' ?Q" "same_ctx (st c) s'" "threads (st c) x = Some th"
      and T: "threads s' = (threads (st c))(x \<mapsto> th\<lparr>kt_state := KT_RUN, kt_wchan := Some Kt_runq\<rparr>)"
      by auto
    have wc: "kt_wchan th = Some q"
      using sinv Cons s'(3) sched_inv_thread [of "st c" Q x q] by auto
    have minv': "mutex_inv (pc c) (threads s') (sched.more (st c)) ?Q"
      unfolding T by (rule mutex_inv_thread [OF minv _ s'(3)]) (use wc nq in auto)
    have "config_inv (c\<lparr>st := s'\<rparr>) ?Q"
    proof (rule config_same_ctx [OF inv s'(2,1)])
      show "mutex_inv (pc c) (threads s') (sched.more s') ?Q"
        using minv' s'(2) by (simp add: same_ctx_def)
      fix t assume "curthr (st c) = Some t"
      with config_running [OF inv] wc s'(3) have "x \<noteq> t" by (metis option.distinct(1) option.inject)
      then show "threads s' t = threads (st c) t \<or>
        (\<exists>th. threads s' t = Some th \<and> kt_wchan th = None \<and> kt_state th = KT_RUN)" by (simp add: T)
    qed
    then show ?thesis by blast
  qed
qed


lemma mutex_inv_cancelled:
  assumes inv: "mutex_inv p T m Q" and T: "T t = Some th"
  shows "mutex_inv p (T(t \<mapsto> th\<lparr>kt_cancelled := 1\<rparr>)) m Q"
proof -
  have "call_ok (T(t \<mapsto> th\<lparr>kt_cancelled := 1\<rparr>)) m Q x kc" if "call_ok T m Q x kc" for x kc
    using that T by (cases "x = t") (auto simp: call_ok_def)
  moreover have "\<exists>th' c. (T(t \<mapsto> th\<lparr>kt_cancelled := 1\<rparr>)) x = Some th' \<and>
      kt_wchan th' = Some (Km_waitq k) \<and> p x = Some (k, c)" if "x \<in> set (Q (Km_waitq k))" for x k
    using that mutex_invD(3) [OF inv, of x k] T by (cases "x = t") auto
  ultimately show ?thesis using inv unfolding mutex_inv_def by meson
qed

lemma mutex_inv_dequeued:
  assumes inv: "mutex_inv p T m Q" and T: "T t = Some th" and wc: "kt_wchan th = Some q"
    and q: "q \<noteq> Kt_runq" and st: "kt_state th = KT_SLEEP_CANCELLABLE" and dist: "distinct (Q q)"
  shows "mutex_inv p (T(t \<mapsto> th\<lparr>kt_cancelled := 1, kt_state := KT_RUN, kt_wchan := Some Kt_runq\<rparr>)) m
      (Q(q := remove1 t (Q q), Kt_runq := R))" (is "mutex_inv p ?T m ?Q")
proof -
  have sub: "set (?Q (Km_waitq k)) = set (Q (Km_waitq k)) - {t}" for k
    using mutex_inv_notin [OF inv T, of k] wc dist by auto
  have "call_ok ?T m ?Q x kc" if "p x = Some kc" for x kc
    using mutex_invD(4) [OF inv that] T st unfolding call_ok_def sub
    by (cases "x = t") (auto split: if_splits)
  moreover have "\<exists>th' c. ?T x = Some th' \<and> kt_wchan th' = Some (Km_waitq k) \<and> p x = Some (k, c)"
    if "x \<in> set (?Q (Km_waitq k))" for x k
    using that mutex_invD(3) [OF inv, of x k] unfolding sub by auto
  moreover have "?Q (Km_waitq k) = []" if "holder_in m k = None" for k
    using mutex_invD(1) [OF inv that] sub [of k] by auto
  moreover have "x \<notin> set (?Q (Km_waitq k))" if "holder_in m k = Some x" for x k
    using mutex_invD(2) [OF inv that] sub [of k] by auto
  ultimately show ?thesis unfolding mutex_inv_def by blast
qed

lemma broadcast_inv:
  assumes "config_inv c Q" and "public_queue q" and "sched_broadcast_on n q (st c) = Some s'"
  shows "\<exists>Q'. config_inv (c\<lparr>st := s'\<rparr>) Q'"
  using assms
proof (induction n arbitrary: c Q)
  case 0
  then show ?case by (auto split: if_splits)
next
  case (Suc n)
  show ?case
  proof (cases "sched_queue_empty q (st c)")
    case True
    with Suc.prems show ?thesis by auto
  next
    case False
    with Suc.prems(3) obtain r s1 where
      s1: "sched_wakeup_on q (st c) = Some (r, s1)" "sched_broadcast_on n q s1 = Some s'"
      by (auto simp: bind_eq_Some_conv)
    from wakeup_inv [OF Suc.prems(1,2) s1(1)] obtain Q1 where "config_inv (c\<lparr>st := s1\<rparr>) Q1" by blast
    from Suc.IH [OF this Suc.prems(2)] s1(2) show ?thesis by simp
  qed
qed

lemma cancel_inv:
  assumes inv: "config_inv c Q" and ne: "curthr (st c) \<noteq> Some t"
    and can: "sched_cancel t (st c) = Some s'"
  shows "\<exists>Q'. config_inv (c\<lparr>st := s'\<rparr>) Q'"
proof -
  have sinv: "sched_inv (st c) Q" and minv: "mutex_inv (pc c) (threads (st c)) (sched.more (st c)) Q"
    using inv by (auto simp: config_inv_def)
  from can obtain th where th: "threads (st c) t = Some th"
    and ks: "kt_state th \<noteq> KT_NO_STATE" "kt_state th \<noteq> KT_EXITED"
    by (auto simp: sched_cancel_def bind_eq_Some_conv)
  have ok: "thread_ok (curthr (st c)) t th" using sinv th by (simp add: sched_inv_def sched_ok_def)
  show ?thesis
  proof (cases "kt_state th = KT_SLEEP_CANCELLABLE")
    case False
    with ks have "kt_state th = KT_RUN \<or> kt_state th = KT_SLEEP" by (cases "kt_state th") auto
    from sched_cancel_other [OF sinv th this] can have
      s': "sched_inv s' Q" "same_ctx (st c) s'" "threads s' = (threads (st c))(t \<mapsto> th\<lparr>kt_cancelled := 1\<rparr>)"
      by auto
    have "mutex_inv (pc c) (threads s') (sched.more s') Q"
      using mutex_inv_cancelled [OF minv th] s'(2,3) by (simp add: same_ctx_def)
    with s' ne show ?thesis by (intro exI [of _ Q] config_same_ctx [OF inv]) auto
  next
    case True
    with ok obtain q where q: "kt_wchan th = Some q" "q \<noteq> Kt_runq"
      by (auto simp: thread_ok_def split: option.splits if_splits)
    let ?Q = "Q(q := remove1 t (Q q), Kt_runq := Q Kt_runq @ [t])"
    from sched_cancel_sleeping [OF sinv th True q] can have
      s': "sched_inv s' ?Q" "same_ctx (st c) s'"
        "threads s' = (threads (st c))(t \<mapsto> th\<lparr>kt_cancelled := 1, kt_state := KT_RUN, kt_wchan := Some Kt_runq\<rparr>)"
      by auto
    have "distinct (Q q)" using sinv sched_rep_distinct [of "st c" Q q] by (simp add: sched_inv_def)
    then have "mutex_inv (pc c) (threads s') (sched.more s') ?Q"
      using mutex_inv_dequeued [OF minv th q True] s'(2,3) by (simp add: same_ctx_def)
    with s' ne show ?thesis by (intro exI [of _ ?Q] config_same_ctx [OF inv]) auto
  qed
qed

lemma start_inv:
  assumes inv: "config_inv c Q" and th: "threads (st c) t = Some th" "kt_state th = KT_NO_STATE"
    and run: "sched_make_runnable t (st c) = Some s'"
  shows "\<exists>Q'. config_inv (c\<lparr>st := s'\<rparr>) Q'"
proof -
  have sinv: "sched_inv (st c) Q" and minv: "mutex_inv (pc c) (threads (st c)) (sched.more (st c)) Q"
    using inv by (auto simp: config_inv_def)
  have "thread_ok (curthr (st c)) t th" using sinv th by (simp add: sched_inv_def sched_ok_def)
  then have wc: "kt_wchan th = None"
    using th(2) by (auto simp: thread_ok_def asleep_def split: option.splits if_splits)
  let ?th = "th\<lparr>kt_state := KT_RUN, kt_wchan := Some Kt_runq\<rparr>" and ?Q = "Q(Kt_runq := Q Kt_runq @ [t])"
  from sched_make_runnable_inv [OF sinv th(1) wc] run have
    s': "sched_inv s' ?Q" "same_ctx (st c) s'" "threads s' = (threads (st c))(t \<mapsto> ?th)" by auto
  have "mutex_inv (pc c) ((threads (st c))(t \<mapsto> ?th)) (sched.more (st c)) ?Q"
    by (rule mutex_inv_thread [OF minv _ th(1)]) (use wc in auto)
  then have "mutex_inv (pc c) (threads s') (sched.more s') ?Q" using s' by (simp add: same_ctx_def)
  moreover have "x \<noteq> t" if "curthr (st c) = Some x" for x
    using config_running [OF inv that] th by (metis kt_state.distinct(1) option.inject)
  ultimately show ?thesis
    using s' by (intro exI [of _ ?Q] config_same_ctx [OF inv]) auto
qed

text \<open>Every step of the kernel keeps the configuration invariant.\<close>

lemma kstep_inv:
  assumes "kstep c c'" and "config_inv c Q"
  shows "\<exists>Q'. config_inv c' Q'"
  using assms
proof cases
  case (lock_now qs m s' t)
  then have "km_holder (st c) m = None" "s' = (st c)\<lparr>km_holder := (km_holder (st c))(m := Some t)\<rparr>"
    by (auto simp: kmutex_lock_def split: if_splits)
  with lock_now assms(2) show ?thesis using lock_now_inv by blast
next
  case (lock_sleep qs m s' t)
  then obtain s1 s2 where "km_holder (st c) m \<noteq> None" "km_holder (st c) m \<noteq> Some t"
    "thread_upd t (kt_state_update (\<lambda>_. KT_SLEEP)) (st c) = Some s1"
    "ktqueue_enqueue (Km_waitq m) t s1 = Some s2" "sched_switch (irqs_of qs) s2 = Some (Switched s')"
    by (auto simp: kmutex_lock_def sched_sleep_on_def bind_eq_Some_conv split: if_splits)
  with lock_sleep assms(2) show ?thesis using lock_sleep_inv [where b = False] by simp
next
  case (lockc_now qs m s' t)
  then have "km_holder (st c) m = None" "s' = (st c)\<lparr>km_holder := (km_holder (st c))(m := Some t)\<rparr>"
    by (auto simp: kmutex_lock_cancellable_def split: if_splits)
  with lockc_now assms(2) show ?thesis using lock_now_inv by blast
next
  case (lockc_sleep qs m s' t)
  then obtain s1 s2 where "km_holder (st c) m \<noteq> None" "km_holder (st c) m \<noteq> Some t"
    "thread_upd t (kt_state_update (\<lambda>_. KT_SLEEP_CANCELLABLE)) (st c) = Some s1"
    "ktqueue_enqueue (Km_waitq m) t s1 = Some s2" "sched_switch (irqs_of qs) s2 = Some (Switched s')"
    by (auto simp: kmutex_lock_cancellable_def sched_cancellable_sleep_on_def bind_eq_Some_conv
        split: if_splits)
  with lockc_sleep assms(2) show ?thesis using lock_sleep_inv [where b = True] by simp
next
  case (sleep qs q s')
  then obtain t s1 s2 where "curthr (st c) = Some t"
    "thread_upd t (kt_state_update (\<lambda>_. KT_SLEEP)) (st c) = Some s1"
    "ktqueue_enqueue q t s1 = Some s2" "sched_switch (irqs_of qs) s2 = Some (Switched s')"
    by (auto simp: sched_sleep_on_def bind_eq_Some_conv)
  with sleep assms(2) show ?thesis using sleep_inv by blast
next
  case (sleepc qs q s')
  then obtain t s1 s2 where "curthr (st c) = Some t"
    "thread_upd t (kt_state_update (\<lambda>_. KT_SLEEP_CANCELLABLE)) (st c) = Some s1"
    "ktqueue_enqueue q t s1 = Some s2" "sched_switch (irqs_of qs) s2 = Some (Switched s')"
    by (auto simp: sched_cancellable_sleep_on_def bind_eq_Some_conv)
  with sleepc assms(2) show ?thesis using sleep_inv by blast
next
  case (unlock m s' t)
  with unlock_inv [OF assms(2) unlock(3,2)] show ?thesis by simp
next
  case (yield t s1 qs s')
  with yield_inv [OF assms(2) yield(2,3,4,5)] show ?thesis by simp
next
  case (start t s' th)
  with start_inv [OF assms(2) start(3,4,2)] show ?thesis by simp
next
  case (wakeup q r s')
  with wakeup_inv [OF assms(2) wakeup(3,2)] show ?thesis by simp
next
  case (broadcast n q s')
  with broadcast_inv [OF assms(2) broadcast(3,2)] show ?thesis by simp
next
  case (cancel t s')
  with cancel_inv [OF assms(2) cancel(3,2)] show ?thesis by simp
qed


section \<open>Runs from the initial state\<close>

text \<open>
  The state execution starts from: all queues initialised by \<^const>\<open>sched_queue_init\<close>, every
  mutex free, thread \<open>t\<close> running and the threads \<open>ts\<close> created but not started.
\<close>

definition new_thread :: "kt_state \<Rightarrow> kthread" where
  "new_thread ks = \<lparr>kt_retval = 0, kt_proc = 0, kt_cancelled = 0, kt_wchan = None, kt_state = ks\<rparr>"

definition boot :: "nat list \<Rightarrow> nat \<Rightarrow> config" where
  "boot ts t =
    \<lparr>st = \<lparr>links = (\<lambda>a. case a of Tq_list q \<Rightarrow> \<lparr>l_next = Some a, l_prev = Some a\<rparr>
                              | Kt_qlink x \<Rightarrow> \<lparr>l_next = None, l_prev = None\<rparr>),
           tq_size = (\<lambda>_. 0),
           threads = (\<lambda>x. if x = t then Some (new_thread KT_RUN)
                         else if x \<in> set ts then Some (new_thread KT_NO_STATE) else None),
           curthr = Some t, curproc = Some 0, ipl = IPL_LOW, saved_ipl = (\<lambda>_. IPL_LOW),
           km_holder = (\<lambda>_. None)\<rparr>,
     pc = (\<lambda>_. None), owns = {}\<rparr>"

lemma boot_rep: "sched_rep (st (boot ts t)) (\<lambda>_. [])"
  unfolding sched_rep_def
  by (simp add: boot_def wchan_of_def new_thread_def dlist_def)

lemma boot_ok: "sched_ok (st (boot ts t))"
  unfolding sched_ok_def
  by (simp add: boot_def new_thread_def thread_ok_def)

lemma boot_mutex: "mutex_inv (pc (boot ts t)) (threads (st (boot ts t))) (sched.more (st (boot ts t))) (\<lambda>_. [])"
  unfolding mutex_inv_def holder_in_more
  by (simp add: boot_def)

lemma boot_inv: "config_inv (boot ts t) (\<lambda>_. [])"
  unfolding config_inv_def sched_inv_def
  using boot_rep boot_ok boot_mutex
  by (simp add: cur_running_def) (simp add: boot_def new_thread_def)

lemma runs_inv:
  assumes "kstep\<^sup>*\<^sup>* (boot ts t0) c"
  shows "\<exists>Q. config_inv c Q"
  using assms by (induction rule: rtranclp_induct) (auto intro: boot_inv dest: kstep_inv)

section \<open>Executing steps\<close>

text \<open>
  The step relation as a function, for concrete runs: each operation by the current
  thread, with no interrupt arriving.
\<close>

datatype sync_op = Lock nat | Lock_cancellable nat | Unlock nat | Yield | Start nat | Cancel nat
  | Sleep ktq

definition after_switch ::
  "kmutexes switched option \<Rightarrow> (nat \<Rightarrow> (nat \<times> bool) option) \<Rightarrow> (nat \<times> nat) set \<Rightarrow> config option" where
  "after_switch r p own = (case r of Some (Switched s) \<Rightarrow> Some (returned s p own) | _ \<Rightarrow> None)"

definition after_lock :: "lock_result option \<Rightarrow> nat \<Rightarrow> nat \<Rightarrow> bool \<Rightarrow> config \<Rightarrow> config option" where
  "after_lock r t m b c =
    (case r of
       Some (Lock_ret s) \<Rightarrow> Some (c\<lparr>st := s, owns := insert (t, m) (owns c)\<rparr>)
     | Some (Lock_slept (Switched s)) \<Rightarrow> Some (returned s ((pc c)(t \<mapsto> (m, b))) (owns c))
     | _ \<Rightarrow> None)"

fun exec_op :: "sync_op \<Rightarrow> config \<Rightarrow> config option" where
  "exec_op (Lock m) c = do { t \<leftarrow> curthr (st c); after_lock (kmutex_lock [] m (st c)) t m False c }"
| "exec_op (Lock_cancellable m) c =
    do { t \<leftarrow> curthr (st c); after_lock (kmutex_lock_cancellable [] m (st c)) t m True c }"
| "exec_op (Unlock m) c =
    do { t \<leftarrow> curthr (st c); s \<leftarrow> kmutex_unlock m (st c); Some (c\<lparr>st := s, owns := owns c - {(t, m)}\<rparr>) }"
| "exec_op Yield c =
    do { t \<leftarrow> curthr (st c); s \<leftarrow> sched_make_runnable t (st c);
         after_switch (sched_switch [] s) (pc c) (owns c) }"
| "exec_op (Start t) c =
    do { th \<leftarrow> threads (st c) t; s \<leftarrow> sched_make_runnable t (st c);
         if kt_state th = KT_NO_STATE then Some (c\<lparr>st := s\<rparr>) else None }"
| "exec_op (Cancel t) c =
    do { s \<leftarrow> sched_cancel t (st c); if curthr (st c) \<noteq> Some t then Some (c\<lparr>st := s\<rparr>) else None }"
| "exec_op (Sleep q) c =
    (if public_queue q then after_switch (sched_sleep_on [] q (st c)) (pc c) (owns c) else None)"

fun exec_ops :: "sync_op list \<Rightarrow> config \<Rightarrow> config option" where
  "exec_ops [] c = Some c"
| "exec_ops (op # ops) c = do { c' \<leftarrow> exec_op op c; exec_ops ops c' }"

lemma irqs_of_Nil [simp]: "irqs_of [] = []"
  by (simp add: irqs_of_def)

lemma after_lock_kstep:
  assumes "after_lock (kmutex_lock [] m (st c)) t m False c = Some c'" and "curthr (st c) = Some t"
  shows "kstep c c'"
  using assms kstep.lock_now [of "[]" m c _ t] kstep.lock_sleep [of "[]" m c _ t]
  by (auto simp: after_lock_def split: option.splits lock_result.splits switched.splits)

lemma after_lockc_kstep:
  assumes "after_lock (kmutex_lock_cancellable [] m (st c)) t m True c = Some c'"
    and "curthr (st c) = Some t"
  shows "kstep c c'"
  using assms kstep.lockc_now [of "[]" m c _ t] kstep.lockc_sleep [of "[]" m c _ t]
  by (auto simp: after_lock_def split: option.splits lock_result.splits switched.splits)

lemma after_switch_Some:
  "after_switch r p own = Some c' \<longleftrightarrow> (\<exists>s. r = Some (Switched s) \<and> c' = returned s p own)"
  by (auto simp: after_switch_def split: option.splits switched.splits)

lemma exec_op_kstep:
  assumes "exec_op op c = Some c'"
  shows "kstep c c'"
proof (cases op)
  case Yield
  with assms show ?thesis using kstep.yield [of c _ _ "[]"]
    by (auto simp: after_switch_Some bind_eq_Some_conv)
next
  case (Sleep q)
  with assms show ?thesis using kstep.sleep [of "[]" q c]
    by (auto simp: after_switch_Some split: if_splits)
qed (use assms in \<open>auto simp: bind_eq_Some_conv split: if_splits
      intro: kstep.intros after_lock_kstep after_lockc_kstep\<close>)

lemma exec_ops_run: "exec_ops ops c = Some c' \<Longrightarrow> kstep\<^sup>*\<^sup>* c c'"
  by (induction ops arbitrary: c)
    (auto simp: bind_eq_Some_conv dest!: exec_op_kstep intro: converse_rtranclp_into_rtranclp)

lemma exec_ops_view:
  assumes "map_option f (exec_ops ops (boot ts t)) = Some v"
  shows "\<exists>c. kstep\<^sup>*\<^sup>* (boot ts t) c \<and> f c = v"
  using assms exec_ops_run [of ops "boot ts t"] by auto

text \<open>
  Two threads queue up behind a mutex held by thread 1, which yields the processor to them.
\<close>

definition contended :: "sync_op list" where
  "contended = [Lock 0, Start 2, Start 3, Yield, Lock 0, Lock 0]"

section \<open>Properties\<close>

text \<open>
  C1: mutual exclusion.  In every run of the kernel from its initial state, over any
  interleaving of lock, cancellable lock, unlock, yield, sleep, wake-up, broadcast, cancel and
  interrupt wake-ups, two threads that both own a mutex (their lock call on it returned success
  and they have not unlocked it) are the same thread, and it is the recorded holder.
\<close>

theorem kmutex_mutual_exclusion:
  assumes "kstep\<^sup>*\<^sup>* (boot ts t0) c" and "(t, m) \<in> owns c" and "(t', m) \<in> owns c"
  shows "t = t' \<and> km_holder (st c) m = Some t"
proof -
  from runs_inv [OF assms(1)] have "km_holder (st c) k = Some x" if "(x, k) \<in> owns c" for x k
    using that by (auto simp: config_inv_def)
  from this [OF assms(2)] this [OF assms(3)] show ?thesis by simp
qed

theorem kmutex_mutual_exclusion_witness:
  "\<exists>c. kstep\<^sup>*\<^sup>* (boot [2, 3] 1) c \<and> (2, 0) \<in> owns c \<and> km_holder (st c) 0 = Some 2"
proof -
  have "map_option (\<lambda>c. (2, 0) \<in> owns c) (exec_ops (contended @ [Unlock 0, Yield]) (boot [2, 3] 1)) = Some True"
    by code_simp
  from exec_ops_view [OF this] obtain c where c: "kstep\<^sup>*\<^sup>* (boot [2, 3] 1) c" "(2, 0) \<in> owns c" by auto
  with kmutex_mutual_exclusion [OF c(1,2,2)] show ?thesis by blast
qed

text \<open>
  C2: no thread is lost.  In every reachable state a thread that has been started and has not
  exited is the current thread, or walking the queue its back pointer \<^const>\<open>kt_wchan\<close>
  names reaches the thread's link; and it is on no other queue.
\<close>

theorem sched_no_lost_thread:
  assumes "kstep\<^sup>*\<^sup>* (boot ts t0) c" and "threads (st c) t = Some th"
    and "kt_state th \<noteq> KT_NO_STATE" and "kt_state th \<noteq> KT_EXITED"
  shows "curthr (st c) = Some t \<and> kt_wchan th = None \<or>
    (\<exists>q n xs. kt_wchan th = Some q \<and> list_iterate n (Tq_list q) (links (st c)) = Some xs \<and>
       Kt_qlink t \<in> set xs \<and>
       (\<forall>k j ys. k \<noteq> q \<longrightarrow> list_iterate j (Tq_list k) (links (st c)) = Some ys \<longrightarrow> Kt_qlink t \<notin> set ys))"
proof -
  from runs_inv [OF assms(1)] obtain Q where inv: "sched_inv (st c) Q" by (auto simp: config_inv_def)
  then have rep: "sched_rep (st c) Q" by (simp add: sched_inv_def)
  have walk: "list_iterate j (Tq_list k) (links (st c)) = Some ys \<Longrightarrow> ys = map Kt_qlink (rev (Q k))" for j k ys
    using list_iterate_fuel [OF sched_repD(1) [OF rep, of k]] by blast
  have ok: "thread_ok (curthr (st c)) t th" using inv assms(2) by (simp add: sched_inv_def sched_ok_def)
  show ?thesis
  proof (cases "kt_wchan th")
    case None
    with ok assms(3,4) show ?thesis by (auto simp: thread_ok_def)
  next
    case (Some q)
    then have tq: "t \<in> set (Q q)" using sched_repD(3) [OF rep, of t q] assms(2) by (simp add: wchan_of_def)
    have "list_iterate (Suc (length (Q q))) (Tq_list q) (links (st c)) = Some (map Kt_qlink (rev (Q q)))"
      using list_iterate_dlist [OF sched_repD(1) [OF rep, of q]] by simp
    moreover have "Kt_qlink t \<notin> set ys"
      if "k \<noteq> q" "list_iterate j (Tq_list k) (links (st c)) = Some ys" for k j ys
      using walk [OF that(2)] tq sched_rep_disjoint [OF rep, of t q k] that(1) by auto
    ultimately have "kt_wchan th = Some q \<and>
      list_iterate (Suc (length (Q q))) (Tq_list q) (links (st c)) = Some (map Kt_qlink (rev (Q q))) \<and>
      Kt_qlink t \<in> set (map Kt_qlink (rev (Q q))) \<and>
      (\<forall>k j ys. k \<noteq> q \<longrightarrow> list_iterate j (Tq_list k) (links (st c)) = Some ys \<longrightarrow> Kt_qlink t \<notin> set ys)"
      using Some tq by simp
    then show ?thesis by blast
  qed
qed


theorem sched_no_lost_thread_witness:
  "\<exists>c th. kstep\<^sup>*\<^sup>* (boot [2, 3] 1) c \<and> threads (st c) 3 = Some th \<and> kt_state th = KT_SLEEP \<and>
    (curthr (st c) = Some 3 \<and> kt_wchan th = None \<or>
    (\<exists>q n xs. kt_wchan th = Some q \<and> list_iterate n (Tq_list q) (links (st c)) = Some xs \<and>
       Kt_qlink 3 \<in> set xs \<and>
       (\<forall>k j ys. k \<noteq> q \<longrightarrow> list_iterate j (Tq_list k) (links (st c)) = Some ys \<longrightarrow> Kt_qlink 3 \<notin> set ys)))"
proof -
  have "map_option (\<lambda>c. map_option kt_state (threads (st c) 3)) (exec_ops contended (boot [2, 3] 1)) =
      Some (Some KT_SLEEP)"
    by code_simp
  from exec_ops_view [OF this] obtain c th where
    c: "kstep\<^sup>*\<^sup>* (boot [2, 3] 1) c" "threads (st c) 3 = Some th" "kt_state th = KT_SLEEP" by auto
  have "kt_state th \<noteq> KT_NO_STATE" "kt_state th \<noteq> KT_EXITED" using c(3) by simp_all
  from sched_no_lost_thread [OF c(1,2) this] c show ?thesis by blast
qed

text \<open>
  C3: hand-over in arrival order.  When the holder unlocks a mutex on which threads wait, the
  walk of the wait queue from its tail (the order of arrival) names the new holder first: that
  thread becomes the holder, is made runnable behind the threads already on the run queue, and
  the other waiters keep their order.  The operation does not fail and does not switch threads.
\<close>

theorem kmutex_unlock_hands_over:
  assumes "kstep\<^sup>*\<^sup>* (boot ts t0) c" and "curthr (st c) = Some t" and "km_holder (st c) m = Some t"
    and "list_iterate_reverse n (Tq_list (Km_waitq m)) (links (st c)) = Some (Kt_qlink x # ws)"
    and "list_iterate_reverse k (Tq_list Kt_runq) (links (st c)) = Some rs"
  shows "\<exists>s'. kmutex_unlock m (st c) = Some s' \<and> curthr s' = Some t \<and> km_holder s' m = Some x \<and>
    list_iterate_reverse n (Tq_list (Km_waitq m)) (links s') = Some ws \<and>
    (\<exists>j. list_iterate_reverse j (Tq_list Kt_runq) (links s') = Some (rs @ [Kt_qlink x]))"
proof -
  from runs_inv [OF assms(1)] obtain Q where inv: "sched_inv (st c) Q" by (auto simp: config_inv_def)
  then have rep: "sched_rep (st c) Q" by (simp add: sched_inv_def)
  have ws: "map Kt_qlink (Q (Km_waitq m)) = Kt_qlink x # ws" and len: "length (Q (Km_waitq m)) < n"
    using list_iterate_reverse_fuel [OF sched_repD(1) [OF rep] assms(4)] by (auto simp: rev_map)
  have rs: "map Kt_qlink (Q Kt_runq) = rs"
    using list_iterate_reverse_fuel [OF sched_repD(1) [OF rep] assms(5)] by (auto simp: rev_map)
  from ws obtain xs where Q: "Q (Km_waitq m) = x # xs" "ws = map Kt_qlink xs" by auto
  from kmutex_unlock_effect [OF inv assms(2,3)] Q(1) obtain s' where
    s': "kmutex_unlock m (st c) = Some s'" "curthr s' = Some t" "km_holder s' m = Some x"
      "sched_inv s' (Q(Km_waitq m := xs, Kt_runq := Q Kt_runq @ [x]))" by auto
  then have rep': "sched_rep s' (Q(Km_waitq m := xs, Kt_runq := Q Kt_runq @ [x]))"
    by (simp add: sched_inv_def)
  have "list_iterate_reverse n (Tq_list (Km_waitq m)) (links s') = Some ws"
    using list_iterate_reverse_dlist [OF sched_repD(1) [OF rep', of "Km_waitq m"], of n] Q len
    by (simp add: rev_map)
  moreover have "list_iterate_reverse (length (Q Kt_runq) + 2) (Tq_list Kt_runq) (links s') =
      Some (rs @ [Kt_qlink x])"
    using list_iterate_reverse_dlist [OF sched_repD(1) [OF rep', of Kt_runq], of "length (Q Kt_runq) + 2"] rs
    by (simp add: rev_map)
  ultimately show ?thesis using s' by blast
qed

theorem kmutex_unlock_hands_over_witness:
  "\<exists>c s'. kstep\<^sup>*\<^sup>* (boot [2, 3] 1) c \<and> kmutex_unlock 0 (st c) = Some s' \<and> curthr s' = Some 1 \<and>
    km_holder s' 0 = Some 2 \<and>
    list_iterate_reverse 3 (Tq_list (Km_waitq 0)) (links s') = Some [Kt_qlink 3] \<and>
    (\<exists>j. list_iterate_reverse j (Tq_list Kt_runq) (links s') = Some [Kt_qlink 2])"
proof -
  have "map_option (\<lambda>c. (curthr (st c), km_holder (st c) 0,
      list_iterate_reverse 3 (Tq_list (Km_waitq 0)) (links (st c)),
      list_iterate_reverse 1 (Tq_list Kt_runq) (links (st c)))) (exec_ops contended (boot [2, 3] 1)) =
      Some (Some 1, Some 1, Some [Kt_qlink 2, Kt_qlink 3], Some [])"
    by code_simp
  from exec_ops_view [OF this] obtain c where
    c: "kstep\<^sup>*\<^sup>* (boot [2, 3] 1) c" "curthr (st c) = Some 1" "km_holder (st c) 0 = Some 1"
      "list_iterate_reverse 3 (Tq_list (Km_waitq 0)) (links (st c)) = Some [Kt_qlink 2, Kt_qlink 3]"
      "list_iterate_reverse 1 (Tq_list Kt_runq) (links (st c)) = Some []" by auto
  from kmutex_unlock_hands_over [OF c] c(1) show ?thesis by auto
qed

text \<open>
  C4: a broadcast ends.  With as many rounds as the queue's size counter says, it empties
  the queue and appends its threads to the run queue in the order they had arrived; the
  current thread does not change.
\<close>

theorem sched_broadcast_wakes_all:
  assumes "kstep\<^sup>*\<^sup>* (boot ts t0) c" and "q \<noteq> Kt_runq"
    and "list_iterate_reverse n (Tq_list q) (links (st c)) = Some ws"
    and "list_iterate_reverse k (Tq_list Kt_runq) (links (st c)) = Some rs"
  shows "\<exists>s'. sched_broadcast_on (nat (tq_size (st c) q)) q (st c) = Some s' \<and>
    curthr s' = curthr (st c) \<and> tq_size s' q = 0 \<and> sched_queue_empty q s' \<and>
    (\<exists>j. list_iterate_reverse j (Tq_list Kt_runq) (links s') = Some (rs @ ws))"
proof -
  from runs_inv [OF assms(1)] obtain Q where inv: "sched_inv (st c) Q" by (auto simp: config_inv_def)
  then have rep: "sched_rep (st c) Q" by (simp add: sched_inv_def)
  have ws: "map Kt_qlink (Q q) = ws"
    using list_iterate_reverse_fuel [OF sched_repD(1) [OF rep] assms(3)] by (auto simp: rev_map)
  have rs: "map Kt_qlink (Q Kt_runq) = rs"
    using list_iterate_reverse_fuel [OF sched_repD(1) [OF rep] assms(4)] by (auto simp: rev_map)
  have "length (Q q) \<le> nat (tq_size (st c) q)" using sched_repD(2) [OF rep, of q] by simp
  from sched_broadcast_on_inv [OF inv assms(2) this] obtain s' where
    s': "sched_broadcast_on (nat (tq_size (st c) q)) q (st c) = Some s'" "same_ctx (st c) s'"
      "sched_rep s' (Q(q := [], Kt_runq := Q Kt_runq @ Q q))" by (auto simp: sched_inv_def)
  have "tq_size s' q = 0" "sched_queue_empty q s'"
    using sched_repD(2) [OF s'(3), of q] sched_queue_empty_rep [OF s'(3), of q] assms(2) by auto
  moreover have "list_iterate_reverse (length (Q Kt_runq @ Q q) + 1) (Tq_list Kt_runq) (links s') =
      Some (rs @ ws)"
    using list_iterate_reverse_dlist [OF sched_repD(1) [OF s'(3), of Kt_runq], of "length (Q Kt_runq @ Q q) + 1"]
      rs ws by (simp add: rev_map)
  ultimately show ?thesis using s'(1,2) unfolding same_ctx_def by blast
qed


theorem sched_broadcast_wakes_all_witness:
  "\<exists>c s'. kstep\<^sup>*\<^sup>* (boot [2, 3] 1) c \<and>
    sched_broadcast_on (nat (tq_size (st c) (Waitq 7))) (Waitq 7) (st c) = Some s' \<and>
    curthr s' = Some 3 \<and> tq_size s' (Waitq 7) = 0 \<and> sched_queue_empty (Waitq 7) s' \<and>
    (\<exists>j. list_iterate_reverse j (Tq_list Kt_runq) (links s') = Some [Kt_qlink 1, Kt_qlink 2])"
proof -
  have "map_option (\<lambda>c. (curthr (st c),
      list_iterate_reverse 3 (Tq_list (Waitq 7)) (links (st c)),
      list_iterate_reverse 1 (Tq_list Kt_runq) (links (st c))))
      (exec_ops [Start 2, Start 3, Sleep (Waitq 7), Sleep (Waitq 7)] (boot [2, 3] 1)) =
      Some (Some 3, Some [Kt_qlink 1, Kt_qlink 2], Some [])"
    by code_simp
  from exec_ops_view [OF this] obtain c where
    c: "kstep\<^sup>*\<^sup>* (boot [2, 3] 1) c" and cur: "curthr (st c) = Some 3"
    and w: "list_iterate_reverse 3 (Tq_list (Waitq 7)) (links (st c)) = Some [Kt_qlink 1, Kt_qlink 2]"
      "list_iterate_reverse 1 (Tq_list Kt_runq) (links (st c)) = Some []" by auto
  have "Waitq 7 \<noteq> Kt_runq" by simp
  from sched_broadcast_wakes_all [OF c this w] c cur show ?thesis by auto
qed


end
