(* ===== verification/Progress.thy ===== *)
theory Progress
  imports Kmutex
begin

text \<open>
  Progress of the scheduler.  The run queue is first in, first out, and no operation takes a thread off it other than by
  running it, so a thread on it runs as soon as the threads in front of it have given up the processor.  Waiting for
  interrupts (\<open>sched_intr_wait\<close>) does not come up here: it only happens while the run queue is empty.
\<close>

section \<open>The run queue moves forward\<close>

text \<open>A step leaves the current thread and at most appends to the run queue, or runs the thread that was first on it.\<close>

definition forward :: "kmutexes \<Rightarrow> (ktq \<Rightarrow> nat list) \<Rightarrow> kmutexes \<Rightarrow> (ktq \<Rightarrow> nat list) \<Rightarrow> bool" where
  "forward s Q s' Q' \<longleftrightarrow> sched_rep s' Q' \<and>
    (curthr s' = curthr s \<and> (\<exists>ys. Q' Kt_runq = Q Kt_runq @ ys) \<or>
     (\<exists>x xs ys. Q Kt_runq = x # xs \<and> curthr s' = Some x \<and> Q' Kt_runq = xs @ ys))"

lemma forward_same: "sched_inv s' Q' \<Longrightarrow> same_ctx s s' \<Longrightarrow> Q' Kt_runq = Q Kt_runq @ ys \<Longrightarrow> forward s Q s' Q'"
  by (auto simp: forward_def sched_inv_def same_ctx_def)

lemma forward_switch:
  assumes "sched_switch irqs s2 = Some (Switched s')" and "sched_inv s2 Q2" and "same_ctx s s2" and "curthr s = Some t"
    and "Q2 Kt_runq = Q Kt_runq @ ys" and "Q Kt_runq \<noteq> []"
  shows "\<exists>Q'. forward s Q s' Q'"
proof -
  obtain x xs where x: "Q Kt_runq = x # xs" using assms(6) by (cases "Q Kt_runq") auto
  have r: "sched_rep s2 Q2" "Q2 Kt_runq = x # (xs @ ys)" "curthr s2 = Some t"
    using assms(2-5) x by (auto simp: sched_inv_def same_ctx_def)
  from sched_switch_rep [OF r, of irqs] assms(1) have "sched_rep s' (Q2(Kt_runq := xs @ ys))" "curthr s' = Some x" by auto
  with x show ?thesis by (intro exI [of _ "Q2(Kt_runq := xs @ ys)"]) (auto simp: forward_def)
qed

lemma forward_sleep:
  assumes "config_inv c Q" and "curthr (st c) = Some t" and "q \<noteq> Kt_runq" and "ks = KT_SLEEP \<or> ks = KT_SLEEP_CANCELLABLE"
    and "thread_upd t (kt_state_update (\<lambda>_. ks)) (st c) = Some s1" and "ktqueue_enqueue q t s1 = Some s2"
    and "sched_switch irqs s2 = Some (Switched s')" and "Q Kt_runq \<noteq> []"
  shows "\<exists>Q'. forward (st c) Q s' Q'"
proof -
  from config_running [OF assms(1,2)] obtain th where th: "threads (st c) t = Some th" "kt_wchan th = None" by metis
  have "sched_inv (st c) Q" using assms(1) by (simp add: config_inv_def)
  from sleep_enqueue_inv [OF this assms(2) th assms(3,4)] assms(5,6) have "sched_inv s2 (Q(q := Q q @ [t]))" "same_ctx (st c) s2" by auto
  from forward_switch [OF assms(7) this assms(2), of Q "[]"] assms(3,8) show ?thesis by simp
qed

lemma forward_wakeup:
  assumes "sched_inv s Q" and "q \<noteq> Kt_runq" and "sched_wakeup_on q s = Some (r, s')"
  shows "\<exists>Q'. sched_inv s' Q' \<and> forward s Q s' Q' \<and> (\<exists>ys. Q' Kt_runq = Q Kt_runq @ ys) \<and> same_ctx s s'"
proof (cases "Q q")
  case Nil
  with assms have "s' = s" using sched_wakeup_on_empty [of s Q q] by (auto simp: sched_inv_def)
  with assms(1) show ?thesis by (intro exI [of _ Q]) (auto simp: forward_def sched_inv_def)
next
  case (Cons x xs)
  from sched_wakeup_on_inv [OF assms(1,2) Cons] assms(3) have
    "sched_inv s' (Q(q := xs, Kt_runq := Q Kt_runq @ [x]))" "same_ctx s s'" by auto
  then show ?thesis by (intro exI [of _ "Q(q := xs, Kt_runq := Q Kt_runq @ [x])"]) (auto intro: forward_same)
qed

lemma forward_broadcast:
  "sched_inv (s :: kmutexes) Q \<Longrightarrow> q \<noteq> Kt_runq \<Longrightarrow> sched_broadcast_on n q s = Some s' \<Longrightarrow>
   \<exists>Q'. sched_inv s' Q' \<and> (\<exists>ys. Q' Kt_runq = Q Kt_runq @ ys) \<and> same_ctx s s'"
proof (induction n arbitrary: s Q)
  case 0
  then show ?case by (auto split: if_splits)
next
  case (Suc n)
  show ?case
  proof (cases "sched_queue_empty q s")
    case True
    with Suc.prems show ?thesis by auto
  next
    case False
    with Suc.prems(3) obtain r s1 where s1: "sched_wakeup_on q s = Some (r, s1)" "sched_broadcast_on n q s1 = Some s'"
      by (auto simp: bind_eq_Some_conv)
    from forward_wakeup [OF Suc.prems(1,2) s1(1)] obtain Q1 ys where
      q1: "sched_inv s1 Q1" "Q1 Kt_runq = Q Kt_runq @ ys" "same_ctx s s1" by blast
    from Suc.IH [OF q1(1) Suc.prems(2) s1(2)] q1(2,3) show ?thesis by (auto intro: same_ctx_trans)
  qed
qed

lemma forward_unlock:
  assumes "config_inv c Q" and "curthr (st c) = Some t" and "kmutex_unlock m (st c) = Some s'"
  shows "\<exists>Q'. forward (st c) Q s' Q'"
proof -
  have h: "km_holder (st c) m = Some t" using assms(2,3) by (simp add: kmutex_unlock_def)
  have "sched_inv (st c) Q" using assms(1) by (simp add: config_inv_def)
  from kmutex_unlock_effect [OF this assms(2) h] assms(3) show ?thesis
    by (cases "Q (Km_waitq m)") (auto simp: forward_def sched_inv_def assms(2))
qed

lemma forward_cancel:
  assumes "config_inv c Q" and "sched_cancel t (st c) = Some s'"
  shows "\<exists>Q'. forward (st c) Q s' Q'"
proof -
  have inv: "sched_inv (st c) Q" using assms(1) by (simp add: config_inv_def)
  obtain th where th: "threads (st c) t = Some th" "kt_state th \<noteq> KT_NO_STATE" "kt_state th \<noteq> KT_EXITED"
    using assms(2) by (auto simp: sched_cancel_def bind_eq_Some_conv)
  show ?thesis
  proof (cases "kt_state th = KT_SLEEP_CANCELLABLE")
    case False
    with th have "kt_state th = KT_RUN \<or> kt_state th = KT_SLEEP" by (cases "kt_state th") auto
    from sched_cancel_other [OF inv th(1) this] assms(2) show ?thesis by (auto intro!: exI [of _ Q] forward_same [of _ _ _ _ "[]"])
  next
    case True
    have "thread_ok (curthr (st c)) t th" using inv th(1) by (simp add: sched_inv_def sched_ok_def)
    with True obtain q where q: "kt_wchan th = Some q" "q \<noteq> Kt_runq" by (auto simp: thread_ok_def split: option.splits if_splits)
    from sched_cancel_sleeping [OF inv th(1) True q] assms(2) have
      "sched_inv s' (Q(q := remove1 t (Q q), Kt_runq := Q Kt_runq @ [t]))" "same_ctx (st c) s'" by auto
    then show ?thesis by (intro exI [of _ "Q(q := remove1 t (Q q), Kt_runq := Q Kt_runq @ [t])"]) (auto intro: forward_same)
  qed
qed

lemma st_returned [simp]: "st (returned s p own) = s"
  by (simp add: returned_def split: option.splits)

lemma public_queueD: "public_queue q \<Longrightarrow> q \<noteq> Kt_runq"
  by (auto simp: public_queue_def)

lemma forward_holder: "config_inv c Q \<Longrightarrow> forward (st c) Q ((st c)\<lparr>km_holder := f\<rparr>) Q"
  by (simp add: forward_def config_inv_def sched_inv_def sched_rep_def wchan_of_def)

lemma forward_yield:
  assumes "config_inv c Q" and "curthr (st c) = Some t" and "sched_make_runnable t (st c) = Some s1"
    and "sched_switch irqs s1 = Some (Switched s')" and "Q Kt_runq \<noteq> []"
  shows "\<exists>Q'. forward (st c) Q s' Q'"
proof -
  from config_running [OF assms(1,2)] obtain th where th: "threads (st c) t = Some th" "kt_wchan th = None" by metis
  from sched_make_runnable_inv [OF _ th, of Q] assms(1,3) have
    "sched_inv s1 (Q(Kt_runq := Q Kt_runq @ [t]))" "same_ctx (st c) s1" by (auto simp: config_inv_def)
  from forward_switch [OF assms(4) this assms(2), of Q "[t]"] assms(5) show ?thesis by simp
qed

lemma forward_start:
  assumes "config_inv c Q" and "threads (st c) t = Some th" and "kt_state th = KT_NO_STATE" and "sched_make_runnable t (st c) = Some s'"
  shows "\<exists>Q'. forward (st c) Q s' Q'"
proof -
  have inv: "sched_inv (st c) Q" using assms(1) by (simp add: config_inv_def)
  then have "thread_ok (curthr (st c)) t th" using assms(2) by (simp add: sched_inv_def sched_ok_def)
  then have "kt_wchan th = None" using assms(3) by (auto simp: thread_ok_def asleep_def split: option.splits if_splits)
  from sched_make_runnable_inv [OF inv assms(2) this] assms(4) have
    "sched_inv s' (Q(Kt_runq := Q Kt_runq @ [t]))" "same_ctx (st c) s'" by auto
  then show ?thesis by (intro exI [of _ "Q(Kt_runq := Q Kt_runq @ [t])"]) (auto intro: forward_same)
qed

lemma kstep_forward:
  assumes "kstep c c'" and "config_inv c Q" and "Q Kt_runq \<noteq> []"
  shows "\<exists>Q'. forward (st c) Q (st c') Q'"
  using assms(1)
proof cases
  case (lock_now qs m s' t)
  then have "s' = (st c)\<lparr>km_holder := (km_holder (st c))(m := Some t)\<rparr>" by (auto simp: kmutex_lock_def split: if_splits)
  with lock_now(1) assms(2) show ?thesis by (intro exI [of _ Q]) (simp add: forward_holder)
next
  case (lockc_now qs m s' t)
  then have "s' = (st c)\<lparr>km_holder := (km_holder (st c))(m := Some t)\<rparr>" by (auto simp: kmutex_lock_cancellable_def split: if_splits)
  with lockc_now(1) assms(2) show ?thesis by (intro exI [of _ Q]) (simp add: forward_holder)
next
  case (lock_sleep qs m s' t)
  then obtain s1 s2 where "thread_upd t (kt_state_update (\<lambda>_. KT_SLEEP)) (st c) = Some s1"
    "ktqueue_enqueue (Km_waitq m) t s1 = Some s2" "sched_switch (irqs_of qs) s2 = Some (Switched s')"
    by (auto simp: kmutex_lock_def sched_sleep_on_def bind_eq_Some_conv split: if_splits)
  from forward_sleep [OF assms(2) lock_sleep(3) _ _ this assms(3)] lock_sleep(1) show ?thesis by simp
next
  case (lockc_sleep qs m s' t)
  then obtain s1 s2 where "thread_upd t (kt_state_update (\<lambda>_. KT_SLEEP_CANCELLABLE)) (st c) = Some s1"
    "ktqueue_enqueue (Km_waitq m) t s1 = Some s2" "sched_switch (irqs_of qs) s2 = Some (Switched s')"
    by (auto simp: kmutex_lock_cancellable_def sched_cancellable_sleep_on_def bind_eq_Some_conv split: if_splits)
  from forward_sleep [OF assms(2) lockc_sleep(3) _ _ this assms(3)] lockc_sleep(1) show ?thesis by simp
next
  case (sleep qs q s')
  then obtain t s1 s2 where t: "curthr (st c) = Some t" and u: "thread_upd t (kt_state_update (\<lambda>_. KT_SLEEP)) (st c) = Some s1"
    "ktqueue_enqueue q t s1 = Some s2" "sched_switch (irqs_of qs) s2 = Some (Switched s')"
    by (auto simp: sched_sleep_on_def bind_eq_Some_conv)
  from forward_sleep [OF assms(2) t public_queueD [OF sleep(3)] _ u assms(3)] sleep(1) show ?thesis by simp
next
  case (sleepc qs q s')
  then obtain t s1 s2 where t: "curthr (st c) = Some t" and u: "thread_upd t (kt_state_update (\<lambda>_. KT_SLEEP_CANCELLABLE)) (st c) = Some s1"
    "ktqueue_enqueue q t s1 = Some s2" "sched_switch (irqs_of qs) s2 = Some (Switched s')"
    by (auto simp: sched_cancellable_sleep_on_def bind_eq_Some_conv)
  from forward_sleep [OF assms(2) t public_queueD [OF sleepc(3)] _ u assms(3)] sleepc(1) show ?thesis by simp
next
  case (unlock m s' t)
  from forward_unlock [OF assms(2) unlock(3,2)] unlock(1) show ?thesis by simp
next
  case (yield t s1 qs s')
  from forward_yield [OF assms(2) yield(2-4) assms(3)] yield(1) show ?thesis by simp
next
  case (start t s' th)
  from forward_start [OF assms(2) start(3,4,2)] start(1) show ?thesis by simp
next
  case (wakeup q r s')
  from forward_wakeup [OF _ public_queueD [OF wakeup(3)] wakeup(2), of Q] assms(2) wakeup(1) show ?thesis
    by (auto simp: config_inv_def)
next
  case (broadcast n q s')
  from forward_broadcast [OF _ public_queueD [OF broadcast(3)] broadcast(2), of Q] assms(2) broadcast(1) show ?thesis
    by (auto simp: config_inv_def intro: forward_same)
next
  case (cancel t s')
  from forward_cancel [OF assms(2) cancel(2)] cancel(1) show ?thesis by simp
qed

section \<open>Every runnable thread runs\<close>

text \<open>A thread with \<open>n\<close> threads in front of it, and what becomes of that in a step.\<close>

definition queued_at :: "nat \<Rightarrow> kmutexes \<Rightarrow> nat \<Rightarrow> bool" where
  "queued_at t s n \<longleftrightarrow> (\<exists>Q. sched_rep s Q \<and> n < length (Q Kt_runq) \<and> Q Kt_runq ! n = t)"

lemma queued_step:
  assumes "kstep c c'" and "config_inv c Q" and "queued_at t (st c) n"
  shows "curthr (st c') = curthr (st c) \<and> queued_at t (st c') n \<or> (n = 0 \<and> curthr (st c') = Some t) \<or>
    (0 < n \<and> queued_at t (st c') (n - 1))"
proof -
  have n: "n < length (Q Kt_runq)" "Q Kt_runq ! n = t"
    using assms(2,3) by (auto simp: queued_at_def config_inv_def sched_inv_def dest: sched_rep_unique)
  then have "Q Kt_runq \<noteq> []" by auto
  from kstep_forward [OF assms(1,2) this] obtain Q' where f: "forward (st c) Q (st c') Q'" by blast
  then have r: "sched_rep (st c') Q'" by (simp add: forward_def)
  from f consider (same) ys where "curthr (st c') = curthr (st c)" "Q' Kt_runq = Q Kt_runq @ ys"
    | (other) x xs ys where "Q Kt_runq = x # xs" "curthr (st c') = Some x" "Q' Kt_runq = xs @ ys"
    by (auto simp: forward_def)
  then show ?thesis
  proof cases
    case same
    then have "queued_at t (st c') n" unfolding queued_at_def using r n by (intro exI [of _ Q']) (simp add: nth_append)
    with same(1) show ?thesis by simp
  next
    case other
    show ?thesis
    proof (cases n)
      case 0
      with other n show ?thesis by simp
    next
      case (Suc m)
      then have "queued_at t (st c') m" unfolding queued_at_def using r n other by (intro exI [of _ Q']) (simp add: nth_append)
      with Suc show ?thesis by simp
    qed
  qed
qed

lemma queued_until_switch:
  assumes "\<And>i. kstep (r i) (r (Suc i))" and "\<And>i. \<exists>Q. config_inv (r i) Q" and "queued_at t (st (r i)) n"
    and "curthr (st (r (Suc (i + d)))) \<noteq> curthr (st (r (i + d)))"
  shows "(\<exists>j > i. curthr (st (r j)) = Some t) \<or> (\<exists>j > i. 0 < n \<and> queued_at t (st (r j)) (n - 1))"
  using assms(3,4)
proof (induction d arbitrary: i)
  case 0
  obtain Q where "config_inv (r i) Q" using assms(2) by blast
  from queued_step [OF assms(1) this 0(1)] 0(2) show ?case by auto
next
  case (Suc d)
  obtain Q where "config_inv (r i) Q" using assms(2) by blast
  from queued_step [OF assms(1) this Suc.prems(1)] consider (stay) "queued_at t (st (r (Suc i))) n"
    | (ran) "curthr (st (r (Suc i))) = Some t" | (moved) "0 < n" "queued_at t (st (r (Suc i))) (n - 1)" by blast
  then show ?case
  proof cases
    case stay
    from Suc.IH [OF stay] Suc.prems(2) show ?thesis by (auto dest: Suc_lessD)
  qed auto
qed

lemma queued_runs:
  assumes "\<And>i. kstep (r i) (r (Suc i))" and "\<And>i. \<exists>Q. config_inv (r i) Q" and "\<And>i. \<exists>d. curthr (st (r (Suc (i + d)))) \<noteq> curthr (st (r (i + d)))"
    and "queued_at t (st (r i)) n"
  shows "\<exists>j > i. curthr (st (r j)) = Some t"
  using assms(4)
proof (induction n arbitrary: i)
  case 0
  obtain d where "curthr (st (r (Suc (i + d)))) \<noteq> curthr (st (r (i + d)))" using assms(3) by blast
  from queued_until_switch [OF assms(1,2) 0 this] show ?case by auto
next
  case (Suc n)
  obtain d where "curthr (st (r (Suc (i + d)))) \<noteq> curthr (st (r (i + d)))" using assms(3) by blast
  from queued_until_switch [OF assms(1,2) Suc.prems this] Suc.IH show ?case by simp (meson less_trans)
qed

text \<open>
  C6: every runnable thread runs.  In every infinite run of the kernel in which the running thread gives up the processor to
  another one time and again, a thread that is on the run queue is the current thread at some later time.
\<close>

theorem runnable_thread_runs:
  assumes "r 0 = boot ts t0" and "\<And>i. kstep (r i) (r (Suc i))"
    and "\<And>i. \<exists>j \<ge> i. curthr (st (r (Suc j))) \<noteq> curthr (st (r j))"
    and "threads (st (r i)) t = Some th" and "kt_wchan th = Some Kt_runq"
  shows "\<exists>j > i. curthr (st (r j)) = Some t"
proof -
  have run: "kstep\<^sup>*\<^sup>* (boot ts t0) (r i)" for i
    by (induction i) (use assms(1,2) in \<open>auto intro: rtranclp.rtrancl_into_rtrancl\<close>)
  have inv: "\<exists>Q. config_inv (r i) Q" for i using runs_inv [OF run] .
  then obtain Q where "config_inv (r i) Q" by blast
  then have rep: "sched_rep (st (r i)) Q" by (simp add: config_inv_def sched_inv_def)
  from sched_repD(3) [OF rep, of t Kt_runq] have "t \<in> set (Q Kt_runq)" using assms(4,5) by (simp add: wchan_of_def)
  with rep obtain n where "queued_at t (st (r i)) n" unfolding queued_at_def in_set_conv_nth by blast
  moreover have "\<exists>d. curthr (st (r (Suc (i + d)))) \<noteq> curthr (st (r (i + d)))" for i using assms(3) [of i] by (metis le_iff_add)
  ultimately show ?thesis using queued_runs [where r = r, OF assms(2) inv] by blast
qed

text \<open>Two threads that yield to each other.\<close>

lemma yield_to:
  assumes "config_inv c Q" and "curthr (st c) = Some a" and "Q Kt_runq = [b]"
  shows "\<exists>c' Q'. kstep c c' \<and> config_inv c' Q' \<and> curthr (st c') = Some b \<and> Q' Kt_runq = [a]"
proof -
  from config_running [OF assms(1,2)] obtain th where th: "threads (st c) a = Some th" "kt_wchan th = None" by metis
  from sched_make_runnable_inv [OF _ th, of Q] assms(1,3) obtain s1 where s1: "sched_make_runnable a (st c) = Some s1"
      "sched_inv s1 (Q(Kt_runq := [b, a]))" "same_ctx (st c) s1" by (auto simp: config_inv_def)
  have "sched_rep s1 (Q(Kt_runq := [b, a]))" "(Q(Kt_runq := [b, a])) Kt_runq = b # [a]" "curthr s1 = Some a"
    using s1(2,3) assms(2) by (simp_all add: sched_inv_def same_ctx_def)
  from sched_switch_rep [OF this, of "irqs_of []"] obtain s' where s': "sched_switch (irqs_of []) s1 = Some (Switched s')"
      "sched_rep s' ((Q(Kt_runq := [b, a]))(Kt_runq := [a]))" "curthr s' = Some b" by blast
  have k: "kstep c (returned s' (pc c) (owns c))" by (rule kstep.yield [OF assms(2) s1(1) s'(1)]) simp
  from kstep_inv [OF this assms(1)] obtain Q' where Q': "config_inv (returned s' (pc c) (owns c)) Q'" by blast
  then have "Q' = (Q(Kt_runq := [b, a]))(Kt_runq := [a])"
    using s'(2) by (intro sched_rep_unique [of s']) (simp_all add: config_inv_def sched_inv_def)
  with k Q' s'(3) show ?thesis by (intro exI [of _ "returned s' (pc c) (owns c)"] exI [of _ Q']) simp
qed

definition alternating :: "nat \<Rightarrow> config \<Rightarrow> bool" where
  "alternating n c \<longleftrightarrow> (if n = 0 then c = boot [2] 1
    else \<exists>Q. config_inv c Q \<and> curthr (st c) = Some (if odd n then 1 else 2) \<and> Q Kt_runq = [if odd n then 2 else 1])"

lemma alternating_start: "\<exists>c'. kstep (boot [2] 1) c' \<and> alternating (Suc 0) c'"
proof -
  let ?c = "boot [2] 1"
  have th: "threads (st ?c) 2 = Some (new_thread KT_NO_STATE)" "kt_wchan (new_thread KT_NO_STATE) = None"
    by (simp_all add: boot_def new_thread_def)
  have inv: "sched_inv (st ?c) (\<lambda>_. [])" using boot_inv [of "[2]" 1] by (simp add: config_inv_def)
  from sched_make_runnable_inv [OF inv th] obtain s' where s': "sched_make_runnable 2 (st ?c) = Some s'"
      "sched_inv s' ((\<lambda>_. [])(Kt_runq := [2]))" "same_ctx (st ?c) s'" by auto
  have k: "kstep ?c (?c\<lparr>st := s'\<rparr>)" by (rule kstep.start [OF s'(1) th(1)]) (simp add: new_thread_def)
  from kstep_inv [OF k boot_inv] obtain Q' where Q': "config_inv (?c\<lparr>st := s'\<rparr>) Q'" by blast
  then have "Q' = (\<lambda>_. [])(Kt_runq := [2])"
    using s'(2) by (intro sched_rep_unique [of s']) (simp_all add: config_inv_def sched_inv_def)
  with k Q' s'(3) show ?thesis
    by (intro exI [of _ "?c\<lparr>st := s'\<rparr>"]) (auto simp: alternating_def same_ctx_def boot_def)
qed

lemma alternating_step:
  assumes "alternating n c"
  shows "\<exists>c'. alternating (Suc n) c' \<and> kstep c c' \<and> (0 < n \<longrightarrow> curthr (st c') \<noteq> curthr (st c))"
proof (cases "n = 0")
  case True
  with assms alternating_start show ?thesis by (auto simp: alternating_def)
next
  case False
  with assms obtain Q where Q: "config_inv c Q" "curthr (st c) = Some (if odd n then 1 else 2)" "Q Kt_runq = [if odd n then 2 else 1]"
    by (auto simp: alternating_def)
  from yield_to [OF this] obtain c' Q' where "kstep c c'" "config_inv c' Q'" "curthr (st c') = Some (if odd n then 2 else 1)"
    "Q' Kt_runq = [if odd n then 1 else 2]" by blast
  then show ?thesis using Q(2) by (intro exI [of _ c']) (auto simp: alternating_def)
qed

theorem runnable_thread_runs_witness:
  "\<exists>r th. r 0 = boot [2] 1 \<and> (\<forall>i. kstep (r i) (r (Suc i))) \<and> threads (st (r 1)) 2 = Some th \<and> kt_wchan th = Some Kt_runq \<and>
    (\<exists>j > 1. curthr (st (r j)) = Some 2)"
proof -
  have "\<exists>r. \<forall>n. alternating n (r n) \<and> (kstep (r n) (r (Suc n)) \<and> (0 < n \<longrightarrow> curthr (st (r (Suc n))) \<noteq> curthr (st (r n))))"
    by (rule dependent_nat_choice) (auto simp: alternating_def [of 0] intro: alternating_step)
  then obtain r where r: "\<And>n. alternating n (r n)" "\<And>n. kstep (r n) (r (Suc n))"
      "\<And>n. 0 < n \<Longrightarrow> curthr (st (r (Suc n))) \<noteq> curthr (st (r n))" by blast
  have r0: "r 0 = boot [2] 1" using r(1) [of 0] by (simp add: alternating_def)
  have fair: "\<exists>j \<ge> i. curthr (st (r (Suc j))) \<noteq> curthr (st (r j))" for i using r(3) [of "Suc i"] by (intro exI [of _ "Suc i"]) simp
  obtain Q where Q: "config_inv (r 1) Q" "Q Kt_runq = [2]" using r(1) [of 1] by (auto simp: alternating_def)
  then have "sched_rep (st (r 1)) Q" by (simp add: config_inv_def sched_inv_def)
  from sched_repD(3) [OF this, of 2 Kt_runq] Q(2) obtain th where th: "threads (st (r 1)) 2 = Some th" "kt_wchan th = Some Kt_runq"
    by (auto simp: wchan_of_def bind_eq_Some_conv)
  from runnable_thread_runs [OF r0 r(2) fair th] r0 r(2) th show ?thesis by blast
qed

end
