(* ===== verification/Kstring.thy ===== *)
theory Kstring
  imports Kprelude "HOL-Library.Word" "HOL-Library.Sublist"
begin

text \<open>
  The string routines of the kernel, util/string.c.  A pointer argument is the list of the bytes
  from the pointer to the end of the object it points into; running off the end of the object is
  \<^term>\<open>None\<close>.  A returned pointer is an offset from the argument, NULL is the inner \<^term>\<open>None\<close>.
  Source and destination are different objects.
\<close>

type_synonym byte = "8 word"

section \<open>Blocks of memory\<close>

text \<open>
  \<open>repe cmpsb\<close> leaves the flags of the last comparison, the 8-bit difference of the two bytes; with
  a count of 0 the zero flag is still set by the \<open>xor\<close>.
\<close>

fun memcmp :: "byte list \<Rightarrow> byte list \<Rightarrow> nat \<Rightarrow> int option" where
  "memcmp _ _ 0 = Some 0"
| "memcmp (c # cs) (d # ds) (Suc count) =
    (if c - d = 0 then memcmp cs ds count else Some (if sint (c - d) < 0 then - 1 else 1))"
| "memcmp _ _ (Suc count) = None"

fun memcpy :: "byte list \<Rightarrow> byte list \<Rightarrow> nat \<Rightarrow> byte list option" where
  "memcpy dest _ 0 = Some dest"
| "memcpy (_ # dest) (c # src) (Suc count) = map_option ((#) c) (memcpy dest src count)"
| "memcpy _ _ (Suc count) = None"

fun memset :: "byte list \<Rightarrow> int \<Rightarrow> nat \<Rightarrow> byte list option" where
  "memset s _ 0 = Some s"
| "memset (_ # s) c (Suc count) = map_option ((#) (word_of_int c)) (memset s c count)"
| "memset [] _ (Suc count) = None"

section \<open>Strings\<close>

text \<open>The difference of two characters is truncated to a signed char.\<close>

fun strncmp :: "byte list \<Rightarrow> byte list \<Rightarrow> nat \<Rightarrow> int option" where
  "strncmp _ _ 0 = Some 0"
| "strncmp (c # cs) (d # ds) (Suc count) =
    (let res = sint (c - d) in
     if res \<noteq> 0 \<or> c = 0 then Some res else strncmp cs ds count)"
| "strncmp _ _ (Suc count) = None"

fun strcmp :: "byte list \<Rightarrow> byte list \<Rightarrow> int option" where
  "strcmp (c # cs) (d # ds) =
    (let res = sint (c - d) in if res \<noteq> 0 \<or> c = 0 then Some res else strcmp cs ds)"
| "strcmp _ _ = None"

fun strcpy :: "byte list \<Rightarrow> byte list \<Rightarrow> byte list option" where
  "strcpy (_ # dest) (c # src) = (if c \<noteq> 0 then map_option ((#) c) (strcpy dest src) else Some (c # dest))"
| "strcpy _ _ = None"

fun strncpy :: "byte list \<Rightarrow> byte list \<Rightarrow> nat \<Rightarrow> byte list option" where
  "strncpy dest _ 0 = Some dest"
| "strncpy (_ # dest) (c # src) (Suc count) =
    (if c \<noteq> 0 then map_option ((#) c) (strncpy dest src count) else Some (c # dest))"
| "strncpy _ _ (Suc count) = None"

fun strnlen :: "byte list \<Rightarrow> nat \<Rightarrow> nat option" where
  "strnlen _ 0 = Some 0"
| "strnlen (c # s) (Suc count) = (if c \<noteq> 0 then map_option Suc (strnlen s count) else Some 0)"
| "strnlen [] (Suc count) = None"

fun strcat :: "byte list \<Rightarrow> byte list \<Rightarrow> byte list option" where
  "strcat (d # dest) src = (if d \<noteq> 0 then map_option ((#) d) (strcat dest src) else strcpy (d # dest) src)"
| "strcat [] _ = None"

fun strlen :: "byte list \<Rightarrow> nat option" where
  "strlen (c # s) = (if c \<noteq> 0 then map_option Suc (strlen s) else Some 0)"
| "strlen [] = None"

text \<open>The loops over a string carry the offset reached so far.\<close>

fun strchr_from :: "nat \<Rightarrow> byte list \<Rightarrow> byte \<Rightarrow> nat option option" where
  "strchr_from k (x # s) c = (if x = c then Some (Some k) else if x = 0 then Some None else strchr_from (k + 1) s c)"
| "strchr_from k [] c = None"

definition strchr :: "byte list \<Rightarrow> int \<Rightarrow> nat option option" where
  "strchr s c = strchr_from 0 s (word_of_int c)"

fun strrchr_from :: "nat \<Rightarrow> nat option \<Rightarrow> byte list \<Rightarrow> byte \<Rightarrow> nat option option" where
  "strrchr_from k r (x # s) c =
    (if x \<noteq> 0 then strrchr_from (k + 1) (if x = c then Some k else r) s c else Some r)"
| "strrchr_from k r [] c = None"

definition strrchr :: "byte list \<Rightarrow> int \<Rightarrow> nat option option" where
  "strrchr s c = strrchr_from 0 None s (word_of_int c)"

fun strstr_from :: "nat \<Rightarrow> nat \<Rightarrow> nat \<Rightarrow> byte list \<Rightarrow> byte list \<Rightarrow> nat option option" where
  "strstr_from k 0 l2 s1 s2 = Some None"
| "strstr_from k (Suc l1) l2 s1 s2 =
    (if Suc l1 \<ge> l2 then do {
       r \<leftarrow> memcmp s1 s2 l2;
       (if r = 0 then Some (Some k) else strstr_from (k + 1) l1 l2 (tl s1) s2)
     } else Some None)"

definition strstr :: "byte list \<Rightarrow> byte list \<Rightarrow> nat option option" where
  "strstr s1 s2 = do {
     l2 \<leftarrow> strlen s2;
     (if l2 = 0 then Some (Some 0)
      else do { l1 \<leftarrow> strlen s1; strstr_from 0 l1 l2 s1 s2 })
   }"

text \<open>The inner loops of strpbrk and strspn: does the set hold the character?\<close>

fun in_set :: "byte \<Rightarrow> byte list \<Rightarrow> bool option" where
  "in_set c (p # ps) = (if p = 0 then Some False else if p = c then Some True else in_set c ps)"
| "in_set c [] = None"

fun strpbrk_from :: "nat \<Rightarrow> byte list \<Rightarrow> byte list \<Rightarrow> nat option option" where
  "strpbrk_from k (c # s) brkset = do {
     b \<leftarrow> in_set c brkset;
     (if b then Some (Some k) else if c \<noteq> 0 then strpbrk_from (k + 1) s brkset else Some None)
   }"
| "strpbrk_from k [] brkset = None"

definition strpbrk :: "byte list \<Rightarrow> byte list \<Rightarrow> nat option option" where
  "strpbrk s brkset = strpbrk_from 0 s brkset"

fun strspn :: "byte list \<Rightarrow> byte list \<Rightarrow> nat option" where
  "strspn (c # s) charset =
    (if c \<noteq> 0 then do { b \<leftarrow> in_set c charset; (if b then map_option Suc (strspn s charset) else Some 0) }
     else Some 0)"
| "strspn [] charset = None"

text \<open>
  strtok keeps the position of the next token in its static variable \<open>savept\<close>, a pointer into one
  of the objects of the memory, and changes the string it works on in place.
\<close>

record strtok_state =
  st_mem :: "nat \<Rightarrow> byte list"
  savept :: "(nat \<times> nat) option"

definition strtok ::
    "(nat \<times> nat) option \<Rightarrow> byte list \<Rightarrow> strtok_state \<Rightarrow> ((nat \<times> nat) option \<times> strtok_state) option" where
  "strtok string sepset s =
    (case (case string of None \<Rightarrow> savept s | Some p \<Rightarrow> Some p) of
       None \<Rightarrow> Some (None, s)
     | Some (obj, p) \<Rightarrow> do {
         n \<leftarrow> strspn (drop p (st_mem s obj)) sepset;
         let q = p + n;
         kassert (q < length (st_mem s obj));
         (if st_mem s obj ! q = 0 then Some (None, s)
          else do {
            r \<leftarrow> strpbrk (drop q (st_mem s obj)) sepset;
            (case r of
               None \<Rightarrow> Some (Some (obj, q), s\<lparr>savept := None\<rparr>)
             | Some k \<Rightarrow> Some (Some (obj, q),
                 s\<lparr>st_mem := (st_mem s)(obj := (st_mem s obj)[q + k := 0]), savept := Some (obj, q + k + 1)\<rparr>))
          })
       })"

section \<open>Error messages\<close>

text \<open>The cases of strerror, by error number; NULL for every other number.\<close>

definition strerror_cases :: "(int \<times> string) list" where
  "strerror_cases = [
    (1, ''Not super-user''),
    (2, ''No such file or directory''),
    (3, ''No such process''),
    (4, ''interrupted system call''),
    (5, ''I/O error''),
    (6, ''No such device or address''),
    (7, ''Arg list too long''),
    (8, ''Exec format error''),
    (9, ''Bad file number''),
    (10, ''No children''),
    (11, ''Resource temporarily unavailable''),
    (12, ''Not enough core''),
    (13, ''Permission denied''),
    (14, ''Bad address''),
    (15, ''Block device required''),
    (16, ''Mount device busy''),
    (17, ''File exists''),
    (18, ''Cross-device link''),
    (19, ''No such device''),
    (20, ''Not a directory''),
    (21, ''Is a directory''),
    (22, ''Invalid argument''),
    (23, ''File table overflow''),
    (24, ''Too many open files''),
    (25, ''Inappropriate ioctl for device''),
    (26, ''Text file busy''),
    (27, ''File too large''),
    (28, ''No space left on device''),
    (29, ''Illegal seek''),
    (30, ''Read only file system''),
    (31, ''Too many links''),
    (32, ''Broken pipe''),
    (33, ''Math arg out of domain of func''),
    (34, ''Math result not representable''),
    (42, ''No message of desired type''),
    (43, ''Identifier removed''),
    (44, ''Channel number out of range''),
    (45, ''Level 2 not synchronized''),
    (46, ''Level 3 halted''),
    (47, ''Level 3 reset''),
    (48, ''Link number out of range''),
    (49, ''Protocol driver not attached''),
    (50, ''No CSI structure available''),
    (51, ''Level 2 halted''),
    (35, ''Deadlock condition.''),
    (37, ''No record locks available.''),
    (125, ''Operation canceled''),
    (95, ''Operation not supported''),
    (122, ''Disc quota exceeded''),
    (52, ''invalid exchange''),
    (53, ''invalid request descriptor''),
    (54, ''exchange full''),
    (55, ''no anode''),
    (56, ''invalid request code''),
    (57, ''invalid slot''),
    (59, ''bad font file fmt''),
    (60, ''Device not a stream''),
    (61, ''no data (for no delay io)''),
    (62, ''timer expired''),
    (63, ''out of streams resources''),
    (64, ''Machine is not on the network''),
    (65, ''Package not installed''),
    (66, ''The object is remote''),
    (67, ''the link has been severed''),
    (68, ''advertise error''),
    (69, ''srmount error''),
    (70, ''Communication error on send''),
    (71, ''Protocol error''),
    (72, ''multihop attempted''),
    (74, ''trying to read unreadable message''),
    (36, ''path name is too long''),
    (75, ''value too large to be stored in data type''),
    (76, ''given log. name not unique''),
    (77, ''f.d. invalid for this operation''),
    (78, ''Remote address changed''),
    (79, ''Can't access a needed shared lib.''),
    (80, ''Accessing a corrupted shared lib.''),
    (81, ''.lib section in a.out corrupted.''),
    (82, ''Attempting to link in too many libs.''),
    (83, ''Attempting to exec a shared library.''),
    (84, ''Illegal byte sequence.''),
    (38, ''Unsupported file system operation''),
    (40, ''Symbolic link loop''),
    (85, ''Restartable system call''),
    (86, ''if pipe/FIFO, don't sleep in stream head''),
    (39, ''directory not empty''),
    (87, ''Too many users (for UFS)''),
    (88, ''Socket operation on non-socket''),
    (89, ''Destination address required''),
    (90, ''Message too long''),
    (91, ''Protocol wrong type for socket''),
    (92, ''Protocol not available''),
    (93, ''Protocol not supported''),
    (94, ''Socket type not supported''),
    (96, ''Protocol family not supported''),
    (97, ''Address family not supported by protocol family''),
    (98, ''Address already in use''),
    (99, ''Can't assign requested address''),
    (100, ''Network is down''),
    (101, ''Network is unreachable''),
    (102, ''Network dropped connection because of reset''),
    (103, ''Software caused connection abort''),
    (104, ''Connection reset by peer''),
    (105, ''No buffer space available''),
    (106, ''Socket is already connected''),
    (107, ''Socket is not connected''),
    (108, ''Can't send after socket shutdown''),
    (109, ''Too many references: can't splice''),
    (110, ''Connection timed out''),
    (111, ''Connection refused''),
    (112, ''Host is down''),
    (113, ''No route to host''),
    (114, ''operation already in progress''),
    (115, ''operation now in progress''),
    (116, ''Stale NFS file handle'')]"

definition strerror :: "int \<Rightarrow> string option" where
  "strerror errnum = map_of strerror_cases errnum"

section \<open>What the routines compute\<close>

text \<open>The object holds the string \<open>x\<close> at its start: \<open>x\<close> has no null byte and is followed by one.\<close>

definition holds :: "byte list \<Rightarrow> byte list \<Rightarrow> bool" where
  "holds s x \<longleftrightarrow> 0 \<notin> set x \<and> (\<exists>r. s = x @ 0 # r)"

lemma holds_Nil [simp]: "holds s [] \<longleftrightarrow> (\<exists>r. s = 0 # r)"
  by (simp add: holds_def)

lemma holds_Cons [simp]: "holds s (c # x) \<longleftrightarrow> c \<noteq> 0 \<and> (\<exists>s'. s = c # s' \<and> holds s' x)"
  by (auto simp: holds_def)

lemma holds_unique: "holds s x \<Longrightarrow> holds s y \<Longrightarrow> x = y"
proof (induction x arbitrary: s y)
  case Nil
  then show ?case by (cases y) auto
next
  case (Cons c x)
  then show ?case by (cases y) auto
qed

lemma strlen_holds: "holds s x \<Longrightarrow> strlen s = Some (length x)"
  by (induction x arbitrary: s) auto

lemma strnlen_holds: "holds s x \<Longrightarrow> strnlen s n = Some (min n (length x))"
proof (induction x arbitrary: s n)
  case Nil
  then show ?case by (cases n) auto
next
  case (Cons c x)
  then show ?case by (cases n) auto
qed

lemma sint_zero8 [simp]: "sint (w :: byte) = 0 \<longleftrightarrow> w = 0"
  by (fact signed_eq_0_iff)

lemma strcpy_holds:
  "holds src x \<Longrightarrow> length x < length dest \<Longrightarrow> strcpy dest src = Some (x @ 0 # drop (length x + 1) dest)"
proof (induction x arbitrary: src dest)
  case Nil
  then show ?case by (cases dest) auto
next
  case (Cons c x)
  then show ?case by (cases dest) auto
qed

lemma strcpy_overflow: "holds src x \<Longrightarrow> length dest \<le> length x \<Longrightarrow> strcpy dest src = None"
proof (induction x arbitrary: src dest)
  case Nil
  then show ?case by simp
next
  case (Cons c x)
  then show ?case by (cases dest) auto
qed

lemma strcat_holds:
  "holds dest y \<Longrightarrow> holds src x \<Longrightarrow> length y + length x < length dest \<Longrightarrow>
   strcat dest src = Some (y @ x @ 0 # drop (length y + length x + 1) dest)"
proof (induction y arbitrary: dest)
  case Nil
  then obtain r where dest: "dest = 0 # r" by auto
  with strcpy_holds [OF Nil.prems(2), of dest] Nil.prems(3) show ?case by simp
next
  case (Cons c y)
  then show ?case by auto
qed

lemma memcmp_zero:
  "n \<le> length a \<Longrightarrow> n \<le> length b \<Longrightarrow> \<exists>r. memcmp a b n = Some r \<and> (r = 0 \<longleftrightarrow> take n a = take n b)"
proof (induction n arbitrary: a b)
  case 0
  then show ?case by simp
next
  case (Suc n)
  then obtain c a' d b' where ab: "a = c # a'" "b = d # b'" by (metis Suc_le_length_iff)
  with Suc show ?case by auto
qed

lemma memcpy_eq: "n \<le> length dest \<Longrightarrow> n \<le> length src \<Longrightarrow> memcpy dest src n = Some (take n src @ drop n dest)"
proof (induction n arbitrary: dest src)
  case 0
  then show ?case by simp
next
  case (Suc n)
  then obtain c a' d b' where "dest = c # a'" "src = d # b'" by (metis Suc_le_length_iff)
  with Suc show ?case by simp
qed

lemma memset_eq: "n \<le> length s \<Longrightarrow> memset s c n = Some (replicate n (word_of_int c) @ drop n s)"
proof (induction n arbitrary: s)
  case 0
  then show ?case by simp
next
  case (Suc n)
  then obtain d s' where "s = d # s'" by (metis Suc_le_length_iff)
  with Suc show ?case by simp
qed


lemma sint_byte: "sint (w :: byte) = (if uint w < 128 then uint w else uint w - 256)"
proof -
  have w: "0 \<le> uint w" "uint w < 256" using uint_bounded [of w] by simp_all
  have "sint w = (uint w + 128) mod 256 - 128"
    by (simp add: sint_uint signed_take_bit_eq_take_bit_shift take_bit_eq_mod)
  also have "(uint w + 128) mod 256 = (if uint w < 128 then uint w + 128 else uint w - 128)"
  proof (cases "uint w < 128")
    case True
    then show ?thesis by (simp only: if_True) (rule mod_pos_pos_trivial; use w True in linarith)
  next
    case False
    have "(uint w + 128) mod 256 = (uint w - 128 + 256) mod 256" by (simp add: add.commute)
    also have "\<dots> = (uint w - 128) mod 256" by (rule mod_add_self2)
    also have "\<dots> = uint w - 128" by (rule mod_pos_pos_trivial) (use w False in linarith)+
    finally show ?thesis using False by simp
  qed
  finally show ?thesis by simp
qed

lemma uint_diff_byte: "uint (c - d :: byte) = (uint c - uint d) mod 256"
  by (simp add: uint_word_ariths)

lemma sint_diff_less:
  assumes "uint (c :: byte) < 128" and "uint (d :: byte) < 128"
  shows "sint (c - d) < 0 \<longleftrightarrow> c < d"
proof -
  have nn: "0 \<le> uint c" "0 \<le> uint d" by simp_all
  have "(uint c - uint d) mod 256 = (if uint c < uint d then uint c - uint d + 256 else uint c - uint d)"
  proof (cases "uint c < uint d")
    case True
    have "(uint c - uint d) mod 256 = (uint c - uint d + 256) mod 256" by (rule mod_add_self2 [symmetric])
    also have "\<dots> = uint c - uint d + 256" by (rule mod_pos_pos_trivial) (use assms nn True in linarith)+
    finally show ?thesis using True by simp
  next
    case False
    have "(uint c - uint d) mod 256 = uint c - uint d" by (rule mod_pos_pos_trivial) (use assms nn False in linarith)+
    with False show ?thesis by simp
  qed
  then show ?thesis unfolding sint_byte uint_diff_byte word_less_def using assms nn
    by (simp only: split: if_split) linarith
qed

lemma strcmp_zero:
  assumes "holds s x" and "holds t y"
  shows "\<exists>r. strcmp s t = Some r \<and> (r = 0 \<longleftrightarrow> x = y)"
  using assms
proof (induction x arbitrary: s t y)
  case Nil
  then show ?case by (cases y) auto
next
  case (Cons c x)
  then show ?case by (cases y) auto
qed

lemma strcmp_less:
  assumes "holds s x" and "holds t y" and "\<forall>c \<in> set x \<union> set y. uint c < 128"
  shows "\<exists>r. strcmp s t = Some r \<and> (r < 0 \<longleftrightarrow> (x, y) \<in> lexord {(a, b). a < b})"
  using assms
proof (induction x arbitrary: s t y)
  case Nil
  then show ?case using sint_diff_less [of 0 "hd y"] by (cases y) (auto simp: word_gt_0)
next
  case (Cons c x)
  show ?case
  proof (cases y)
    case Nil
    with Cons.prems sint_diff_less [of c 0] show ?thesis by (auto simp: word_less_def)
  next
    case (Cons d z)
    with Cons.prems Cons.IH [of _ _ z] sint_diff_less [of c d] show ?thesis by auto
  qed
qed


text \<open>The first occurrence of a string in another.\<close>

definition find_sub :: "byte list \<Rightarrow> byte list \<Rightarrow> nat option" where
  "find_sub x y = List.find (\<lambda>k. prefix y (drop k x)) [0 ..< length x + 1]"

lemma find_upt_shift:
  "a < b \<Longrightarrow> List.find P [a ..< b] = (if P a then Some a else List.find P [Suc a ..< b])"
  by (simp add: upt_conv_Cons)

lemma strstr_from_find:
  assumes "holds s (drop k x)" and "holds t y" and "y \<noteq> []" and "k \<le> length x"
  shows "strstr_from k (length x - k) (length y) s t =
    Some (List.find (\<lambda>k. prefix y (drop k x)) [k ..< length x + 1])"
  using assms
proof (induction "length x - k" arbitrary: k s)
  case 0
  then have "k = length x" by simp
  then show ?case using \<open>y \<noteq> []\<close> by (simp add: find_upt_shift)
next
  case (Suc l)
  have k: "k < length x" using Suc.hyps(2) by simp
  then obtain c where c: "drop k x = c # drop (Suc k) x" by (metis Cons_nth_drop_Suc)
  with Suc.prems(1) obtain s' where s': "s = c # s'" "holds s' (drop (Suc k) x)" by auto
  have l: "length x - k = Suc l" "l = length x - Suc k" using Suc.hyps(2) by auto
  have IH: "strstr_from (Suc k) l (length y) s' t = Some (List.find (\<lambda>k. prefix y (drop k x)) [Suc k ..< length x + 1])"
    using Suc.hyps(1) [OF l(2) s'(2) Suc.prems(2,3)] k unfolding l(2) by simp
  obtain r1 where sr: "s = drop k x @ 0 # r1" using Suc.prems(1) by (auto simp: holds_def)
  obtain r2 where tr: "t = y @ 0 # r2" using Suc.prems(2) by (auto simp: holds_def)
  show ?case
  proof (cases "length y \<le> Suc l")
    case True
    have "length y \<le> length s" "length y \<le> length t" using True l k by (simp_all add: sr tr)
    from memcmp_zero [OF this] obtain r where r: "memcmp s t (length y) = Some r"
      "r = 0 \<longleftrightarrow> take (length y) s = take (length y) t" by blast
    have "take (length y) s = take (length y) (drop k x)" using True l(1) by (simp add: sr)
    then have "r = 0 \<longleftrightarrow> prefix y (drop k x)" using r(2) by (auto simp: tr prefix_def) (metis append_take_drop_id)
    then show ?thesis using r(1) IH True k s'(1) unfolding l(1) by (simp add: find_upt_shift [of k] del: upt_Suc)
  next
    case False
    have "\<not> prefix y (drop j x)" if "k \<le> j" for j using False l(1) that by (auto dest: prefix_length_le)
    then have "List.find (\<lambda>k. prefix y (drop k x)) [k ..< length x + 1] = None" by (auto simp: find_None_iff)
    then show ?thesis using False unfolding l(1) by simp
  qed
qed

lemma strstr_find:
  assumes "holds s x" and "holds t y"
  shows "strstr s t = Some (find_sub x y)"
proof (cases "y = []")
  case True
  then show ?thesis using strlen_holds [OF assms(2)] by (simp add: strstr_def find_sub_def find_upt_shift del: upt_Suc)
next
  case False
  then show ?thesis using strlen_holds [OF assms(1)] strlen_holds [OF assms(2)] strstr_from_find [of s 0 x t y] assms
    by (simp add: strstr_def find_sub_def)
qed


section \<open>Splitting a string into tokens\<close>

text \<open>The tokens of a string: its maximal runs of characters that are no separators.\<close>

function tokens :: "byte set \<Rightarrow> byte list \<Rightarrow> byte list list" where
  "tokens S x =
    (let y = dropWhile (\<lambda>c. c \<in> S) x in
     if y = [] then [] else takeWhile (\<lambda>c. c \<notin> S) y # tokens S (dropWhile (\<lambda>c. c \<notin> S) y))"
  by pat_completeness auto
termination
proof (relation "measure (\<lambda>(S, x). length x)")
  fix S :: "byte set" and x y
  assume y: "y = dropWhile (\<lambda>c. c \<in> S) x" "y \<noteq> []"
  then have "hd y \<notin> S" using hd_dropWhile [of "\<lambda>c. c \<in> S" x] by simp
  then obtain c z where "y = c # z" "c \<notin> S" using y(2) by (cases y) auto
  then have "length (dropWhile (\<lambda>c. c \<notin> S) y) < length y" using length_dropWhile_le [of _ z] by (simp add: le_imp_less_Suc)
  also have "\<dots> \<le> length x" unfolding y(1) by (rule length_dropWhile_le)
  finally show "((S, dropWhile (\<lambda>c. c \<notin> S) y), S, x) \<in> measure (\<lambda>(S, x). length x)" by simp
qed simp

declare tokens.simps [simp del]

lemma in_set_holds: "holds p S \<Longrightarrow> in_set c p = Some (c \<in> set S)"
  by (induction S arbitrary: p) auto

lemma strspn_holds: "holds s x \<Longrightarrow> holds p S \<Longrightarrow> strspn s p = Some (length (takeWhile (\<lambda>c. c \<in> set S) x))"
  by (induction x arbitrary: s) (auto simp: in_set_holds)

lemma strpbrk_from_holds:
  assumes "holds s x" and "holds p S"
  shows "strpbrk_from k s p = Some (if \<exists>c \<in> set x. c \<in> set S
    then Some (k + length (takeWhile (\<lambda>c. c \<notin> set S) x)) else None)"
proof -
  have "0 \<notin> set S" using assms(2) by (simp add: holds_def)
  then show ?thesis using assms(1) by (induction x arbitrary: s k) (auto simp: in_set_holds [OF assms(2)])
qed

text \<open>The string that starts at offset \<open>p\<close> of an object.\<close>

fun cstring :: "byte list \<Rightarrow> byte list option" where
  "cstring (c # s) = (if c = 0 then Some [] else map_option ((#) c) (cstring s))"
| "cstring [] = None"

lemma cstring_holds: "holds s x \<Longrightarrow> cstring s = Some x"
  by (induction x arbitrary: s) auto

text \<open>
  The usual loop over the tokens of a string: \<open>strtok (s, sep)\<close> and then \<open>strtok (NULL, sep)\<close> until it
  returns NULL, reading each token where the returned pointer points.
\<close>

fun strtok_loop :: "nat \<Rightarrow> (nat \<times> nat) option \<Rightarrow> byte list \<Rightarrow> strtok_state \<Rightarrow> byte list list option" where
  "strtok_loop 0 string sepset s = None"
| "strtok_loop (Suc n) string sepset s = do {
     (r, s1) \<leftarrow> strtok string sepset s;
     (case r of
        None \<Rightarrow> Some []
      | Some (obj, q) \<Rightarrow> do {
          tok \<leftarrow> cstring (drop q (st_mem s1 obj));
          rest \<leftarrow> strtok_loop n None sepset s1;
          Some (tok # rest)
        })
   }"

lemma holds_drop: "holds s x \<Longrightarrow> k \<le> length x \<Longrightarrow> holds (drop k s) (drop k x)"
  by (auto simp: holds_def dest: in_set_dropD)

lemma holds_terminate:
  assumes "holds s x" and "k \<le> length x"
  shows "holds (s[k := 0]) (take k x)"
proof -
  obtain r where s: "s = x @ 0 # r" "0 \<notin> set x" using assms(1) by (auto simp: holds_def)
  have "s[k := 0] = take k x @ 0 # drop (Suc k) s" using assms(2) s(1)
    by (simp add: upd_conv_take_nth_drop)
  then show ?thesis using s(2) by (auto simp: holds_def dest: in_set_takeD)
qed


lemma holds_nth:
  assumes "holds (drop p b) y"
  shows "p + length y < length b" and "b ! (p + length y) = 0" and "i < length y \<Longrightarrow> b ! (p + i) = y ! i"
proof -
  obtain r where r: "drop p b = y @ 0 # r" using assms by (auto simp: holds_def)
  have "length b - p = length y + Suc (length r)" using arg_cong [OF r, of length] by simp
  then show len: "p + length y < length b" by simp
  have nth: "b ! (p + i) = (y @ 0 # r) ! i" for i using len unfolding r [symmetric] by simp
  show "b ! (p + length y) = 0" by (simp add: nth)
  show "i < length y \<Longrightarrow> b ! (p + i) = y ! i" by (simp add: nth nth_append)
qed

lemma strtok_none:
  assumes "(case string of None \<Rightarrow> savept s | Some p \<Rightarrow> Some p) = Some (obj, p)"
    and "holds (drop p (st_mem s obj)) y" and "holds sepset S" and "dropWhile (\<lambda>c. c \<in> set S) y = []"
  shows "strtok string sepset s = Some (None, s)"
proof -
  note holds_nth(1,2) [OF assms(2)]
  moreover have "strspn (drop p (st_mem s obj)) sepset = Some (length y)"
    using strspn_holds [OF assms(2,3)] assms(4) by (metis append_Nil2 takeWhile_dropWhile_id)
  ultimately show ?thesis using assms(1) by (simp add: strtok_def kassert_bind_True)
qed

lemma strtok_some:
  fixes y S
  defines "z \<equiv> dropWhile (\<lambda>c. c \<in> set S) y" and "n \<equiv> length (takeWhile (\<lambda>c. c \<in> set S) y)"
  assumes ptr: "(case string of None \<Rightarrow> savept s | Some p \<Rightarrow> Some p) = Some (obj, p)"
    and y: "holds (drop p (st_mem s obj)) y" and S: "holds sepset S" and z: "z \<noteq> []"
  shows "\<exists>s'. strtok string sepset s = Some (Some (obj, p + n), s') \<and>
    holds (drop (p + n) (st_mem s' obj)) (takeWhile (\<lambda>c. c \<notin> set S) z) \<and>
    (case dropWhile (\<lambda>c. c \<notin> set S) z of
       [] \<Rightarrow> savept s' = None
     | _ # rest \<Rightarrow> \<exists>p'. savept s' = Some (obj, p') \<and> holds (drop p' (st_mem s' obj)) rest)"
proof -
  let ?b = "st_mem s obj" let ?t = "takeWhile (\<lambda>c. c \<notin> set S) z" let ?d = "dropWhile (\<lambda>c. c \<notin> set S) z"
  have "y = takeWhile (\<lambda>c. c \<in> set S) y @ z" by (simp add: z_def)
  then have "drop n y = z" "n \<le> length y" unfolding n_def by (metis append_eq_conv_conj, metis length_takeWhile_le)
  then have hz: "holds (drop (p + n) ?b) z" using holds_drop [OF y, of n] by (simp add: add.commute)
  obtain c z' where cz: "z = c # z'" using z by (cases z) auto
  then have "c \<noteq> 0" "?b ! (p + n) = c" "p + n < length ?b"
    using hz holds_nth(1) [OF hz] holds_nth(3) [OF hz, of 0] by auto
  note start = strspn_holds [OF y S, folded n_def] strpbrk_from_holds [OF hz S, of 0] this
  show ?thesis
  proof (cases "?d")
    case Nil
    then have "\<not> (\<exists>c \<in> set z. c \<in> set S)" "?t = z" by simp_all
    then show ?thesis using start ptr hz Nil
      by (simp add: strtok_def strpbrk_def del: dropWhile_eq_Nil_conv takeWhile_eq_all_conv)
  next
    case (Cons e rest)
    let ?q = "p + n + length ?t"
    let ?s = "s\<lparr>st_mem := (st_mem s)(obj := ?b[?q := 0]), savept := Some (obj, ?q + 1)\<rparr>"
    have zz: "z = ?t @ e # rest" using Cons by (metis takeWhile_dropWhile_id)
    have "\<exists>c \<in> set z. c \<in> set S" using Cons by (metis dropWhile_eq_Nil_conv list.distinct(1))
    then have "strtok string sepset s = Some (Some (obj, p + n), ?s)"
      using start ptr by (simp add: strtok_def strpbrk_def Let_def)
    moreover have "holds (drop (p + n) (?b[?q := 0])) ?t"
    proof -
      have "take (length ?t) z = ?t" "length ?t \<le> length z" by (metis append_eq_conv_conj zz, rule length_takeWhile_le)
      then show ?thesis using holds_terminate [OF hz, of "length ?t"] by (simp add: drop_update_swap)
    qed
    moreover have "holds (drop (?q + 1) (?b[?q := 0])) rest"
    proof -
      have "drop (length ?t + 1) z = rest" using arg_cong [OF zz, of "drop (length ?t + 1)"] by simp
      moreover have "length ?t + 1 \<le> length z" using arg_cong [OF zz, of length] by simp
      ultimately show ?thesis using holds_drop [OF hz, of "length ?t + 1"] by (simp add: ac_simps)
    qed
    ultimately show ?thesis using Cons by auto
  qed
qed


lemma tokens_rest:
  assumes "dropWhile (\<lambda>c. c \<notin> S) z = e # rest"
  shows "tokens S (e # rest) = tokens S rest"
proof -
  have "e \<in> S" using hd_dropWhile [of "\<lambda>c. c \<notin> S" z] assms by simp
  then show ?thesis by (simp add: tokens.simps [of S "e # rest"] tokens.simps [of S rest])
qed

lemma strtok_loop_tokens:
  assumes "(case string of None \<Rightarrow> savept s | Some p \<Rightarrow> Some p) = Some (obj, p)"
    and "holds (drop p (st_mem s obj)) y" and S: "holds sepset S" and "length y < n"
  shows "strtok_loop n string sepset s = Some (tokens (set S) y)"
  using assms(1,2,4)
proof (induction n arbitrary: string s p y)
  case 0
  then show ?case by simp
next
  case (Suc n)
  let ?z = "dropWhile (\<lambda>c. c \<in> set S) y"
  show ?case
  proof (cases "?z = []")
    case True
    from strtok_none [OF Suc.prems(1,2) S True] True show ?thesis by (subst tokens.simps) simp
  next
    case False
    from strtok_some [OF Suc.prems(1,2) S False] obtain q s' where
      step: "strtok string sepset s = Some (Some (obj, q), s')" and
      tok: "holds (drop q (st_mem s' obj)) (takeWhile (\<lambda>c. c \<notin> set S) ?z)" and
      next_tok: "case dropWhile (\<lambda>c. c \<notin> set S) ?z of [] \<Rightarrow> savept s' = None
        | _ # rest \<Rightarrow> \<exists>p'. savept s' = Some (obj, p') \<and> holds (drop p' (st_mem s' obj)) rest" by blast
    have "strtok_loop n None sepset s' = Some (tokens (set S) (dropWhile (\<lambda>c. c \<notin> set S) ?z))"
    proof (cases "dropWhile (\<lambda>c. c \<notin> set S) ?z")
      case Nil
      obtain m where "n = Suc m" using Suc.prems(3) False by (cases n) auto
      with Nil next_tok show ?thesis by (simp add: strtok_def tokens.simps [of _ "[]"] del: dropWhile_eq_Nil_conv)
    next
      case (Cons e rest)
      then obtain p' where "savept s' = Some (obj, p')" "holds (drop p' (st_mem s' obj)) rest" using next_tok by auto
      moreover have "length (e # rest) \<le> length y"
        unfolding Cons [symmetric] by (meson le_trans length_dropWhile_le)
      ultimately show ?thesis using Suc.IH [where string = None and s = s' and p = p' and y = rest] Suc.prems(3) Cons tokens_rest [OF Cons] by simp
    qed
    then show ?thesis using step cstring_holds [OF tok] False by (subst tokens.simps) (simp add: Let_def)
  qed
qed


section \<open>Properties\<close>

text \<open>
  C12: strcmp of two strings returns 0 exactly when they are equal, and for strings of 7-bit
  characters a negative result exactly when the first is lexicographically smaller.
\<close>

theorem strcmp_correct:
  assumes "holds s x" and "holds t y"
  shows "\<exists>r. strcmp s t = Some r \<and> (r = 0 \<longleftrightarrow> x = y) \<and>
    ((\<forall>c \<in> set x \<union> set y. uint c < 128) \<longrightarrow> (r < 0 \<longleftrightarrow> (x, y) \<in> lexord {(a, b). a < b}))"
  using strcmp_zero [OF assms] strcmp_less [OF assms] by fastforce

theorem strcmp_correct_witness:
  "strcmp [97, 98, 0] [97, 99, 100, 0] = Some (- 1) \<and> ([97, 98], [97, 99, 100]) \<in> lexord {(a, b :: byte). a < b}"
  using strcmp_correct [of "[97, 98, 0]" "[97, 98]" "[97, 99, 100, 0]" "[97, 99, 100]"] by simp

text \<open>
  C13: strstr returns the position of the first occurrence of the second string in the first, and
  NULL exactly when there is none.
\<close>

theorem strstr_first_occurrence:
  assumes "holds s x" and "holds t y"
  shows "\<exists>r. strstr s t = Some r \<and>
    (case r of
       None \<Rightarrow> \<forall>k. \<not> prefix y (drop k x) \<or> length x < k
     | Some k \<Rightarrow> k \<le> length x \<and> prefix y (drop k x) \<and> (\<forall>j < k. \<not> prefix y (drop j x)))"
proof (cases "find_sub x y")
  case None
  have "\<not> prefix y (drop k x)" if "k \<le> length x" for k
    using None that unfolding find_sub_def find_None_iff by (simp del: upt_Suc)
  then have "\<forall>k. \<not> prefix y (drop k x) \<or> length x < k" using not_less by blast
  then show ?thesis using strstr_find [OF assms] None by simp
next
  case (Some k)
  then obtain i where i: "i < length x + 1" "prefix y (drop ([0 ..< length x + 1] ! i) x)" "k = [0 ..< length x + 1] ! i"
    "\<forall>j < i. \<not> prefix y (drop ([0 ..< length x + 1] ! j) x)"
    unfolding find_sub_def find_Some_iff by (auto simp del: upt_Suc)
  have nth: "[0 ..< length x + 1] ! j = j" if "j < length x + 1" for j using that by (simp del: upt_Suc)
  have "\<forall>j < i. \<not> prefix y (drop j x)" using i(1,4) nth by (metis less_trans)
  then have "k \<le> length x \<and> prefix y (drop k x) \<and> (\<forall>j < k. \<not> prefix y (drop j x))"
    using i(1-3) nth [OF i(1)] by simp
  then show ?thesis using strstr_find [OF assms] Some by simp
qed

theorem strstr_first_occurrence_witness:
  "strstr [97, 98, 97, 98, 99, 0] [98, 99, 0] = Some (Some 3) \<and> prefix [98, 99] (drop 3 [97, 98, 97, 98, 99 :: byte])"
proof -
  have "strstr [97, 98, 97, 98, 99, 0] [98, 99, 0] = Some (Some 3)" by (simp add: strstr_def)
  then show ?thesis
    using strstr_first_occurrence [of "[97, 98, 97, 98, 99, 0]" "[97, 98, 97, 98, 99]" "[98, 99, 0]" "[98, 99]"] by simp
qed

text \<open>
  C14: Calling strtok first on a string and then on NULL until it returns NULL yields exactly the
  tokens of the string, its maximal runs of characters outside the separator set, in order, and ends after
  at most one call more than the string has characters.
\<close>

theorem strtok_yields_tokens:
  assumes "holds (st_mem s obj) x" and "holds sepset S" and "length x < n"
  shows "strtok_loop n (Some (obj, 0)) sepset s = Some (tokens (set S) x)"
  using strtok_loop_tokens [where string = "Some (obj, 0)" and s = s and p = 0 and y = x] assms by simp

theorem strtok_yields_tokens_witness:
  "strtok_loop 6 (Some (7, 0)) [32, 0] \<lparr>st_mem = (\<lambda>_. [32, 97, 98, 32, 99, 0]), savept = None\<rparr> = Some [[97, 98], [99]]"
  using strtok_yields_tokens [of "\<lparr>st_mem = (\<lambda>_. [32, 97, 98, 32, 99, 0]), savept = None\<rparr>" 7 "[32, 97, 98, 32, 99]"
      "[32, 0]" "[32]" 6]
  by (simp add: tokens.simps)

text \<open>
  C15: strcpy copies a string with its terminator exactly when the destination has room for both, and
  changes nothing behind them; the copy reads back as the same string, whatever follows it.
\<close>

theorem strcpy_copies:
  assumes "holds src x"
  shows "(case strcpy dest src of
      None \<Rightarrow> length dest \<le> length x
    | Some d \<Rightarrow> length x < length dest \<and> length d = length dest \<and> holds d x \<and> strlen d = strlen src \<and> strcmp d src = Some 0 \<and>
        (\<forall>k. length x < k \<and> k < length dest \<longrightarrow> d ! k = dest ! k))"
proof (cases "length x < length dest")
  case True
  note c = strcpy_holds [OF assms True]
  have h: "holds (x @ 0 # drop (length x + 1) dest) x" using assms by (simp add: holds_def)
  have "\<forall>k. length x < k \<and> k < length dest \<longrightarrow> (x @ 0 # drop (length x + 1) dest) ! k = dest ! k"
    by (auto simp: nth_append nth_Cons' )
  then show ?thesis
    using c h True strlen_holds [OF h] strlen_holds [OF assms] strcmp_zero [OF h assms] by auto
next
  case False
  then show ?thesis using strcpy_overflow [OF assms, of dest] by simp
qed

theorem strcpy_copies_witness:
  "strcpy [1, 2, 3, 4] [97, 0, 5] = Some [97, 0, 3, 4] \<and> strlen [97, 0, 3, 4] = Some 1 \<and> strcpy [1] [97, 0] = None"
  using strcpy_copies [of "[97, 0, 5]" "[97]" "[1, 2, 3, 4]"] strcpy_copies [of "[97, 0]" "[97]" "[1]"] by simp

end
