(* ===== verification/Ramfs.thy ===== *)
theory Ramfs
  imports Kstring
begin

text \<open>
  The file system in memory, fs/ramfs/ramfs.c, and the reference counts of vnodes, fs/vnode.c.  The state
  holds the inodes of the file system and the vnodes that are in use.  The kernel is built without mount points, so there
  is one file system, and a vnode in use is found by its number: the list of vnodes in use is a map.
  Pointers to vnodes are vnode numbers; a pointer to a vnode that was freed stops the kernel when it is
  followed.  Files of this file system have no resident pages, and reading an inode does not block.

  Arguments of the operations: whether kmalloc and page\_alloc return memory, and which devices the device
  tables hold (bytedev\_lookup, blockdev\_lookup), a part of the state.  The slab allocator always has a vnode
  (vget tries again until it has).
\<close>

section \<open>Inodes and directories\<close>

datatype rf_type = RAMFS_TYPE_DATA | RAMFS_TYPE_DIR | RAMFS_TYPE_CHR | RAMFS_TYPE_BLK

record ramfs_dirent =
  rd_ino :: nat
  rd_name :: "byte list"

text \<open>What \<open>rf_mem\<close> is: a page of data, a page of directory entries, or a device identifier.\<close>

datatype rf_contents = Page_data "byte list" | Page_dirents "ramfs_dirent list" | Devid nat

record ramfs_inode =
  rf_size :: int
  rf_ino :: nat
  rf_mem :: rf_contents
  rf_mode :: rf_type
  rf_linkcount :: int

datatype vnode_ops = Ramfs_dir_vops | Ramfs_file_vops | Bytedev_spec_vops | Blockdev_spec_vops

record vnode =
  vn_ops :: vnode_ops
  vn_refcount :: int
  vn_mode :: int
  vn_len :: int
  vn_devid :: nat
  vn_cdev :: "nat option"

record vfs =
  rfs_inodes :: "nat \<rightharpoonup> ramfs_inode"
  vnodes :: "nat \<rightharpoonup> vnode"
  bytedevs :: "nat \<rightharpoonup> nat"
  blockdevs :: "nat \<rightharpoonup> nat"

abbreviation (input) RAMFS_MAX_FILES :: nat where "RAMFS_MAX_FILES \<equiv> 64"
abbreviation (input) RAMFS_MAX_DIRENT :: nat where "RAMFS_MAX_DIRENT \<equiv> 128"
abbreviation (input) NAME_LEN :: nat where "NAME_LEN \<equiv> 28"
abbreviation (input) S_IFCHR :: int where "S_IFCHR \<equiv> 256"
abbreviation (input) S_IFDIR :: int where "S_IFDIR \<equiv> 512"
abbreviation (input) S_IFBLK :: int where "S_IFBLK \<equiv> 1024"
abbreviation (input) S_IFREG :: int where "S_IFREG \<equiv> 2048"

definition put_inode :: "nat \<Rightarrow> ramfs_inode \<Rightarrow> vfs \<Rightarrow> vfs" where
  "put_inode i n s = s\<lparr>rfs_inodes := (rfs_inodes s)(i \<mapsto> n)\<rparr>"

definition put_vnode :: "nat \<Rightarrow> vnode \<Rightarrow> vfs \<Rightarrow> vfs" where
  "put_vnode v n s = s\<lparr>vnodes := (vnodes s)(v \<mapsto> n)\<rparr>"

text \<open>\<open>VNODE_TO_DIRENT\<close>: the entries of a directory's page.\<close>

definition dirents :: "vfs \<Rightarrow> nat \<Rightarrow> ramfs_dirent list option" where
  "dirents s v = do {
     inode \<leftarrow> rfs_inodes s v;
     (case rf_mem inode of Page_dirents ds \<Rightarrow> Some ds | _ \<Rightarrow> None)
   }"

definition set_dirents :: "nat \<Rightarrow> ramfs_dirent list \<Rightarrow> int \<Rightarrow> vfs \<Rightarrow> vfs option" where
  "set_dirents v ds sz s = do {
     inode \<leftarrow> rfs_inodes s v;
     Some (put_inode v (inode\<lparr>rf_mem := Page_dirents ds, rf_size := sz\<rparr>) s)
   }"

section \<open>References to vnodes\<close>

definition vref :: "nat \<Rightarrow> vfs \<Rightarrow> vfs option" where
  "vref v s = do {
     vn \<leftarrow> vnodes s v;
     kassert (0 < vn_refcount vn);
     Some (put_vnode v (vn\<lparr>vn_refcount := vn_refcount vn + 1\<rparr>) s)
   }"

text \<open>
  ramfs\_read\_vnode and init\_special\_vnode: the vnode's fields by the type of its inode; the reference count is
  set by vget.
\<close>

definition init_special_vnode :: "nat \<Rightarrow> rf_type \<Rightarrow> vfs \<Rightarrow> vnode \<Rightarrow> vnode" where
  "init_special_vnode devid type s vn =
    (if type = RAMFS_TYPE_CHR then vn\<lparr>vn_ops := Bytedev_spec_vops, vn_cdev := bytedevs s devid\<rparr>
     else vn\<lparr>vn_ops := Blockdev_spec_vops, vn_cdev := blockdevs s devid\<rparr>)"

definition ramfs_read_vnode :: "nat \<Rightarrow> vfs \<Rightarrow> (vnode \<times> vfs) option" where
  "ramfs_read_vnode v s = do {
     inode \<leftarrow> rfs_inodes s v;
     kassert (rf_ino inode = v);
     let s1 = put_inode v (inode\<lparr>rf_linkcount := rf_linkcount inode + 1\<rparr>) s;
     let vn = \<lparr>vn_ops = Ramfs_file_vops, vn_refcount = 0, vn_mode = S_IFREG, vn_len = rf_size inode, vn_devid = 0, vn_cdev = None\<rparr>;
     (case rf_mode inode of
        RAMFS_TYPE_DATA \<Rightarrow> Some (vn, s1)
      | RAMFS_TYPE_DIR \<Rightarrow> Some (vn\<lparr>vn_mode := S_IFDIR, vn_ops := Ramfs_dir_vops\<rparr>, s1)
      | RAMFS_TYPE_CHR \<Rightarrow> (case rf_mem inode of
            Devid d \<Rightarrow> Some (init_special_vnode d RAMFS_TYPE_CHR s (vn\<lparr>vn_mode := S_IFCHR, vn_devid := d\<rparr>), s1) | _ \<Rightarrow> None)
      | RAMFS_TYPE_BLK \<Rightarrow> (case rf_mem inode of
            Devid d \<Rightarrow> Some (init_special_vnode d RAMFS_TYPE_BLK s (vn\<lparr>vn_mode := S_IFBLK, vn_devid := d\<rparr>), s1) | _ \<Rightarrow> None))
   }"

definition vget :: "nat \<Rightarrow> vfs \<Rightarrow> vfs option" where
  "vget v s =
    (case vnodes s v of
       Some vn \<Rightarrow> vref v s
     | None \<Rightarrow> do {
         (vn, s1) \<leftarrow> ramfs_read_vnode v s;
         Some (put_vnode v (vn\<lparr>vn_refcount := 1\<rparr>) s1)
       })"

definition ramfs_query_vnode :: "nat \<Rightarrow> vfs \<Rightarrow> bool option" where
  "ramfs_query_vnode v s = do { inode \<leftarrow> rfs_inodes s v; Some (rf_linkcount inode > 1) }"

definition ramfs_delete_vnode :: "nat \<Rightarrow> vfs \<Rightarrow> vfs option" where
  "ramfs_delete_vnode v s = do {
     inode \<leftarrow> rfs_inodes s v;
     let n = rf_linkcount inode - 1;
     (if n = 0 then Some (s\<lparr>rfs_inodes := (rfs_inodes s)(v := None)\<rparr>)
      else Some (put_inode v (inode\<lparr>rf_linkcount := n\<rparr>) s))
   }"

definition vput :: "nat \<Rightarrow> vfs \<Rightarrow> vfs option" where
  "vput v s = do {
     vn \<leftarrow> vnodes s v;
     kassert (0 < vn_refcount vn);
     _ \<leftarrow> (if vn_refcount vn - 1 = 0 then ramfs_query_vnode v s else Some True);
     (if 0 < vn_refcount vn - 1 then Some (put_vnode v (vn\<lparr>vn_refcount := vn_refcount vn - 1\<rparr>) s)
      else do {
        s1 \<leftarrow> ramfs_delete_vnode v s;
        Some (s1\<lparr>vnodes := (vnodes s1)(v := None)\<rparr>)
      })
   }"

text \<open>Whether vnodes are in use beyond the root's own reference, and how many are in memory.\<close>

definition vnode_numbers :: "vfs \<Rightarrow> nat list" where
  "vnode_numbers s = [v \<leftarrow> [0 ..< RAMFS_MAX_FILES]. vnodes s v \<noteq> None]"

fun vfs_in_use_from :: "nat list \<Rightarrow> int \<Rightarrow> vfs \<Rightarrow> int option" where
  "vfs_in_use_from [] ret s = Some ret"
| "vfs_in_use_from (v # vs) ret s = do {
     vn \<leftarrow> vnodes s v;
     kassert (0 \<le> vn_refcount vn);
     kassert (v = 0 \<longrightarrow> 1 \<le> vn_refcount vn);
     vfs_in_use_from vs (if (if v = 0 then 1 < vn_refcount vn else vn_refcount vn \<noteq> 0) then - EBUSY else ret) s
   }"

definition vfs_is_in_use :: "vfs \<Rightarrow> int option" where
  "vfs_is_in_use s = vfs_in_use_from (vnode_numbers s) 0 s"

definition vnode_inuse :: "vfs \<Rightarrow> nat" where
  "vnode_inuse s = length (vnode_numbers s)"

section \<open>Allocating inodes, mounting\<close>

definition zero_dirent :: ramfs_dirent where
  "zero_dirent = \<lparr>rd_ino = 0, rd_name = replicate NAME_LEN 0\<rparr>"

definition new_contents :: "rf_type \<Rightarrow> nat \<Rightarrow> rf_contents" where
  "new_contents type devid =
    (case type of
       RAMFS_TYPE_DATA \<Rightarrow> Page_data (replicate 4096 0)
     | RAMFS_TYPE_DIR \<Rightarrow> Page_dirents (replicate RAMFS_MAX_DIRENT zero_dirent)
     | _ \<Rightarrow> Devid devid)"

definition ramfs_alloc_inode :: "bool \<Rightarrow> bool \<Rightarrow> rf_type \<Rightarrow> nat \<Rightarrow> vfs \<Rightarrow> int \<times> vfs" where
  "ramfs_alloc_inode kmalloc_ok page_ok type devid s =
    (case List.find (\<lambda>i. rfs_inodes s i = None) [0 ..< RAMFS_MAX_FILES] of
       None \<Rightarrow> (- ENOSPC, s)
     | Some i \<Rightarrow>
         if \<not> kmalloc_ok then (- ENOSPC, s)
         else if \<not> (type = RAMFS_TYPE_CHR \<or> type = RAMFS_TYPE_BLK) \<and> \<not> page_ok then (- ENOSPC, s)
         else (int i, put_inode i \<lparr>rf_size = 0, rf_ino = i, rf_mem = new_contents type devid, rf_mode = type,
                 rf_linkcount = 1\<rparr> s))"

text \<open>The entries \<open>.\<close> and \<open>..\<close> that start a directory.\<close>

definition dot :: "byte list" where "dot = [46, 0]"
definition dotdot :: "byte list" where "dotdot = [46, 46, 0]"

definition dots :: "nat \<Rightarrow> nat \<Rightarrow> ramfs_dirent list \<Rightarrow> ramfs_dirent list option" where
  "dots ino parent ds = do {
     kassert (2 \<le> length ds);
     n0 \<leftarrow> strcpy (rd_name (ds ! 0)) dot;
     n1 \<leftarrow> strcpy (rd_name (ds ! 1)) dotdot;
     Some (ds[0 := \<lparr>rd_ino = ino, rd_name = n0\<rparr>, 1 := \<lparr>rd_ino = parent, rd_name = n1\<rparr>])
   }"

definition ramfs_mount :: "bool \<Rightarrow> bool \<Rightarrow> bool \<Rightarrow> vfs \<Rightarrow> (int \<times> vfs) option" where
  "ramfs_mount fs_ok kmalloc_ok page_ok s =
    (if \<not> fs_ok then Some (- ENOMEM, s)
     else let (root_ino, s1) = ramfs_alloc_inode kmalloc_ok page_ok RAMFS_TYPE_DIR 0 (s\<lparr>rfs_inodes := Map.empty\<rparr>) in
       if root_ino < 0 then Some (root_ino, s1)
       else do {
         kassert (root_ino = 0);
         ds \<leftarrow> dirents s1 0;
         ds' \<leftarrow> dots 0 0 ds;
         s2 \<leftarrow> set_dirents 0 ds' 64 s1;
         s3 \<leftarrow> vget 0 s2;
         Some (0, s3)
       })"

definition ramfs_umount :: "vfs \<Rightarrow> (int \<times> vfs) option" where
  "ramfs_umount s = do {
     s1 \<leftarrow> vput 0 s;
     Some (0, s1\<lparr>rfs_inodes := Map.empty\<rparr>)
   }"

section \<open>Directory operations\<close>

definition name_match :: "byte list \<Rightarrow> byte list \<Rightarrow> nat \<Rightarrow> bool option" where
  "name_match fname name namelen = do {
     l \<leftarrow> strlen fname;
     (if l = namelen then do { r \<leftarrow> strncmp fname name namelen; Some (r = 0) } else Some False)
   }"

text \<open>The loops over the entries of a directory: the first that matches a name, the first that is free.\<close>

fun find_match :: "nat \<Rightarrow> ramfs_dirent list \<Rightarrow> byte list \<Rightarrow> nat \<Rightarrow> nat option option" where
  "find_match k [] name namelen = Some None"
| "find_match k (e # es) name namelen = do {
     b \<leftarrow> name_match (rd_name e) name namelen;
     (if b then Some (Some k) else find_match (k + 1) es name namelen)
   }"

fun find_free :: "nat \<Rightarrow> ramfs_dirent list \<Rightarrow> nat option option" where
  "find_free k [] = Some None"
| "find_free k (e # es) =
    (case rd_name e of
       [] \<Rightarrow> None
     | c # _ \<Rightarrow> if c = 0 then Some (Some k) else find_free (k + 1) es)"

definition ramfs_lookup :: "nat \<Rightarrow> byte list \<Rightarrow> nat \<Rightarrow> vfs \<Rightarrow> (int \<times> nat option \<times> vfs) option" where
  "ramfs_lookup dir name namelen s = do {
     ds \<leftarrow> dirents s dir;
     r \<leftarrow> find_match 0 ds name namelen;
     (case r of
        None \<Rightarrow> Some (- ENOENT, None, s)
      | Some k \<Rightarrow> do {
          s1 \<leftarrow> vget (rd_ino (ds ! k)) s;
          Some (0, Some (rd_ino (ds ! k)), s1)
        })
   }"

definition set_name :: "byte list \<Rightarrow> byte list \<Rightarrow> nat \<Rightarrow> byte list option" where
  "set_name old name name_len = do {
     let k = min name_len (NAME_LEN - 1);
     n \<leftarrow> strncpy old name k;
     kassert (k < length n);
     Some (n[k := 0])
   }"

text \<open>Entry \<open>k\<close> of a directory gets a number and a name, and the directory grows by an entry.\<close>

definition set_entry :: "nat \<Rightarrow> nat \<Rightarrow> nat \<Rightarrow> byte list \<Rightarrow> nat \<Rightarrow> vfs \<Rightarrow> vfs option" where
  "set_entry dir k ino name name_len s = do {
     inode \<leftarrow> rfs_inodes s dir;
     ds \<leftarrow> dirents s dir;
     n \<leftarrow> set_name (rd_name (ds ! k)) name name_len;
     set_dirents dir (ds[k := \<lparr>rd_ino = ino, rd_name = n\<rparr>]) (rf_size inode + 32) s
   }"

text \<open>What ramfs\_create, ramfs\_mknod, ramfs\_link and ramfs\_mkdir start with: the name is new; where is space?\<close>

definition find_space :: "nat \<Rightarrow> byte list \<Rightarrow> nat \<Rightarrow> vfs \<Rightarrow> nat option option" where
  "find_space dir name name_len s = do {
     (r, _) \<leftarrow> ramfs_lookup dir name name_len s;
     kassert (r \<noteq> 0);
     ds \<leftarrow> dirents s dir;
     find_free 0 ds
   }"

definition ramfs_create :: "bool \<Rightarrow> bool \<Rightarrow> nat \<Rightarrow> byte list \<Rightarrow> nat \<Rightarrow> vfs \<Rightarrow> (int \<times> nat option \<times> vfs) option" where
  "ramfs_create kmalloc_ok page_ok dir name name_len s = do {
     sp \<leftarrow> find_space dir name name_len s;
     (case sp of
        None \<Rightarrow> Some (- ENOSPC, None, s)
      | Some k \<Rightarrow>
          (let (ino, s1) = ramfs_alloc_inode kmalloc_ok page_ok RAMFS_TYPE_DATA 0 s in
           if ino < 0 then Some (ino, None, s1)
           else do {
             s2 \<leftarrow> vget (nat ino) s1;
             s3 \<leftarrow> set_entry dir k (nat ino) name name_len s2;
             Some (0, Some (nat ino), s3)
           }))
   }"

definition ramfs_mknod :: "bool \<Rightarrow> nat \<Rightarrow> byte list \<Rightarrow> nat \<Rightarrow> int \<Rightarrow> nat \<Rightarrow> vfs \<Rightarrow> (int \<times> vfs) option" where
  "ramfs_mknod kmalloc_ok dir name name_len mode devid s = do {
     sp \<leftarrow> find_space dir name name_len s;
     (case sp of
        None \<Rightarrow> Some (- ENOSPC, s)
      | Some k \<Rightarrow> do {
          kassert (mode = S_IFCHR \<or> mode = S_IFBLK);
          let (ino, s1) = ramfs_alloc_inode kmalloc_ok True (if mode = S_IFCHR then RAMFS_TYPE_CHR else RAMFS_TYPE_BLK) devid s;
          (if ino < 0 then Some (ino, s1)
           else do {
             s2 \<leftarrow> set_entry dir k (nat ino) name name_len s1;
             Some (0, s2)
           })
        })
   }"

definition ramfs_link :: "nat \<Rightarrow> nat \<Rightarrow> byte list \<Rightarrow> nat \<Rightarrow> vfs \<Rightarrow> (int \<times> vfs) option" where
  "ramfs_link oldvnode dir name name_len s = do {
     sp \<leftarrow> find_space dir name name_len s;
     (case sp of
        None \<Rightarrow> Some (- ENOSPC, s)
      | Some k \<Rightarrow> do {
          s1 \<leftarrow> set_entry dir k oldvnode name name_len s;
          inode \<leftarrow> rfs_inodes s1 oldvnode;
          Some (0, put_inode oldvnode (inode\<lparr>rf_linkcount := rf_linkcount inode + 1\<rparr>) s1)
        })
   }"

text \<open>What ramfs\_unlink and ramfs\_rmdir end with: the entry is freed, the link count drops, the vnode is put.\<close>

definition drop_entry :: "nat \<Rightarrow> byte list \<Rightarrow> nat \<Rightarrow> nat \<Rightarrow> vfs \<Rightarrow> vfs option" where
  "drop_entry dir name namelen vn s = do {
     ds \<leftarrow> dirents s dir;
     r \<leftarrow> find_match 0 ds name namelen;
     let ds' = (case r of None \<Rightarrow> ds | Some k \<Rightarrow> ds[k := (ds ! k)\<lparr>rd_name := (rd_name (ds ! k))[0 := 0]\<rparr>]);
     inode \<leftarrow> rfs_inodes s dir;
     s1 \<leftarrow> set_dirents dir ds' (rf_size inode - 32) s;
     target \<leftarrow> rfs_inodes s1 vn;
     vput vn (put_inode vn (target\<lparr>rf_linkcount := rf_linkcount target - 1\<rparr>) s1)
   }"

definition ramfs_unlink :: "nat \<Rightarrow> byte list \<Rightarrow> nat \<Rightarrow> vfs \<Rightarrow> (int \<times> vfs) option" where
  "ramfs_unlink dir name namelen s = do {
     (ret, vn, s1) \<leftarrow> ramfs_lookup dir name namelen s;
     kassert (ret = 0);
     v \<leftarrow> vn;
     n \<leftarrow> vnodes s1 v;
     kassert (vn_mode n \<noteq> S_IFDIR);
     s2 \<leftarrow> drop_entry dir name namelen v s1;
     Some (0, s2)
   }"

definition ramfs_mkdir :: "bool \<Rightarrow> bool \<Rightarrow> nat \<Rightarrow> byte list \<Rightarrow> nat \<Rightarrow> vfs \<Rightarrow> (int \<times> vfs) option" where
  "ramfs_mkdir kmalloc_ok page_ok dir name name_len s = do {
     sp \<leftarrow> find_space dir name name_len s;
     (case sp of
        None \<Rightarrow> Some (- ENOSPC, s)
      | Some k \<Rightarrow>
          (let (ino, s1) = ramfs_alloc_inode kmalloc_ok page_ok RAMFS_TYPE_DIR 0 s in
           if ino < 0 then Some (ino, s1)
           else do {
             s2 \<leftarrow> set_entry dir k (nat ino) name name_len s1;
             ds \<leftarrow> dirents s2 (nat ino);
             ds' \<leftarrow> dots (nat ino) dir ds;
             s3 \<leftarrow> set_dirents (nat ino) ds' 64 s2;
             Some (0, s3)
           }))
   }"

fun dir_empty :: "ramfs_dirent list \<Rightarrow> bool option" where
  "dir_empty [] = Some True"
| "dir_empty (e # es) = do {
     a \<leftarrow> strcmp (rd_name e) dot;
     b \<leftarrow> (if a = 0 then Some 0 else strcmp (rd_name e) dotdot);
     (if a = 0 \<or> b = 0 then dir_empty es else if hd (rd_name e) \<noteq> 0 then Some False else dir_empty es)
   }"

definition ramfs_rmdir :: "nat \<Rightarrow> byte list \<Rightarrow> nat \<Rightarrow> vfs \<Rightarrow> (int \<times> vfs) option" where
  "ramfs_rmdir dir name name_len s = do {
     a \<leftarrow> name_match dot name name_len;
     b \<leftarrow> name_match dotdot name name_len;
     kassert (\<not> a \<and> \<not> b);
     (ret, vn, s1) \<leftarrow> ramfs_lookup dir name name_len s;
     (if ret \<noteq> 0 then Some (ret, s1)
      else do {
        v \<leftarrow> vn;
        n \<leftarrow> vnodes s1 v;
        (if vn_mode n \<noteq> S_IFDIR then do { s2 \<leftarrow> vput v s1; Some (- ENOTDIR, s2) }
         else do {
           ds \<leftarrow> dirents s1 v;
           empty \<leftarrow> dir_empty ds;
           (if \<not> empty then do { s2 \<leftarrow> vput v s1; Some (- ENOTEMPTY, s2) }
            else do { s2 \<leftarrow> drop_entry dir name name_len v s1; Some (0, s2) })
         })
      })
   }"

section \<open>File operations\<close>

text \<open>A size cast to off\_t.\<close>

definition off_t :: "nat \<Rightarrow> int" where
  "off_t n = (if n < 2 ^ 31 then int n else int n - 2 ^ 32)"

definition ramfs_read :: "nat \<Rightarrow> int \<Rightarrow> byte list \<Rightarrow> nat \<Rightarrow> vfs \<Rightarrow> (int \<times> byte list) option" where
  "ramfs_read file offset buf count s = do {
     inode \<leftarrow> rfs_inodes s file;
     vn \<leftarrow> vnodes s file;
     kassert (vn_mode vn \<noteq> S_IFDIR);
     let ret = max 0 (min (off_t count) (rf_size inode - offset));
     (case rf_mem inode of
        Page_data mem \<Rightarrow>
          if ret = 0 then Some (0, buf)
          else do {
            kassert (0 \<le> offset);
            b \<leftarrow> memcpy buf (drop (nat offset) mem) (nat ret);
            Some (ret, b)
          }
      | _ \<Rightarrow> None)
   }"

text \<open>A negative number of bytes is a huge one to memcpy.\<close>

definition ramfs_write :: "nat \<Rightarrow> int \<Rightarrow> byte list \<Rightarrow> nat \<Rightarrow> vfs \<Rightarrow> (int \<times> vfs) option" where
  "ramfs_write file offset buf count s = do {
     inode \<leftarrow> rfs_inodes s file;
     vn \<leftarrow> vnodes s file;
     kassert (vn_mode vn \<noteq> S_IFDIR);
     let ret = min (off_t count) (4096 - offset);
     (case rf_mem inode of
        Page_data mem \<Rightarrow> do {
          kassert (0 \<le> offset \<and> 0 \<le> ret);
          m \<leftarrow> memcpy (drop (nat offset) mem) buf (nat ret);
          kassert (vn_len vn = rf_size inode);
          let len = max (vn_len vn) (offset + ret);
          Some (ret, put_inode file (inode\<lparr>rf_mem := Page_data (take (nat offset) mem @ m), rf_size := len\<rparr>)
                       (put_vnode file (vn\<lparr>vn_len := len\<rparr>) s))
        }
      | _ \<Rightarrow> None)
   }"

record dirent =
  d_ino :: nat
  d_off :: int
  d_name :: "byte list"

fun skip_free :: "nat \<Rightarrow> ramfs_dirent list \<Rightarrow> nat option option" where
  "skip_free k [] = Some None"
| "skip_free k (e # es) =
    (case rd_name e of
       [] \<Rightarrow> None
     | c # _ \<Rightarrow> if c = 0 then skip_free (k + 1) es else Some (Some k))"

definition ramfs_readdir :: "nat \<Rightarrow> int \<Rightarrow> dirent \<Rightarrow> vfs \<Rightarrow> (int \<times> dirent) option" where
  "ramfs_readdir dir offset d s = do {
     vn \<leftarrow> vnodes s dir;
     kassert (vn_mode vn = S_IFDIR);
     kassert (offset mod 32 = 0);
     ds \<leftarrow> dirents s dir;
     (if offset \<ge> 4096 then Some (0, d)
      else do {
        kassert (0 \<le> offset);
        r \<leftarrow> skip_free (nat offset div 32) (drop (nat offset div 32) ds);
        (case r of
           None \<Rightarrow> Some (0, d)
         | Some k \<Rightarrow> do {
             n \<leftarrow> strncpy (d_name d) (rd_name (ds ! k)) (NAME_LEN - 1);
             Some (32 + (int k - offset div 32) * 32,
                   \<lparr>d_ino = rd_ino (ds ! k), d_off = 0, d_name = n[NAME_LEN - 1 := 0]\<rparr>)
           })
      })
   }"

record stat =
  st_mode :: int
  st_ino :: nat
  st_rdev :: nat
  st_nlink :: int
  st_size :: int
  st_blksize :: int
  st_blocks :: int

definition ramfs_stat :: "nat \<Rightarrow> vfs \<Rightarrow> (int \<times> stat) option" where
  "ramfs_stat file s = do {
     i \<leftarrow> rfs_inodes s file;
     vn \<leftarrow> vnodes s file;
     Some (0, \<lparr>st_mode = vn_mode vn, st_ino = file,
       st_rdev = (if vn_mode vn = S_IFCHR \<or> vn_mode vn = S_IFBLK then (case rf_mem i of Devid d \<Rightarrow> d | _ \<Rightarrow> 0) else 0),
       st_nlink = rf_linkcount i - 1, st_size = rf_size i, st_blksize = 4096, st_blocks = 1\<rparr>)
   }"


section \<open>Names\<close>

text \<open>A name argument: its characters, with anything behind them.\<close>

definition names :: "byte list \<Rightarrow> nat \<Rightarrow> byte list \<Rightarrow> bool" where
  "names name len x \<longleftrightarrow> 0 \<notin> set x \<and> length x = len \<and> (\<exists>rest. name = x @ rest)"

lemma strncmp_names:
  assumes "holds s y" and "0 \<notin> set x" and "length y = length x"
  shows "\<exists>r. strncmp s (x @ rest) (length x) = Some r \<and> (r = 0 \<longleftrightarrow> x = y)"
  using assms
proof (induction x arbitrary: s y)
  case (Cons c x)
  then obtain d y' where y: "y = d # y'" by (cases y) auto
  then obtain s' where s: "s = d # s'" "holds s' y'" "d \<noteq> 0" using Cons.prems(1) by auto
  with Cons y show ?case by (auto simp: Let_def)
qed simp

lemma name_match_holds:
  assumes "holds s y" and "names name len x"
  shows "name_match s name len = Some (x = y)"
proof -
  obtain rest where n: "name = x @ rest" "0 \<notin> set x" "length x = len" using assms(2) by (auto simp: names_def)
  show ?thesis
  proof (cases "length y = len")
    case True
    with strncmp_names [OF assms(1) n(2), of rest] n strlen_holds [OF assms(1)] show ?thesis
      by (auto simp: name_match_def)
  next
    case False
    with n strlen_holds [OF assms(1)] show ?thesis by (auto simp: name_match_def)
  qed
qed

lemma holds_cstring: "cstring s = Some x \<Longrightarrow> holds s x"
  by (induction s arbitrary: x) (auto split: if_splits)

lemma strncpy_names:
  assumes "0 \<notin> set x" and "length x \<le> length old"
  shows "strncpy old (x @ rest) (length x) = Some (x @ drop (length x) old)"
  using assms
proof (induction x arbitrary: old)
  case (Cons c x)
  then obtain d old' where "old = d # old'" by (cases old) auto
  with Cons show ?case by auto
qed simp

lemma set_name_holds:
  assumes "names name len x" and "len < NAME_LEN" and "length old = NAME_LEN"
  shows "\<exists>n. set_name old name len = Some n \<and> length n = NAME_LEN \<and> holds n x"
proof -
  obtain rest where n: "name = x @ rest" "0 \<notin> set x" "length x = len" using assms(1) by (auto simp: names_def)
  have "min len (NAME_LEN - 1) = length x" using assms(2) n by simp
  then have "set_name old name len = Some ((x @ drop (length x) old)[length x := 0])"
    unfolding set_name_def n(1) Let_def using strncpy_names [OF n(2), of old rest] assms(2,3) n by simp
  moreover have "(x @ drop (length x) old)[length x := 0] = x @ 0 # drop (length x + 1) old"
    using assms(2,3) n by (simp add: list_update_append upd_conv_take_nth_drop)
  ultimately show ?thesis using n assms(2,3) by (auto simp: holds_def)
qed

section \<open>Directories as maps\<close>

text \<open>A directory page holds terminated names, and no name twice.  Entries with an empty name are free.\<close>

definition dir_names :: "ramfs_dirent list \<Rightarrow> byte list list" where
  "dir_names ds = map (\<lambda>e. the (cstring (rd_name e))) ds"

definition dir_wf :: "ramfs_dirent list \<Rightarrow> bool" where
  "dir_wf ds \<longleftrightarrow> (\<forall>e \<in> set ds. length (rd_name e) = NAME_LEN \<and> cstring (rd_name e) \<noteq> None) \<and>
     distinct (filter (\<lambda>x. x \<noteq> []) (dir_names ds))"

definition dir_map :: "ramfs_dirent list \<Rightarrow> byte list \<rightharpoonup> nat" where
  "dir_map ds x = (if x = [] then None else map_of (zip (dir_names ds) (map rd_ino ds)) x)"

lemma dir_names_Cons [simp]: "dir_names (e # ds) = the (cstring (rd_name e)) # dir_names ds"
  by (simp add: dir_names_def)

lemma length_dir_names [simp]: "length (dir_names ds) = length ds"
  by (simp add: dir_names_def)

lemma find_match_cases:
  assumes "\<forall>e \<in> set ds. cstring (rd_name e) \<noteq> None" and "names name len x"
  obtains (absent) "find_match k ds name len = Some None" and "x \<notin> set (dir_names ds)"
  | (present) i where "find_match k ds name len = Some (Some (k + i))" and "i < length ds" and "dir_names ds ! i = x"
proof -
  have "(find_match k ds name len = Some None \<and> x \<notin> set (dir_names ds)) \<or>
      (\<exists>i < length ds. find_match k ds name len = Some (Some (k + i)) \<and> dir_names ds ! i = x)"
    using assms(1)
  proof (induction ds arbitrary: k)
    case (Cons e ds)
    then obtain y where y: "cstring (rd_name e) = Some y" by auto
    note nm = name_match_holds [OF holds_cstring [OF y] assms(2)]
    show ?case
    proof (cases "x = y")
      case True
      with nm y show ?thesis by (intro disjI2 exI [of _ 0]) simp
    next
      case False
      from Cons.prems have "\<forall>e \<in> set ds. cstring (rd_name e) \<noteq> None" by simp
      from Cons.IH [OF this, of "k + 1"] show ?thesis
      proof (elim disjE exE conjE)
        fix i
        assume "i < length ds" "find_match (k + 1) ds name len = Some (Some (k + 1 + i))" "dir_names ds ! i = x"
        with False nm y show ?thesis by (intro disjI2 exI [of _ "Suc i"]) simp
      qed (use False nm y in simp)
    qed
  qed (simp add: dir_names_def)
  then show thesis using that by blast
qed

lemma find_free_cases:
  assumes "\<forall>e \<in> set ds. cstring (rd_name e) \<noteq> None"
  obtains (full) "find_free k ds = Some None" and "[] \<notin> set (dir_names ds)"
  | (free) i where "find_free k ds = Some (Some (k + i))" and "i < length ds" and "dir_names ds ! i = []"
proof -
  have "(find_free k ds = Some None \<and> [] \<notin> set (dir_names ds)) \<or>
      (\<exists>i < length ds. find_free k ds = Some (Some (k + i)) \<and> dir_names ds ! i = [])"
    using assms(1)
  proof (induction ds arbitrary: k)
    case (Cons e ds)
    then obtain y where "cstring (rd_name e) = Some y" by auto
    then obtain c r where c: "rd_name e = c # r" "the (cstring (rd_name e)) = [] \<longleftrightarrow> c = 0"
      by (cases "rd_name e") (auto split: if_splits)
    show ?case
    proof (cases "c = 0")
      case True
      with c show ?thesis by (intro disjI2 exI [of _ 0]) simp
    next
      case False
      from Cons.prems have "\<forall>e \<in> set ds. cstring (rd_name e) \<noteq> None" by simp
      from Cons.IH [OF this, of "k + 1"] show ?thesis
      proof (elim disjE exE conjE)
        fix i
        assume "i < length ds" "find_free (k + 1) ds = Some (Some (k + 1 + i))" "dir_names ds ! i = []"
        with False c show ?thesis by (intro disjI2 exI [of _ "Suc i"]) simp
      next
        assume "find_free (k + 1) ds = Some None" "[] \<notin> set (dir_names ds)"
        with False c show ?thesis by (intro disjI1) auto
      qed
    qed
  qed (simp add: dir_names_def)
  then show thesis using that by blast
qed

lemma dir_wf_cstring: "dir_wf ds \<Longrightarrow> \<forall>e \<in> set ds. cstring (rd_name e) \<noteq> None"
  by (simp add: dir_wf_def)

lemma distinct_filter_update:
  assumes "distinct (filter P xs)" and "i < length xs" and "P y \<longrightarrow> y \<notin> set xs"
  shows "distinct (filter P (xs[i := y]))"
  using assms
proof (induction xs arbitrary: i)
  case (Cons x xs)
  show ?case
  proof (cases i)
    case 0
    with Cons.prems show ?thesis by (auto split: if_splits)
  next
    case (Suc j)
    have sub: "set (xs[j := y]) \<subseteq> insert y (set xs)" by (rule set_update_subset_insert)
    have "distinct (filter P xs)" using Cons.prems(1) by (simp split: if_splits)
    then have "distinct (filter P (xs[j := y]))" using Cons.IH [of j] Cons.prems(2,3) Suc by auto
    moreover have "P x \<longrightarrow> x \<notin> set (xs[j := y])" using Cons.prems(1,3) sub by (auto split: if_splits)
    ultimately show ?thesis using Suc by auto
  qed
qed simp

lemma dir_names_update:
  assumes "i < length ds" and "cstring (rd_name e) = Some y"
  shows "dir_names (ds[i := e]) = (dir_names ds)[i := y]"
  using assms by (simp add: dir_names_def map_update)

lemma dir_wf_update:
  assumes "dir_wf ds" and "i < length ds" and "length (rd_name e) = NAME_LEN" and "cstring (rd_name e) = Some y"
    and "y \<noteq> [] \<longrightarrow> y \<notin> set (dir_names ds)"
  shows "dir_wf (ds[i := e])"
  unfolding dir_wf_def
proof
  show "\<forall>e' \<in> set (ds[i := e]). length (rd_name e') = NAME_LEN \<and> cstring (rd_name e') \<noteq> None"
    using assms(1,3,4) set_update_subset_insert [of ds i e] by (auto simp: dir_wf_def)
  show "distinct (filter (\<lambda>x. x \<noteq> []) (dir_names (ds[i := e])))"
    unfolding dir_names_update [OF assms(2,4)]
    by (rule distinct_filter_update) (use assms in \<open>simp_all add: dir_wf_def\<close>)
qed

lemma nth_unique:
  assumes "distinct (filter P xs)" and "i < length xs" and "j < length xs" and "xs ! i = xs ! j" and "P (xs ! i)"
  shows "i = j"
  using assms
proof (induction xs arbitrary: i j)
  case (Cons x xs)
  show ?case
  proof (cases i; cases j)
    fix j' assume "i = 0" "j = Suc j'"
    with Cons.prems show ?thesis by (auto dest!: nth_mem split: if_splits)
  next
    fix i' assume "i = Suc i'" "j = 0"
    with Cons.prems show ?thesis by (auto dest!: nth_mem split: if_splits)
  next
    fix i' j' assume ij: "i = Suc i'" "j = Suc j'"
    have "distinct (filter P xs)" using Cons.prems(1) by (simp split: if_splits)
    with Cons.IH [of i' j'] Cons.prems ij show ?thesis by simp
  qed simp
qed simp

lemma dir_map_iff:
  assumes "dir_wf ds" and "x \<noteq> []"
  shows "dir_map ds x = Some n \<longleftrightarrow> (\<exists>i < length ds. dir_names ds ! i = x \<and> rd_ino (ds ! i) = n)"
proof
  assume "dir_map ds x = Some n"
  then have "(x, n) \<in> set (zip (dir_names ds) (map rd_ino ds))" using assms(2) by (simp add: dir_map_def map_of_SomeD)
  then show "\<exists>i < length ds. dir_names ds ! i = x \<and> rd_ino (ds ! i) = n" by (auto simp: set_zip)
next
  assume "\<exists>i < length ds. dir_names ds ! i = x \<and> rd_ino (ds ! i) = n"
  then obtain i where i: "i < length ds" "dir_names ds ! i = x" "rd_ino (ds ! i) = n" by blast
  have "x \<in> fst ` set (zip (dir_names ds) (map rd_ino ds))" using i by (auto simp: set_zip image_iff)
  then obtain m where m: "map_of (zip (dir_names ds) (map rd_ino ds)) x = Some m"
    by (metis map_of_eq_None_iff not_Some_eq)
  then obtain j where j: "j < length ds" "dir_names ds ! j = x" "rd_ino (ds ! j) = m"
    by (auto dest!: map_of_SomeD simp: set_zip)
  have "i = j" using nth_unique [of "\<lambda>x. x \<noteq> []" "dir_names ds" i j] assms i j by (simp add: dir_wf_def)
  with m i j assms(2) show "dir_map ds x = Some n" by (simp add: dir_map_def)
qed

lemma dir_map_None:
  assumes "x \<noteq> []"
  shows "dir_map ds x = None \<longleftrightarrow> x \<notin> set (dir_names ds)"
proof -
  have "fst ` set (zip (dir_names ds) (map rd_ino ds)) = set (dir_names ds)"
    by (metis length_dir_names length_map map_fst_zip set_map)
  then show ?thesis using assms by (simp add: dir_map_def map_of_eq_None_iff)
qed

lemma dir_map_update:
  assumes "dir_wf ds" and "i < length ds" and "length (rd_name e) = NAME_LEN" and "cstring (rd_name e) = Some y"
    and "y \<noteq> [] \<longrightarrow> y \<notin> set (dir_names ds)"
  shows "dir_map (ds[i := e]) x =
    (if x = [] then None else if x = y then Some (rd_ino e) else if x = dir_names ds ! i then None else dir_map ds x)"
proof (cases "x = []")
  case True
  then show ?thesis by (simp add: dir_map_def)
next
  case False
  note wf' = dir_wf_update [OF assms]
  have iff: "dir_map (ds[i := e]) x = Some n \<longleftrightarrow>
      (\<exists>j < length ds. (dir_names ds)[i := y] ! j = x \<and> rd_ino (ds[i := e] ! j) = n)" for n
    unfolding dir_map_iff [OF wf' False] dir_names_update [OF assms(2,4)] by simp
  show ?thesis
  proof (cases "x = y")
    case True
    have "dir_map (ds[i := e]) x = Some (rd_ino e)" unfolding iff using True assms(2) by (intro exI [of _ i]) simp
    with True False show ?thesis by simp
  next
    case xy: False
    show ?thesis
    proof (cases "x = dir_names ds ! i")
      case True
      have "dir_map (ds[i := e]) x \<noteq> Some n" for n
      proof
        assume "dir_map (ds[i := e]) x = Some n"
        then obtain j where j: "j < length ds" "(dir_names ds)[i := y] ! j = x" unfolding iff by blast
        with xy assms(2) have "j \<noteq> i" by auto
        with j True nth_unique [of "\<lambda>x. x \<noteq> []" "dir_names ds" i j] assms(1,2) False show False by (simp add: dir_wf_def)
      qed
      with True False xy show ?thesis by (metis not_None_eq)
    next
      case xi: False
      have "dir_map (ds[i := e]) x = Some n \<longleftrightarrow> dir_map ds x = Some n" for n
        unfolding iff dir_map_iff [OF assms(1) False] using xy xi assms(2) by (metis nth_list_update length_dir_names)
      with False xy xi show ?thesis by (metis not_None_eq)
    qed
  qed
qed


section \<open>Well-typed file systems\<close>

text \<open>
  An inode has its own number and the contents of its type; a vnode in use has references, an inode, and the mode and
  operations of the type of that inode; a regular file's length is the size of its inode.
\<close>

definition contents_ok :: "rf_type \<Rightarrow> rf_contents \<Rightarrow> bool" where
  "contents_ok type c \<longleftrightarrow>
    (case type of
       RAMFS_TYPE_DATA \<Rightarrow> \<exists>mem. c = Page_data mem \<and> length mem = 4096
     | RAMFS_TYPE_DIR \<Rightarrow> \<exists>ds. c = Page_dirents ds \<and> length ds = RAMFS_MAX_DIRENT \<and>
         (\<forall>e \<in> set ds. length (rd_name e) = NAME_LEN \<and> 0 \<in> set (rd_name e))
     | _ \<Rightarrow> \<exists>d. c = Devid d)"

definition type_mode :: "rf_type \<Rightarrow> int" where
  "type_mode type = (case type of RAMFS_TYPE_DATA \<Rightarrow> S_IFREG | RAMFS_TYPE_DIR \<Rightarrow> S_IFDIR | RAMFS_TYPE_CHR \<Rightarrow> S_IFCHR | RAMFS_TYPE_BLK \<Rightarrow> S_IFBLK)"

definition type_ops :: "rf_type \<Rightarrow> vnode_ops" where
  "type_ops type = (case type of RAMFS_TYPE_DATA \<Rightarrow> Ramfs_file_vops | RAMFS_TYPE_DIR \<Rightarrow> Ramfs_dir_vops
     | RAMFS_TYPE_CHR \<Rightarrow> Bytedev_spec_vops | RAMFS_TYPE_BLK \<Rightarrow> Blockdev_spec_vops)"

lemma type_mode_eq [simp]:
  "type_mode type = S_IFREG \<longleftrightarrow> type = RAMFS_TYPE_DATA" "type_mode type = S_IFDIR \<longleftrightarrow> type = RAMFS_TYPE_DIR"
  "type_mode type = S_IFCHR \<longleftrightarrow> type = RAMFS_TYPE_CHR" "type_mode type = S_IFBLK \<longleftrightarrow> type = RAMFS_TYPE_BLK"
  by (cases type; simp add: type_mode_def)+

lemma type_ops_eq [simp]: "type_ops type = Ramfs_dir_vops \<longleftrightarrow> type = RAMFS_TYPE_DIR" "type_ops type = Ramfs_file_vops \<longleftrightarrow> type = RAMFS_TYPE_DATA"
  by (cases type; simp add: type_ops_def)+

definition inode_ok :: "nat \<Rightarrow> ramfs_inode \<Rightarrow> bool" where
  "inode_ok v inode \<longleftrightarrow> v < RAMFS_MAX_FILES \<and> rf_ino inode = v \<and> contents_ok (rf_mode inode) (rf_mem inode)"

definition vnode_ok :: "vnode \<Rightarrow> ramfs_inode \<Rightarrow> bool" where
  "vnode_ok vn inode \<longleftrightarrow> 0 < vn_refcount vn \<and> vn_mode vn = type_mode (rf_mode inode) \<and> vn_ops vn = type_ops (rf_mode inode) \<and>
    (rf_mode inode = RAMFS_TYPE_DATA \<longrightarrow> vn_len vn = rf_size inode)"

definition vfs_typed :: "vfs \<Rightarrow> bool" where
  "vfs_typed s \<longleftrightarrow>
    (\<forall>v inode. rfs_inodes s v = Some inode \<longrightarrow> inode_ok v inode) \<and>
    (\<forall>v vn. vnodes s v = Some vn \<longrightarrow> (\<exists>inode. rfs_inodes s v = Some inode \<and> vnode_ok vn inode))"

lemma vfs_typedI:
  assumes "\<And>v inode. rfs_inodes s v = Some inode \<Longrightarrow> inode_ok v inode"
    and "\<And>v vn. vnodes s v = Some vn \<Longrightarrow> \<exists>inode. rfs_inodes s v = Some inode \<and> vnode_ok vn inode"
  shows "vfs_typed s"
  using assms by (simp add: vfs_typed_def)

lemma vfs_typed_inode: "vfs_typed s \<Longrightarrow> rfs_inodes s v = Some inode \<Longrightarrow> inode_ok v inode"
  by (simp add: vfs_typed_def)

lemma vfs_typed_vnode_ex: "vfs_typed s \<Longrightarrow> vnodes s v = Some vn \<Longrightarrow> \<exists>inode. rfs_inodes s v = Some inode \<and> vnode_ok vn inode"
  by (simp add: vfs_typed_def)

lemma vfs_typed_vnode:
  assumes "vfs_typed s" and "vnodes s v = Some vn"
  obtains inode where "rfs_inodes s v = Some inode" and "vnode_ok vn inode"
  using vfs_typed_vnode_ex [OF assms] by blast

lemma put_inode_sel [simp]:
  "rfs_inodes (put_inode v n s) = (rfs_inodes s)(v \<mapsto> n)" "vnodes (put_inode v n s) = vnodes s"
  "rfs_inodes (put_vnode v vn s) = rfs_inodes s" "vnodes (put_vnode v vn s) = (vnodes s)(v \<mapsto> vn)"
  "bytedevs (put_inode v n s) = bytedevs s" "bytedevs (put_vnode v vn s) = bytedevs s"
  "blockdevs (put_inode v n s) = blockdevs s" "blockdevs (put_vnode v vn s) = blockdevs s"
  by (simp_all add: put_inode_def put_vnode_def)

text \<open>Changing an inode within its type keeps the typing.\<close>

lemma put_inode_typed:
  assumes "vfs_typed s" and "rfs_inodes s v = Some inode" and "inode_ok v n" and "rf_mode n = rf_mode inode"
    and "rf_mode inode = RAMFS_TYPE_DATA \<longrightarrow> rf_size n = rf_size inode"
  shows "vfs_typed (put_inode v n s)"
proof (rule vfs_typedI)
  fix w i
  assume "rfs_inodes (put_inode v n s) w = Some i"
  then show "inode_ok w i" using assms(3) vfs_typed_inode [OF assms(1)] by (auto split: if_splits)
next
  fix w vn
  assume "vnodes (put_inode v n s) w = Some vn"
  then obtain i where "rfs_inodes s w = Some i" "vnode_ok vn i" using vfs_typed_vnode_ex [OF assms(1)] by auto
  then show "\<exists>i. rfs_inodes (put_inode v n s) w = Some i \<and> vnode_ok vn i"
    using assms(2,4,5) by (cases "w = v") (auto simp: vnode_ok_def)
qed

lemma put_vnode_typed:
  assumes "vfs_typed s" and "rfs_inodes s v = Some inode" and "vnode_ok vn inode"
  shows "vfs_typed (put_vnode v vn s)"
proof (rule vfs_typedI)
  fix w i
  assume "rfs_inodes (put_vnode v vn s) w = Some i"
  then show "inode_ok w i" using vfs_typed_inode [OF assms(1)] by simp
next
  fix w x
  assume "vnodes (put_vnode v vn s) w = Some x"
  then show "\<exists>i. rfs_inodes (put_vnode v vn s) w = Some i \<and> vnode_ok x i"
    using assms(2,3) vfs_typed_vnode_ex [OF assms(1)] by (cases "w = v") auto
qed

lemma links_typed:
  assumes "vfs_typed s" and "rfs_inodes s v = Some inode"
  shows "vfs_typed (put_inode v (inode\<lparr>rf_linkcount := n\<rparr>) s)"
  by (rule put_inode_typed [OF assms]) (use vfs_typed_inode [OF assms] in \<open>simp_all add: inode_ok_def\<close>)

lemma vref_typed:
  assumes "vfs_typed s" and "vref v s = Some s'"
  shows "vfs_typed s'"
proof -
  obtain vn where vn: "vnodes s v = Some vn" and s': "s' = put_vnode v (vn\<lparr>vn_refcount := vn_refcount vn + 1\<rparr>) s"
    using assms(2) by (auto simp: vref_def bind_eq_Some_conv)
  obtain inode where i: "rfs_inodes s v = Some inode" "vnode_ok vn inode" by (rule vfs_typed_vnode [OF assms(1) vn])
  show ?thesis unfolding s' by (rule put_vnode_typed [OF assms(1) i(1)]) (use i(2) in \<open>simp add: vnode_ok_def\<close>)
qed

lemma ramfs_read_vnode_eq:
  assumes "ramfs_read_vnode v s = Some (vn, s')"
  obtains inode where "rfs_inodes s v = Some inode" and "s' = put_inode v (inode\<lparr>rf_linkcount := rf_linkcount inode + 1\<rparr>) s"
    and "vn_mode vn = type_mode (rf_mode inode)" and "vn_ops vn = type_ops (rf_mode inode)" and "vn_len vn = rf_size inode"
proof -
  obtain inode where i: "rfs_inodes s v = Some inode" using assms by (auto simp: ramfs_read_vnode_def bind_eq_Some_conv)
  show thesis
    by (rule that [OF i]; insert assms i; cases "rf_mode inode"; cases "rf_mem inode")
       (auto simp: ramfs_read_vnode_def Let_def type_mode_def type_ops_def init_special_vnode_def)
qed

lemma vget_typed:
  assumes "vfs_typed s" and "vget v s = Some s'"
  shows "vfs_typed s'"
proof (cases "vnodes s v")
  case (Some vn)
  with assms show ?thesis using vref_typed [OF assms(1)] by (simp add: vget_def)
next
  case None
  then obtain vn s1 where r: "ramfs_read_vnode v s = Some (vn, s1)" and s': "s' = put_vnode v (vn\<lparr>vn_refcount := 1\<rparr>) s1"
    using assms(2) by (auto simp: vget_def bind_eq_Some_conv)
  obtain inode where i: "rfs_inodes s v = Some inode" "s1 = put_inode v (inode\<lparr>rf_linkcount := rf_linkcount inode + 1\<rparr>) s"
    "vn_mode vn = type_mode (rf_mode inode)" "vn_ops vn = type_ops (rf_mode inode)" "vn_len vn = rf_size inode"
    by (rule ramfs_read_vnode_eq [OF r])
  have "vfs_typed s1" unfolding i(2) by (rule links_typed [OF assms(1) i(1)])
  then show ?thesis unfolding s'
    by (rule put_vnode_typed [where inode = "inode\<lparr>rf_linkcount := rf_linkcount inode + 1\<rparr>"])
       (use i in \<open>simp_all add: vnode_ok_def\<close>)
qed

lemma vput_typed:
  assumes "vfs_typed s" and "vput v s = Some s'"
  shows "vfs_typed s'"
proof -
  obtain vn where vn: "vnodes s v = Some vn" using assms(2) by (auto simp: vput_def bind_eq_Some_conv)
  obtain inode where i: "rfs_inodes s v = Some inode" "vnode_ok vn inode" by (rule vfs_typed_vnode [OF assms(1) vn])
  show ?thesis
  proof (cases "0 < vn_refcount vn - 1")
    case True
    then have s': "s' = put_vnode v (vn\<lparr>vn_refcount := vn_refcount vn - 1\<rparr>) s"
      using assms(2) vn by (auto simp: vput_def bind_eq_Some_conv split: if_splits)
    show ?thesis unfolding s' by (rule put_vnode_typed [OF assms(1) i(1)]) (use i(2) True in \<open>simp add: vnode_ok_def\<close>)
  next
    case False
    define s1 where "s1 = put_inode v (inode\<lparr>rf_linkcount := rf_linkcount inode - 1\<rparr>) s"
    have t1: "vfs_typed s1" unfolding s1_def by (rule links_typed [OF assms(1) i(1)])
    have s': "s' = s1\<lparr>rfs_inodes := (if rf_linkcount inode - 1 = 0 then (rfs_inodes s1)(v := None) else rfs_inodes s1),
        vnodes := (vnodes s1)(v := None)\<rparr>"
      using assms(2) vn i False
      by (auto simp: vput_def bind_eq_Some_conv ramfs_delete_vnode_def Let_def s1_def put_inode_def split: if_splits)
    show ?thesis
    proof (rule vfs_typedI)
      fix w n assume "rfs_inodes s' w = Some n"
      then show "inode_ok w n" using vfs_typed_inode [OF t1] by (auto simp: s' split: if_splits)
    next
      fix w n assume "vnodes s' w = Some n"
      then show "\<exists>i. rfs_inodes s' w = Some i \<and> vnode_ok n i" using vfs_typed_vnode_ex [OF t1] by (auto simp: s' split: if_splits)
    qed
  qed
qed

lemma new_contents_ok: "contents_ok type (new_contents type devid)"
  by (cases type) (simp_all add: contents_ok_def new_contents_def zero_dirent_def)

lemma find_SomeD: "List.find P xs = Some x \<Longrightarrow> x \<in> set xs \<and> P x"
  by (induction xs) (auto split: if_splits)

lemma alloc_cases:
  assumes "ramfs_alloc_inode k p type devid s = (ino, s')"
  obtains (failed) "ino = - ENOSPC" and "s' = s"
  | (made) i where "ino = int i" and "i < RAMFS_MAX_FILES" and "rfs_inodes s i = None"
    and "s' = put_inode i \<lparr>rf_size = 0, rf_ino = i, rf_mem = new_contents type devid, rf_mode = type, rf_linkcount = 1\<rparr> s"
proof (cases "List.find (\<lambda>i. rfs_inodes s i = None) [0 ..< RAMFS_MAX_FILES]")
  case None
  then have "ramfs_alloc_inode k p type devid s = (- ENOSPC, s)" unfolding ramfs_alloc_inode_def by (simp only: option.case)
  with assms show thesis by (intro failed) simp_all
next
  case (Some i)
  have eq: "ramfs_alloc_inode k p type devid s =
      (if \<not> k then (- ENOSPC, s) else if \<not> (type = RAMFS_TYPE_CHR \<or> type = RAMFS_TYPE_BLK) \<and> \<not> p then (- ENOSPC, s)
       else (int i, put_inode i \<lparr>rf_size = 0, rf_ino = i, rf_mem = new_contents type devid, rf_mode = type, rf_linkcount = 1\<rparr> s))"
    unfolding ramfs_alloc_inode_def Some by (simp only: option.case)
  have i: "i < RAMFS_MAX_FILES" "rfs_inodes s i = None" using find_SomeD [OF Some] by auto
  show thesis using assms i unfolding eq by (auto intro: failed made split: if_splits)
qed

lemma alloc_typed:
  assumes "vfs_typed s" and "ramfs_alloc_inode k p type devid s = (ino, s')"
  shows "vfs_typed s'"
  using assms(2)
proof (cases rule: alloc_cases)
  case (made i)
  show ?thesis
  proof (rule vfs_typedI)
    fix w n assume "rfs_inodes s' w = Some n"
    then show "inode_ok w n" using vfs_typed_inode [OF assms(1)] made new_contents_ok [of type devid]
      by (auto simp: inode_ok_def split: if_splits)
  next
    fix w n assume "vnodes s' w = Some n"
    then show "\<exists>i. rfs_inodes s' w = Some i \<and> vnode_ok n i" using vfs_typed_vnode_ex [OF assms(1)] made by fastforce
  qed
qed (simp add: assms(1))

end
