(* ===== verification/Ramfs_Dir.thy ===== *)
theory Ramfs_Dir
  imports Ramfs
begin

text \<open>
  Properties of the file system in memory: every operation keeps it well typed, directories behave as maps from names
  to inode numbers, link counts, and reading what was written.
\<close>

section \<open>Typing\<close>

lemma length_strncpy: "strncpy d s n = Some r \<Longrightarrow> length r = length d"
  by (induction d s n arbitrary: r rule: strncpy.induct) (auto split: if_splits)

lemma length_strcpy: "strcpy d s = Some r \<Longrightarrow> length r = length d \<and> 0 \<in> set r"
  by (induction d s arbitrary: r rule: strcpy.induct) (auto split: if_splits)

lemma set_name_ok: "set_name old name len = Some n \<Longrightarrow> length n = length old \<and> 0 \<in> set n"
  by (auto simp: set_name_def Let_def bind_eq_Some_conv length_strncpy intro: set_update_memI)

lemma dirents_eq: "dirents s v = Some ds \<longleftrightarrow> (\<exists>inode. rfs_inodes s v = Some inode \<and> rf_mem inode = Page_dirents ds)"
  by (cases "rfs_inodes s v") (auto simp: dirents_def split: rf_contents.splits)

lemma in_set_updateD: "e \<in> set (xs[i := y]) \<Longrightarrow> e = y \<or> e \<in> set xs"
  using set_update_subset_insert [of xs i y] by blast

lemma contents_ok_dirents:
  "contents_ok type (Page_dirents ds) \<longleftrightarrow> type = RAMFS_TYPE_DIR \<and> length ds = RAMFS_MAX_DIRENT \<and>
     (\<forall>e \<in> set ds. length (rd_name e) = NAME_LEN \<and> 0 \<in> set (rd_name e))"
  by (cases type) (auto simp: contents_ok_def)

lemma set_dirents_typed:
  assumes "vfs_typed s" and "dirents s v = Some ds" and "set_dirents v ds' n s = Some s'" and "length ds' = length ds"
    and "\<And>e. e \<in> set ds' \<Longrightarrow> length (rd_name e) = NAME_LEN \<and> 0 \<in> set (rd_name e)"
  shows "vfs_typed s'"
proof -
  obtain inode where i: "rfs_inodes s v = Some inode" "rf_mem inode = Page_dirents ds"
    using assms(2) by (auto simp: dirents_eq)
  have ok: "inode_ok v inode" by (rule vfs_typed_inode [OF assms(1) i(1)])
  have s': "s' = put_inode v (inode\<lparr>rf_mem := Page_dirents ds', rf_size := n\<rparr>) s" using assms(3) i by (simp add: set_dirents_def)
  show ?thesis unfolding s'
    by (rule put_inode_typed [OF assms(1) i(1)]) (use ok i assms(4,5) in \<open>auto simp: inode_ok_def contents_ok_dirents\<close>)
qed

lemma typed_names:
  assumes "vfs_typed s" and "dirents s v = Some ds"
  shows "length ds = RAMFS_MAX_DIRENT" and "e \<in> set ds \<Longrightarrow> length (rd_name e) = NAME_LEN \<and> 0 \<in> set (rd_name e)"
proof -
  obtain inode where i: "rfs_inodes s v = Some inode" "rf_mem inode = Page_dirents ds"
    using assms(2) by (auto simp: dirents_eq)
  have "inode_ok v inode" by (rule vfs_typed_inode [OF assms(1) i(1)])
  then show "length ds = RAMFS_MAX_DIRENT" "e \<in> set ds \<Longrightarrow> length (rd_name e) = NAME_LEN \<and> 0 \<in> set (rd_name e)"
    using i(2) by (simp_all add: inode_ok_def contents_ok_dirents)
qed

lemma find_free_range: "find_free k ds = Some (Some i) \<Longrightarrow> k \<le> i \<and> i < k + length ds"
  by (induction k ds rule: find_free.induct) (auto split: list.splits if_splits)

lemma find_match_range: "find_match k ds name n = Some (Some i) \<Longrightarrow> k \<le> i \<and> i < k + length ds"
proof (induction ds arbitrary: k)
  case (Cons e ds)
  then obtain b where b: "name_match (rd_name e) name n = Some b" by (cases "name_match (rd_name e) name n") simp_all
  show ?case
  proof (cases b)
    case True
    with Cons.prems b show ?thesis by simp
  next
    case False
    with Cons b show ?thesis by fastforce
  qed
qed simp

lemma find_space_range:
  assumes "find_space dir name len s = Some (Some k)" and "dirents s dir = Some ds"
  shows "k < length ds"
  using assms find_free_range [of 0 ds k] by (auto simp: find_space_def bind_eq_Some_conv)

lemma set_entry_typed:
  assumes "vfs_typed s" and "k < RAMFS_MAX_DIRENT" and "set_entry dir k ino name len s = Some s'"
  shows "vfs_typed s'"
proof -
  obtain inode :: ramfs_inode and ds n where d: "dirents s dir = Some ds" and n: "set_name (rd_name (ds ! k)) name len = Some n"
      and s': "set_dirents dir (ds[k := \<lparr>rd_ino = ino, rd_name = n\<rparr>]) (rf_size inode + 32) s = Some s'"
    using assms(3) by (auto simp: set_entry_def bind_eq_Some_conv)
  note t = typed_names [OF assms(1) d]
  have "length n = NAME_LEN \<and> 0 \<in> set n" using set_name_ok [OF n] t assms(2) by simp
  then show ?thesis using t by (intro set_dirents_typed [OF assms(1) d s']) (auto dest!: in_set_updateD)
qed

lemma dots_typed:
  assumes "vfs_typed s" and "dirents s v = Some ds" and "dots a b ds = Some ds'" and "set_dirents v ds' n s = Some s'"
  shows "vfs_typed s'"
proof -
  obtain n0 n1 where n: "strcpy (rd_name (ds ! 0)) dot = Some n0" "strcpy (rd_name (ds ! 1)) dotdot = Some n1"
      and ds': "ds' = ds[0 := \<lparr>rd_ino = a, rd_name = n0\<rparr>, 1 := \<lparr>rd_ino = b, rd_name = n1\<rparr>]"
    using assms(3) by (auto simp: dots_def bind_eq_Some_conv)
  note t = typed_names [OF assms(1,2)]
  have "length n0 = NAME_LEN \<and> 0 \<in> set n0" "length n1 = NAME_LEN \<and> 0 \<in> set n1"
    using length_strcpy [OF n(1)] length_strcpy [OF n(2)] t(1) t(2) [of "ds ! 0"] t(2) [of "ds ! 1"] by simp_all
  then show ?thesis
    using t by (intro set_dirents_typed [OF assms(1,2,4)]) (auto simp: ds' dest!: in_set_updateD)
qed

lemma drop_entry_typed:
  assumes "vfs_typed s" and "drop_entry dir name len v s = Some s'"
  shows "vfs_typed s'"
proof -
  obtain ds r s1 target and inode :: ramfs_inode where d: "dirents s dir = Some ds" and r: "find_match 0 ds name len = Some r"
    and s1: "set_dirents dir (case r of None \<Rightarrow> ds | Some k \<Rightarrow> ds[k := (ds ! k)\<lparr>rd_name := (rd_name (ds ! k))[0 := 0]\<rparr>])
        (rf_size inode - 32) s = Some s1"
    and tg: "rfs_inodes s1 v = Some target" and s': "vput v (put_inode v (target\<lparr>rf_linkcount := rf_linkcount target - 1\<rparr>) s1) = Some s'"
    using assms(2) by (auto simp: drop_entry_def bind_eq_Some_conv Let_def)
  note t = typed_names [OF assms(1) d]
  have "vfs_typed s1"
  proof (rule set_dirents_typed [OF assms(1) d s1])
    fix e assume "e \<in> set (case r of None \<Rightarrow> ds | Some k \<Rightarrow> ds[k := (ds ! k)\<lparr>rd_name := (rd_name (ds ! k))[0 := 0]\<rparr>])"
    moreover have "length (rd_name (ds ! k)) = NAME_LEN" if "r = Some k" for k
      using find_match_range [of 0 ds name len k] r that t by simp
    ultimately show "length (rd_name e) = NAME_LEN \<and> 0 \<in> set (rd_name e)"
      using t(2) by (auto split: option.splits dest!: in_set_updateD intro!: set_update_memI)
  qed (simp split: option.split)
  from vput_typed [OF links_typed [OF this tg] s'] show ?thesis .
qed

lemma ramfs_lookup_typed: "vfs_typed s \<Longrightarrow> ramfs_lookup d name n s = Some (r, v, s') \<Longrightarrow> vfs_typed s'"
  by (auto simp: ramfs_lookup_def bind_eq_Some_conv split: option.splits intro: vget_typed)


lemma typed_space:
  assumes "vfs_typed s" and "find_space dir name len s = Some (Some k)"
  shows "k < RAMFS_MAX_DIRENT"
proof -
  obtain ds where d: "dirents s dir = Some ds" using assms(2) by (auto simp: find_space_def bind_eq_Some_conv)
  show ?thesis using find_space_range [OF assms(2) d] typed_names(1) [OF assms(1) d] by simp
qed

lemma space_entry_typed:
  "vfs_typed s \<Longrightarrow> find_space dir name len s = Some (Some k) \<Longrightarrow> vfs_typed s1 \<Longrightarrow> set_entry dir k ino name len s1 = Some s' \<Longrightarrow> vfs_typed s'"
  by (rule set_entry_typed) (use typed_space in blast)+

lemma ramfs_create_typed:
  assumes "vfs_typed s" and "ramfs_create a b dir name len s = Some (r, v, s')"
  shows "vfs_typed s'"
proof -
  obtain sp where sp: "find_space dir name len s = Some sp" using assms(2) by (auto simp: ramfs_create_def bind_eq_Some_conv)
  obtain ino s1 where al: "ramfs_alloc_inode a b RAMFS_TYPE_DATA 0 s = (ino, s1)" by fastforce
  note t1 = alloc_typed [OF assms(1) al]
  show ?thesis
  proof (cases sp)
    case None
    with assms sp show ?thesis by (simp add: ramfs_create_def)
  next
    case (Some k)
    show ?thesis
    proof (cases "ino < 0")
      case True
      with assms sp Some al t1 show ?thesis by (simp add: ramfs_create_def)
    next
      case False
      then obtain s2 where s2: "vget (nat ino) s1 = Some s2" "set_entry dir k (nat ino) name len s2 = Some s'"
        using assms(2) sp Some al by (auto simp: ramfs_create_def bind_eq_Some_conv)
      show ?thesis
        by (rule space_entry_typed [OF assms(1) _ vget_typed [OF t1 s2(1)] s2(2)]) (simp add: sp Some)
    qed
  qed
qed

lemma ramfs_mknod_typed:
  assumes "vfs_typed s" and "ramfs_mknod a dir name len mode devid s = Some (r, s')"
  shows "vfs_typed s'"
proof -
  obtain sp where sp: "find_space dir name len s = Some sp" using assms(2) by (auto simp: ramfs_mknod_def bind_eq_Some_conv)
  obtain ino s1 where al: "ramfs_alloc_inode a True (if mode = S_IFCHR then RAMFS_TYPE_CHR else RAMFS_TYPE_BLK) devid s = (ino, s1)"
    by fastforce
  note t1 = alloc_typed [OF assms(1) al]
  show ?thesis
  proof (cases sp)
    case None
    with assms sp show ?thesis by (simp add: ramfs_mknod_def)
  next
    case (Some k)
    then have "(ino < 0 \<and> s' = s1) \<or> set_entry dir k (nat ino) name len s1 = Some s'"
      using assms(2) sp al by (auto simp: ramfs_mknod_def bind_eq_Some_conv split: if_splits)
    then show ?thesis using t1 space_entry_typed [OF assms(1) _ t1] sp Some by blast
  qed
qed

lemma ramfs_mkdir_typed:
  assumes "vfs_typed s" and "ramfs_mkdir a b dir name len s = Some (r, s')"
  shows "vfs_typed s'"
proof -
  obtain sp where sp: "find_space dir name len s = Some sp" using assms(2) by (auto simp: ramfs_mkdir_def bind_eq_Some_conv)
  obtain ino s1 where al: "ramfs_alloc_inode a b RAMFS_TYPE_DIR 0 s = (ino, s1)" by fastforce
  note t1 = alloc_typed [OF assms(1) al]
  show ?thesis
  proof (cases sp)
    case None
    with assms sp show ?thesis by (simp add: ramfs_mkdir_def)
  next
    case (Some k)
    then have "(ino < 0 \<and> s' = s1) \<or> (\<exists>s2 ds ds'. set_entry dir k (nat ino) name len s1 = Some s2 \<and> dirents s2 (nat ino) = Some ds \<and>
        dots (nat ino) dir ds = Some ds' \<and> set_dirents (nat ino) ds' 64 s2 = Some s')"
      using assms(2) sp al by (auto simp: ramfs_mkdir_def bind_eq_Some_conv split: if_splits)
    then show ?thesis
    proof (elim disjE exE conjE)
      fix s2 ds ds'
      assume s2: "set_entry dir k (nat ino) name len s1 = Some s2" "dirents s2 (nat ino) = Some ds"
        "dots (nat ino) dir ds = Some ds'" "set_dirents (nat ino) ds' 64 s2 = Some s'"
      have "vfs_typed s2" by (rule space_entry_typed [OF assms(1) _ t1 s2(1)]) (simp add: sp Some)
      then show ?thesis by (rule dots_typed [OF _ s2(2-4)])
    qed (simp add: t1)
  qed
qed

lemma ramfs_link_typed:
  assumes "vfs_typed s" and "ramfs_link old dir name len s = Some (r, s')"
  shows "vfs_typed s'"
proof -
  obtain sp where sp: "find_space dir name len s = Some sp" using assms(2) by (auto simp: ramfs_link_def bind_eq_Some_conv)
  show ?thesis
  proof (cases sp)
    case None
    with assms sp show ?thesis by (simp add: ramfs_link_def)
  next
    case (Some k)
    then obtain s1 inode where s1: "set_entry dir k old name len s = Some s1" "rfs_inodes s1 old = Some inode"
        "s' = put_inode old (inode\<lparr>rf_linkcount := rf_linkcount inode + 1\<rparr>) s1"
      using assms(2) sp by (auto simp: ramfs_link_def bind_eq_Some_conv)
    have "vfs_typed s1" by (rule space_entry_typed [OF assms(1) _ assms(1) s1(1)]) (simp add: sp Some)
    then show ?thesis unfolding s1(3) by (rule links_typed [OF _ s1(2)])
  qed
qed

lemma ramfs_unlink_typed:
  assumes "vfs_typed s" and "ramfs_unlink dir name len s = Some (r, s')"
  shows "vfs_typed s'"
  using assms(2) by (auto simp: ramfs_unlink_def bind_eq_Some_conv intro: drop_entry_typed ramfs_lookup_typed [OF assms(1)])

lemma ramfs_rmdir_typed:
  assumes "vfs_typed s" and "ramfs_rmdir dir name len s = Some (r, s')"
  shows "vfs_typed s'"
  using assms(2)
  by (auto simp: ramfs_rmdir_def bind_eq_Some_conv split: if_splits intro: drop_entry_typed vput_typed ramfs_lookup_typed [OF assms(1)])

lemma ramfs_write_eq:
  assumes "ramfs_write file offset buf count s = Some (r, s')"
  obtains inode vn mem m where "rfs_inodes s file = Some inode" and "vnodes s file = Some vn" and "rf_mem inode = Page_data mem"
    and "memcpy (drop (nat offset) mem) buf (nat r) = Some m" and "0 \<le> offset" and "0 \<le> r" and "r \<le> 4096 - offset" and "vn_len vn = rf_size inode"
    and "s' = put_inode file (inode\<lparr>rf_mem := Page_data (take (nat offset) mem @ m), rf_size := max (vn_len vn) (offset + r)\<rparr>)
        (put_vnode file (vn\<lparr>vn_len := max (vn_len vn) (offset + r)\<rparr>) s)"
proof -
  obtain inode where i: "rfs_inodes s file = Some inode" using assms by (auto simp: ramfs_write_def bind_eq_Some_conv)
  obtain mem where m: "rf_mem inode = Page_data mem"
    using assms i by (cases "rf_mem inode") (auto simp: ramfs_write_def bind_eq_Some_conv Let_def)
  show thesis using assms i m by (auto simp: ramfs_write_def bind_eq_Some_conv Let_def intro!: that)
qed

lemma length_memcpy: "memcpy d s n = Some r \<Longrightarrow> length r = length d"
  by (induction d s n arbitrary: r rule: memcpy.induct) auto

lemma ramfs_write_typed:
  assumes "vfs_typed s" and "ramfs_write file offset buf count s = Some (r, s')"
  shows "vfs_typed s'"
proof -
  obtain inode vn mem m where i: "rfs_inodes s file = Some inode" "vnodes s file = Some vn" "rf_mem inode = Page_data mem"
    "memcpy (drop (nat offset) mem) buf (nat r) = Some m" "0 \<le> offset" "r \<le> 4096 - offset" "0 \<le> r"
    and s': "s' = put_inode file (inode\<lparr>rf_mem := Page_data (take (nat offset) mem @ m), rf_size := max (vn_len vn) (offset + r)\<rparr>)
        (put_vnode file (vn\<lparr>vn_len := max (vn_len vn) (offset + r)\<rparr>) s)"
    by (rule ramfs_write_eq [OF assms(2)])
  have ok: "inode_ok file inode" "vnode_ok vn inode"
    using vfs_typed_inode [OF assms(1) i(1)] vfs_typed_vnode_ex [OF assms(1) i(2)] i(1) by auto
  then have type: "rf_mode inode = RAMFS_TYPE_DATA" "length mem = 4096"
    using i(3) by (cases "rf_mode inode"; auto simp: inode_ok_def contents_ok_def)+
  have "length (take (nat offset) mem @ m) = 4096" using length_memcpy [OF i(4)] type(2) i(5-7) by simp
  then have n: "inode_ok file (inode\<lparr>rf_mem := Page_data (take (nat offset) mem @ m), rf_size := max (vn_len vn) (offset + r)\<rparr>)"
    using ok(1) type by (simp add: inode_ok_def contents_ok_def)
  show ?thesis
  proof (rule vfs_typedI)
    fix w x assume "rfs_inodes s' w = Some x"
    then show "inode_ok w x" using n vfs_typed_inode [OF assms(1)] by (auto simp: s' split: if_splits)
  next
    fix w x assume "vnodes s' w = Some x"
    then show "\<exists>k. rfs_inodes s' w = Some k \<and> vnode_ok x k"
      using ok(2) vfs_typed_vnode_ex [OF assms(1)] by (cases "w = file") (auto simp: s' vnode_ok_def type)
  qed
qed

text \<open>The operations the kernel runs on the file system, one after the other.\<close>

inductive ramfs_step :: "vfs \<Rightarrow> vfs \<Rightarrow> bool" where
  "vref v s = Some s' \<Longrightarrow> ramfs_step s s'"
| "vget v s = Some s' \<Longrightarrow> ramfs_step s s'"
| "vput v s = Some s' \<Longrightarrow> ramfs_step s s'"
| "ramfs_lookup d name n s = Some (r, v, s') \<Longrightarrow> ramfs_step s s'"
| "ramfs_create a b d name n s = Some (r, v, s') \<Longrightarrow> ramfs_step s s'"
| "ramfs_mknod a d name n mode devid s = Some (r, s') \<Longrightarrow> ramfs_step s s'"
| "ramfs_link v d name n s = Some (r, s') \<Longrightarrow> ramfs_step s s'"
| "ramfs_unlink d name n s = Some (r, s') \<Longrightarrow> ramfs_step s s'"
| "ramfs_mkdir a b d name n s = Some (r, s') \<Longrightarrow> ramfs_step s s'"
| "ramfs_rmdir d name n s = Some (r, s') \<Longrightarrow> ramfs_step s s'"
| "ramfs_write v offset buf count s = Some (r, s') \<Longrightarrow> ramfs_step s s'"

lemmas ramfs_ops_typed = vref_typed vget_typed vput_typed ramfs_lookup_typed ramfs_create_typed ramfs_mknod_typed
  ramfs_link_typed ramfs_unlink_typed ramfs_mkdir_typed ramfs_rmdir_typed ramfs_write_typed

lemma ramfs_step_typed: "ramfs_step s s' \<Longrightarrow> vfs_typed s \<Longrightarrow> vfs_typed s'"
  by (erule ramfs_step.cases) (blast intro: ramfs_ops_typed)+

lemma ramfs_mount_typed:
  assumes "vnodes s = Map.empty" and "ramfs_mount fs_ok a b s = Some (r, s')" and "fs_ok"
  shows "vfs_typed s'"
proof -
  have t0: "vfs_typed (s\<lparr>rfs_inodes := Map.empty\<rparr>)" using assms(1) by (simp add: vfs_typed_def)
  obtain ino s1 where al: "ramfs_alloc_inode a b RAMFS_TYPE_DIR 0 (s\<lparr>rfs_inodes := Map.empty\<rparr>) = (ino, s1)" by fastforce
  note t1 = alloc_typed [OF t0 al]
  have "(ino < 0 \<and> s' = s1) \<or> (\<exists>ds ds' s2. dirents s1 0 = Some ds \<and> dots 0 0 ds = Some ds' \<and>
      set_dirents 0 ds' 64 s1 = Some s2 \<and> vget 0 s2 = Some s')"
    using assms(2,3) unfolding ramfs_mount_def al by (auto simp: bind_eq_Some_conv split: if_splits)
  then show ?thesis
  proof (elim disjE exE conjE)
    fix ds ds' s2
    assume "dirents s1 0 = Some ds" "dots 0 0 ds = Some ds'" "set_dirents 0 ds' 64 s1 = Some s2" "vget 0 s2 = Some s'"
    then show ?thesis using dots_typed [OF t1] vget_typed by blast
  qed (simp add: t1)
qed


section \<open>A fresh file system\<close>

lemma alloc_first:
  assumes "\<forall>j < i. rfs_inodes s j \<noteq> None" and "rfs_inodes s i = None" and "i < RAMFS_MAX_FILES"
  shows "ramfs_alloc_inode True True type devid s =
    (int i, put_inode i \<lparr>rf_size = 0, rf_ino = i, rf_mem = new_contents type devid, rf_mode = type, rf_linkcount = 1\<rparr> s)"
proof -
  have "[0 ..< RAMFS_MAX_FILES] = [0 ..< i] @ i # [Suc i ..< RAMFS_MAX_FILES]"
    using assms(3) by (metis less_imp_le_nat upt_add_eq_append upt_conv_Cons le_add_diff_inverse zero_le)
  moreover have "List.find (\<lambda>j. rfs_inodes s j = None) (xs @ i # ys) = Some i" if "\<forall>j \<in> set xs. rfs_inodes s j \<noteq> None" for xs ys
    using that assms(2) by (induction xs) auto
  ultimately have f: "List.find (\<lambda>j. rfs_inodes s j = None) [0 ..< RAMFS_MAX_FILES] = Some i" using assms(1) by simp
  show ?thesis unfolding ramfs_alloc_inode_def f by simp
qed

definition zero_dir :: "ramfs_dirent list" where
  "zero_dir = replicate RAMFS_MAX_DIRENT zero_dirent"

lemma zero_dir_facts: "length zero_dir = RAMFS_MAX_DIRENT" "dir_names zero_dir = replicate RAMFS_MAX_DIRENT []" "dir_wf zero_dir"
proof -
  have z: "cstring (rd_name zero_dirent) = Some []" "length (rd_name zero_dirent) = NAME_LEN"
    by (simp_all add: zero_dirent_def numeral_eq_Suc)
  show l: "length zero_dir = RAMFS_MAX_DIRENT" by (simp add: zero_dir_def)
  show n: "dir_names zero_dir = replicate RAMFS_MAX_DIRENT []" unfolding zero_dir_def dir_names_def map_replicate z by simp
  have "e = zero_dirent" if "e \<in> set zero_dir" for e using that by (simp add: zero_dir_def)
  moreover have "filter (\<lambda>x. x \<noteq> []) (replicate k []) = []" for k by simp
  ultimately show "dir_wf zero_dir" unfolding dir_wf_def n using z by fastforce
qed

text \<open>A new directory, as ramfs\_mount and ramfs\_mkdir set it up.\<close>

lemma dots_zero_dir:
  obtains ds where "dots a b zero_dir = Some ds" and "dir_wf ds" and "dir_map ds = [[46] \<mapsto> a, [46, 46] \<mapsto> b]"
    and "dir_names ds ! 2 = []" and "length ds = RAMFS_MAX_DIRENT"
proof -
  define z :: "byte list" where "z = replicate NAME_LEN 0"
  have z: "length z = NAME_LEN" by (simp add: z_def)
  have nth: "rd_name (zero_dir ! i) = z" if "i < RAMFS_MAX_DIRENT" for i using that by (simp add: zero_dir_def zero_dirent_def z_def)
  have h: "holds dot [46]" "holds dotdot [46, 46]" by (simp_all add: dot_def dotdot_def)
  define e0 where "e0 = \<lparr>rd_ino = a, rd_name = [46] @ 0 # drop 2 z\<rparr>"
  define e1 where "e1 = \<lparr>rd_ino = b, rd_name = [46, 46] @ 0 # drop 3 z\<rparr>"
  have c: "strcpy z dot = Some (rd_name e0)" "strcpy z dotdot = Some (rd_name e1)"
    using strcpy_holds [OF h(1), of z] strcpy_holds [OF h(2), of z] z by (simp_all add: e0_def e1_def numeral_eq_Suc)
  have n: "length (rd_name e0) = NAME_LEN" "cstring (rd_name e0) = Some [46]"
    "length (rd_name e1) = NAME_LEN" "cstring (rd_name e1) = Some [46, 46]" using z by (simp_all add: e0_def e1_def)
  let ?d0 = "zero_dir[0 := e0]"
  let ?ds = "?d0[1 := e1]"
  note f = zero_dir_facts
  have u0: "[46] \<noteq> [] \<longrightarrow> [46] \<notin> set (dir_names zero_dir)" by (simp add: f(2))
  have n0: "dir_names ?d0 = (replicate RAMFS_MAX_DIRENT [])[0 := [46]]" using dir_names_update [OF _ n(2), of 0 zero_dir] f by simp
  have u1: "[46, 46] \<noteq> [] \<longrightarrow> [46, 46] \<notin> set (dir_names ?d0)"
    unfolding n0 by (auto dest!: in_set_updateD)
  have w0: "dir_wf ?d0" by (rule dir_wf_update [OF f(3) _ n(1,2) u0]) (simp add: f)
  have w1: "dir_wf ?ds" by (rule dir_wf_update [OF w0 _ n(3,4) u1]) (simp add: f)
  have m0: "dir_map ?d0 x = (if x = [46] then Some a else None)" for x
    using dir_map_update [OF f(3) _ n(1,2) u0, of 0 x] f dir_map_None [of x zero_dir] by (auto simp: e0_def)
  have at1: "dir_names ?d0 ! 1 = []" unfolding n0 by simp
  have "dir_map ?ds x = (if x = [46, 46] then Some b else if x = [46] then Some a else None)" for x
    using dir_map_update [OF w0 _ n(3,4) u1, of 1 x] f m0 at1 by (auto simp: e1_def)
  then have "dir_map ?ds = [[46] \<mapsto> a, [46, 46] \<mapsto> b]" by (auto simp: fun_eq_iff)
  moreover have "dir_names ?ds = (dir_names ?d0)[1 := [46, 46]]" by (rule dir_names_update [OF _ n(4)]) (simp add: f)
  then have "dir_names ?ds ! 2 = []" unfolding n0 by simp
  moreover have "dots a b zero_dir = Some ?ds" unfolding dots_def using f(1) nth [of 0] nth [of 1] c by (simp add: e0_def e1_def)
  ultimately show thesis using that w1 f(1) by simp
qed

lemma ramfs_mount_fresh:
  assumes "vnodes s = Map.empty"
  obtains s' ds where "ramfs_mount True True True s = Some (0, s')" and "dirents s' 0 = Some ds" and "dir_wf ds"
    and "dir_map ds = [[46] \<mapsto> 0, [46, 46] \<mapsto> 0]" and "dir_names ds ! 2 = []" and "length ds = RAMFS_MAX_DIRENT"
    and "\<forall>i. i \<noteq> 0 \<longrightarrow> rfs_inodes s' i = None" and "\<exists>i. rfs_inodes s' 0 = Some i \<and> rf_linkcount i = 2"
    and "vnodes s' = [0 \<mapsto> \<lparr>vn_ops = Ramfs_dir_vops, vn_refcount = 1, vn_mode = S_IFDIR, vn_len = 64, vn_devid = 0, vn_cdev = None\<rparr>]"
proof -
  obtain ds where ds: "dots 0 0 zero_dir = Some ds" "dir_wf ds" "dir_map ds = [[46] \<mapsto> 0, [46, 46] \<mapsto> 0]" "dir_names ds ! 2 = []"
      "length ds = RAMFS_MAX_DIRENT" by (rule dots_zero_dir)
  have al: "ramfs_alloc_inode True True RAMFS_TYPE_DIR 0 (s\<lparr>rfs_inodes := Map.empty\<rparr>) =
      (int 0, put_inode 0 \<lparr>rf_size = 0, rf_ino = 0, rf_mem = Page_dirents zero_dir, rf_mode = RAMFS_TYPE_DIR, rf_linkcount = 1\<rparr>
        (s\<lparr>rfs_inodes := Map.empty\<rparr>))"
    using alloc_first [of 0 "s\<lparr>rfs_inodes := Map.empty\<rparr>" RAMFS_TYPE_DIR 0] by (simp add: new_contents_def zero_dir_def)
  let ?i = "\<lparr>rf_size = 64, rf_ino = 0, rf_mem = Page_dirents ds, rf_mode = RAMFS_TYPE_DIR, rf_linkcount = 1\<rparr>"
  have m: "ramfs_mount True True True s = Some (0, put_vnode 0
      \<lparr>vn_ops = Ramfs_dir_vops, vn_refcount = 1, vn_mode = S_IFDIR, vn_len = 64, vn_devid = 0, vn_cdev = None\<rparr>
      (put_inode 0 (?i\<lparr>rf_linkcount := 2\<rparr>) (s\<lparr>rfs_inodes := [0 \<mapsto> ?i]\<rparr>)))"
    unfolding ramfs_mount_def al
    by (simp add: dirents_def set_dirents_def ds(1) vget_def assms ramfs_read_vnode_def Let_def put_inode_def put_vnode_def)
  show thesis by (rule that [OF m _ ds(2-5)]) (simp_all add: dirents_def assms)
qed


section \<open>Directories as maps\<close>

definition entries :: "vfs \<Rightarrow> nat \<Rightarrow> byte list \<rightharpoonup> nat" where
  "entries s d = (case dirents s d of None \<Rightarrow> Map.empty | Some ds \<Rightarrow> dir_map ds)"

definition dir_ok :: "vfs \<Rightarrow> nat \<Rightarrow> bool" where
  "dir_ok s d \<longleftrightarrow> (\<exists>ds. dirents s d = Some ds \<and> dir_wf ds)"

definition has_space :: "vfs \<Rightarrow> nat \<Rightarrow> bool" where
  "has_space s d \<longleftrightarrow> (\<exists>ds. dirents s d = Some ds \<and> [] \<in> set (dir_names ds))"

lemma entries_cong: "rfs_inodes s' d = rfs_inodes s d \<Longrightarrow> dirents s' d = dirents s d \<and> entries s' d = entries s d"
  by (simp add: entries_def dirents_def)

lemma ramfs_lookup_absent:
  assumes "dir_ok s d" and "names name len x" and "x \<noteq> []" and "entries s d x = None"
  shows "ramfs_lookup d name len s = Some (- ENOENT, None, s)"
proof -
  obtain ds where ds: "dirents s d = Some ds" "dir_wf ds" using assms(1) by (auto simp: dir_ok_def)
  have "x \<notin> set (dir_names ds)" using assms(3,4) ds dir_map_None [of x ds] by (simp add: entries_def)
  then have "find_match 0 ds name len = Some None"
    by (cases rule: find_match_cases [OF dir_wf_cstring [OF ds(2)] assms(2), of 0]) auto
  then show ?thesis by (simp add: ramfs_lookup_def ds)
qed

lemma find_match_present:
  assumes "dirents s d = Some ds" and "dir_wf ds" and "names name len x" and "x \<noteq> []" and "entries s d x = Some v"
  obtains k where "find_match 0 ds name len = Some (Some k)" and "k < length ds" and "dir_names ds ! k = x" and "rd_ino (ds ! k) = v"
proof -
  obtain i where i: "i < length ds" "dir_names ds ! i = x" "rd_ino (ds ! i) = v"
    using assms dir_map_iff [OF assms(2,4), of v] by (auto simp: entries_def)
  then have "x \<in> set (dir_names ds)" by (metis length_dir_names nth_mem)
  show thesis
  proof (rule find_match_cases [OF dir_wf_cstring [OF assms(2)] assms(3), of 0])
    fix j
    assume present: "find_match 0 ds name len = Some (Some (0 + j))" "j < length ds" "dir_names ds ! j = x"
    have "i = j" using nth_unique [of "\<lambda>x. x \<noteq> []" "dir_names ds" i j] assms(2,4) i present by (simp add: dir_wf_def)
    with present i that show thesis by simp
  qed (use \<open>x \<in> set (dir_names ds)\<close> in simp)
qed

lemma find_space_free:
  assumes "dir_ok s d" and "has_space s d" and "names name len x" and "x \<noteq> []" and "entries s d x = None"
  obtains k ds where "find_space d name len s = Some (Some k)" and "dirents s d = Some ds" and "dir_wf ds"
    and "k < length ds" and "dir_names ds ! k = []"
proof -
  obtain ds where ds: "dirents s d = Some ds" "dir_wf ds" "[] \<in> set (dir_names ds)"
    using assms(1,2) by (auto simp: dir_ok_def has_space_def)
  have eq: "find_space d name len s = find_free 0 ds"
    by (simp add: find_space_def ramfs_lookup_absent [OF assms(1,3-5)] ds(1))
  show thesis
    by (cases rule: find_free_cases [OF dir_wf_cstring [OF ds(2)], of 0]) (use ds that eq in auto)
qed

lemma set_entry_map:
  assumes "dirents s d = Some ds" and "dir_wf ds" and "k < length ds" and "dir_names ds ! k = []"
    and "names name len x" and "x \<noteq> []" and "len < NAME_LEN" and "dir_map ds x = None"
  obtains s' where "set_entry d k ino name len s = Some s'" and "dir_ok s' d" and "entries s' d = (dir_map ds)(x \<mapsto> ino)"
    and "vnodes s' = vnodes s" and "\<And>v. v \<noteq> d \<Longrightarrow> rfs_inodes s' v = rfs_inodes s v"
proof -
  obtain inode where i: "rfs_inodes s d = Some inode" using assms(1) by (auto simp: dirents_eq)
  have "length (rd_name (ds ! k)) = NAME_LEN" using assms(2,3) by (simp add: dir_wf_def)
  then obtain n where n: "set_name (rd_name (ds ! k)) name len = Some n" "length n = NAME_LEN" "holds n x"
    using set_name_holds [OF assms(5,7)] by blast
  let ?e = "\<lparr>rd_ino = ino, rd_name = n\<rparr>"
  let ?s = "put_inode d (inode\<lparr>rf_mem := Page_dirents (ds[k := ?e]), rf_size := rf_size inode + 32\<rparr>) s"
  have e: "length (rd_name ?e) = NAME_LEN" "cstring (rd_name ?e) = Some x" using n cstring_holds by auto
  have fresh: "x \<noteq> [] \<longrightarrow> x \<notin> set (dir_names ds)" using assms(6,8) dir_map_None by blast
  have "set_entry d k ino name len s = Some ?s" by (simp add: set_entry_def i assms(1) n(1) set_dirents_def)
  moreover have d: "dirents ?s d = Some (ds[k := ?e])" by (simp add: dirents_def)
  moreover have "dir_ok ?s d" using d dir_wf_update [OF assms(2,3) e fresh] by (simp add: dir_ok_def)
  moreover have "entries ?s d = (dir_map ds)(x \<mapsto> ino)"
    unfolding entries_def d using assms(4,6) dir_map_update [OF assms(2,3) e fresh]
    by (auto simp: fun_eq_iff dir_map_def)
  ultimately show thesis using that by simp
qed

lemma ramfs_create_map:
  assumes "vfs_typed s" and "dir_ok s d" and "has_space s d" and "names name len x" and "x \<noteq> []" and "len < NAME_LEN"
    and "entries s d x = None" and "\<forall>j < i. rfs_inodes s j \<noteq> None" and "rfs_inodes s i = None" and "i < RAMFS_MAX_FILES"
  shows "\<exists>s'. ramfs_create True True d name len s = Some (0, Some i, s') \<and> dir_ok s' d \<and>
    entries s' d = (entries s d)(x \<mapsto> i) \<and> (\<forall>e. e \<noteq> d \<and> e \<noteq> i \<longrightarrow> entries s' e = entries s e) \<and>
    (\<exists>inode. rfs_inodes s' i = Some inode \<and> rf_size inode = 0 \<and> rf_mode inode = RAMFS_TYPE_DATA)"
proof -
  obtain k ds where sp: "find_space d name len s = Some (Some k)" and ds: "dirents s d = Some ds" "dir_wf ds"
      "k < length ds" "dir_names ds ! k = []" by (rule find_space_free [OF assms(2-5,7)])
  let ?n = "\<lparr>rf_size = 0, rf_ino = i, rf_mem = new_contents RAMFS_TYPE_DATA 0, rf_mode = RAMFS_TYPE_DATA, rf_linkcount = 1\<rparr>"
  let ?s1 = "put_inode i ?n s"
  have di: "d \<noteq> i" using ds(1) assms(9) by (auto simp: dirents_eq)
  have "vnodes s i = None" using vfs_typed_vnode_ex [OF assms(1), of i] assms(9) by (cases "vnodes s i") auto
  then obtain s2 where s2: "vget i ?s1 = Some s2" "\<And>v. v \<noteq> i \<Longrightarrow> rfs_inodes s2 v = rfs_inodes s v"
      "rfs_inodes s2 i = Some (?n\<lparr>rf_linkcount := 2\<rparr>)"
    by (simp add: vget_def ramfs_read_vnode_def Let_def)
  have ds2: "dirents s2 d = Some ds" using entries_cong [of s2 d s] s2(2) di ds(1) by simp
  have "dir_map ds x = None" using assms(7) ds(1) by (simp add: entries_def)
  then obtain s3 where s3: "set_entry d k i name len s2 = Some s3" "dir_ok s3 d" "entries s3 d = (dir_map ds)(x \<mapsto> i)"
      "\<And>v. v \<noteq> d \<Longrightarrow> rfs_inodes s3 v = rfs_inodes s2 v"
    using set_entry_map [OF ds2 ds(2-4) assms(4-6), of i] by blast
  have "ramfs_create True True d name len s = Some (0, Some i, s3)"
    unfolding ramfs_create_def by (simp add: sp alloc_first [OF assms(8-10)] s2(1) s3(1))
  moreover have "entries s3 e = entries s e" if "e \<noteq> d" "e \<noteq> i" for e
    using entries_cong [of s3 e s] that s2(2) s3(4) by simp
  ultimately show ?thesis using s2(3) s3 di ds(1) by (auto simp: entries_def)
qed


text \<open>
  C28: creating a new name in a directory with space returns a new, empty file and extends the directory by exactly that
  name; every other directory is as it was.
\<close>

theorem ramfs_create_refines:
  assumes "vfs_typed s" and "dir_ok s d" and "has_space s d" and "names name len x" and "x \<noteq> []" and "len < NAME_LEN"
    and "entries s d x = None" and "\<forall>j < i. rfs_inodes s j \<noteq> None" and "rfs_inodes s i = None" and "i < RAMFS_MAX_FILES"
  shows "\<exists>s'. ramfs_create True True d name len s = Some (0, Some i, s') \<and> dir_ok s' d \<and>
    entries s' d = (entries s d)(x \<mapsto> i) \<and> (\<forall>e. e \<noteq> d \<and> e \<noteq> i \<longrightarrow> entries s' e = entries s e) \<and>
    (\<exists>inode. rfs_inodes s' i = Some inode \<and> rf_size inode = 0 \<and> rf_mode inode = RAMFS_TYPE_DATA)"
  by (rule ramfs_create_map [OF assms])

definition fs0 :: vfs where
  "fs0 = \<lparr>rfs_inodes = Map.empty, vnodes = Map.empty, bytedevs = Map.empty, blockdevs = Map.empty\<rparr>"

lemma fs0_mounted:
  obtains s where "ramfs_mount True True True fs0 = Some (0, s)" and "vfs_typed s" and "dir_ok s 0" and "has_space s 0"
    and "entries s 0 = [[46] \<mapsto> 0, [46, 46] \<mapsto> 0]" and "\<exists>i. rfs_inodes s 0 = Some i \<and> rf_linkcount i = 2" and "\<forall>i. i \<noteq> 0 \<longrightarrow> rfs_inodes s i = None"
    and "vnodes s = [0 \<mapsto> \<lparr>vn_ops = Ramfs_dir_vops, vn_refcount = 1, vn_mode = S_IFDIR, vn_len = 64, vn_devid = 0, vn_cdev = None\<rparr>]"
proof -
  have e: "vnodes fs0 = Map.empty" by (simp add: fs0_def)
  obtain s ds where s: "ramfs_mount True True True fs0 = Some (0, s)" "dirents s 0 = Some ds" "dir_wf ds"
    "dir_map ds = [[46] \<mapsto> 0, [46, 46] \<mapsto> 0]" "dir_names ds ! 2 = []" "length ds = RAMFS_MAX_DIRENT" "\<forall>i. i \<noteq> 0 \<longrightarrow> rfs_inodes s i = None"
    "\<exists>i. rfs_inodes s 0 = Some i \<and> rf_linkcount i = 2" "vnodes s = [0 \<mapsto> \<lparr>vn_ops = Ramfs_dir_vops, vn_refcount = 1, vn_mode = S_IFDIR, vn_len = 64, vn_devid = 0, vn_cdev = None\<rparr>]"
    by (rule ramfs_mount_fresh [OF e])
  have "[] \<in> set (dir_names ds)" using s(5,6) nth_mem [of 2 "dir_names ds"] by simp
  then have "has_space s 0" using s(2) by (auto simp: has_space_def)
  moreover have "vfs_typed s" by (rule ramfs_mount_typed [OF e s(1)]) simp
  ultimately show thesis using s by (intro that [of s]) (auto simp: dir_ok_def entries_def)
qed

theorem ramfs_create_refines_witness:
  "\<exists>s s'. ramfs_mount True True True fs0 = Some (0, s) \<and> ramfs_create True True 0 [97, 0] 1 s = Some (0, Some 1, s') \<and>
    entries s' 0 [97] = Some 1 \<and> entries s' 0 [46] = Some 0"
proof -
  obtain s where s: "ramfs_mount True True True fs0 = Some (0, s)" "vfs_typed s" "dir_ok s 0" "has_space s 0"
    "entries s 0 = [[46] \<mapsto> 0, [46, 46] \<mapsto> 0]" "\<exists>i. rfs_inodes s 0 = Some i \<and> rf_linkcount i = 2" "\<forall>i. i \<noteq> 0 \<longrightarrow> rfs_inodes s i = None"
    by (rule fs0_mounted)
  have n: "names [97, 0] 1 [97]" by (simp add: names_def)
  have "\<forall>j < 1. rfs_inodes s j \<noteq> None" "rfs_inodes s 1 = None" using s(6,7) by auto
  from ramfs_create_refines [OF s(2-4) n _ _ _ this] obtain s' where "ramfs_create True True 0 [97, 0] 1 s = Some (0, Some 1, s')"
      "entries s' 0 = (entries s 0)([97] \<mapsto> 1)" by (auto simp: s(5))
  with s(1,5) show ?thesis by auto
qed

text \<open>The links of a file are counted apart from the one its vnode holds while it is in memory.\<close>

definition nlinks :: "vfs \<Rightarrow> nat \<Rightarrow> int" where
  "nlinks s v = (case rfs_inodes s v of None \<Rightarrow> 0 | Some i \<Rightarrow> rf_linkcount i - (if vnodes s v = None then 0 else 1))"

lemma vget_eq:
  assumes "vfs_typed s" and "rfs_inodes s v = Some inode"
  obtains vn where "vget v s = Some (put_vnode v vn (if vnodes s v = None then put_inode v (inode\<lparr>rf_linkcount := rf_linkcount inode + 1\<rparr>) s else s))"
    and "vn_mode vn = type_mode (rf_mode inode)" and "vn_refcount vn = (case vnodes s v of None \<Rightarrow> 1 | Some n \<Rightarrow> vn_refcount n + 1)"
    and "case vnodes s v of None \<Rightarrow> True | Some n \<Rightarrow> vn\<lparr>vn_refcount := vn_refcount n\<rparr> = n"
proof (cases "vnodes s v")
  case None
  have ok: "inode_ok v inode" by (rule vfs_typed_inode [OF assms])
  then obtain vn s1 where r: "ramfs_read_vnode v s = Some (vn, s1)"
    using assms(2) by (cases "rf_mode inode") (auto simp: ramfs_read_vnode_def Let_def inode_ok_def contents_ok_def)
  obtain i where "rfs_inodes s v = Some i" "s1 = put_inode v (i\<lparr>rf_linkcount := rf_linkcount i + 1\<rparr>) s" "vn_mode vn = type_mode (rf_mode i)"
    by (rule ramfs_read_vnode_eq [OF r])
  with None r assms(2) show thesis by (intro that [of "vn\<lparr>vn_refcount := 1\<rparr>"]) (simp_all add: vget_def)
next
  case (Some n)
  have "vnode_ok n inode" using vfs_typed_vnode_ex [OF assms(1) Some] assms(2) by simp
  with Some show thesis by (intro that [of "n\<lparr>vn_refcount := vn_refcount n + 1\<rparr>"]) (simp_all add: vget_def vref_def vnode_ok_def)
qed

text \<open>
  C29: taking a reference to a file and giving it back restores the file system, whether or not the file's vnode was in
  memory before.
\<close>

theorem vget_vput_roundtrip:
  assumes "vfs_typed s" and "rfs_inodes s v = Some inode" and "0 < nlinks s v"
  shows "\<exists>s'. vget v s = Some s' \<and> vput v s' = Some s"
proof -
  obtain vn where g: "vget v s = Some (put_vnode v vn (if vnodes s v = None then put_inode v (inode\<lparr>rf_linkcount := rf_linkcount inode + 1\<rparr>) s else s))"
    and rc: "vn_refcount vn = (case vnodes s v of None \<Rightarrow> 1 | Some n \<Rightarrow> vn_refcount n + 1)"
    and same: "case vnodes s v of None \<Rightarrow> True | Some n \<Rightarrow> vn\<lparr>vn_refcount := vn_refcount n\<rparr> = n"
    by (rule vget_eq [OF assms(1,2)])
  show ?thesis
  proof (cases "vnodes s v")
    case None
    let ?s' = "put_vnode v vn (put_inode v (inode\<lparr>rf_linkcount := rf_linkcount inode + 1\<rparr>) s)"
    have "rf_linkcount inode \<noteq> 0" using assms(2,3) None by (simp add: nlinks_def)
    then have "vput v ?s' = Some s" using None rc assms(2)
      by (cases s) (auto simp: vput_def ramfs_query_vnode_def ramfs_delete_vnode_def Let_def put_inode_def put_vnode_def fun_upd_idem)
    with g None show ?thesis by simp
  next
    case (Some n)
    have "0 < vn_refcount n" using vfs_typed_vnode_ex [OF assms(1) Some] by (auto simp: vnode_ok_def)
    then have "vput v (put_vnode v vn s) = Some s" using Some rc same
      by (cases s) (auto simp: vput_def put_vnode_def fun_upd_idem)
    with g Some show ?thesis by simp
  qed
qed

theorem vget_vput_roundtrip_witness:
  "\<exists>s s'. ramfs_mount True True True fs0 = Some (0, s) \<and> vget 0 s = Some s' \<and> vput 0 s' = Some s"
proof -
  obtain s where s: "ramfs_mount True True True fs0 = Some (0, s)" "vfs_typed s"
      "\<exists>i. rfs_inodes s 0 = Some i \<and> rf_linkcount i = 2"
      "vnodes s = [0 \<mapsto> \<lparr>vn_ops = Ramfs_dir_vops, vn_refcount = 1, vn_mode = S_IFDIR, vn_len = 64, vn_devid = 0, vn_cdev = None\<rparr>]"
    by (rule fs0_mounted)
  then obtain i where i: "rfs_inodes s 0 = Some i" "rf_linkcount i = 2" by blast
  have "0 < nlinks s 0" by (simp add: nlinks_def i s(4))
  from vget_vput_roundtrip [OF s(2) i(1) this] s(1) show ?thesis by blast
qed

section \<open>Removing names\<close>

lemma drop_entry_map:
  assumes "dirents s d = Some ds" and "dir_wf ds" and "names name len x" and "x \<noteq> []" and "entries s d x = Some v"
    and "v \<noteq> d" and "rfs_inodes s v = Some target"
  obtains s1 where "drop_entry d name len v s = vput v (put_inode v (target\<lparr>rf_linkcount := rf_linkcount target - 1\<rparr>) s1)"
    and "dir_ok s1 d" and "entries s1 d = (entries s d)(x := None)" and "vnodes s1 = vnodes s"
    and "\<And>w. w \<noteq> d \<Longrightarrow> rfs_inodes s1 w = rfs_inodes s w"
proof -
  obtain inode where i: "rfs_inodes s d = Some inode" using assms(1) by (auto simp: dirents_eq)
  obtain k where k: "find_match 0 ds name len = Some (Some k)" "k < length ds" "dir_names ds ! k = x" "rd_ino (ds ! k) = v"
    by (rule find_match_present [OF assms(1-5)])
  let ?e = "(ds ! k)\<lparr>rd_name := (rd_name (ds ! k))[0 := 0]\<rparr>"
  let ?s1 = "put_inode d (inode\<lparr>rf_mem := Page_dirents (ds[k := ?e]), rf_size := rf_size inode - 32\<rparr>) s"
  have l: "length (rd_name (ds ! k)) = NAME_LEN" using assms(2) k(2) by (simp add: dir_wf_def)
  then have e: "length (rd_name ?e) = NAME_LEN" "cstring (rd_name ?e) = Some []"
    by (cases "rd_name (ds ! k)"; simp)+
  have "drop_entry d name len v s = vput v (put_inode v (target\<lparr>rf_linkcount := rf_linkcount target - 1\<rparr>) ?s1)"
    using assms(6,7) by (simp add: drop_entry_def assms(1) k(1) i set_dirents_def Let_def)
  moreover have d1: "dirents ?s1 d = Some (ds[k := ?e])" by (simp add: dirents_def)
  moreover have "dir_ok ?s1 d" using d1 dir_wf_update [OF assms(2) k(2) e] by (simp add: dir_ok_def)
  moreover have "entries ?s1 d = (entries s d)(x := None)"
    unfolding entries_def d1 assms(1) using dir_map_update [OF assms(2) k(2) e] k(3) by (auto simp: fun_eq_iff dir_map_def)
  ultimately show thesis using that by simp
qed

text \<open>
  C30: unlinking a file removes exactly its name from the directory and takes one link from the file, whose inode is freed
  when that was the last link and its vnode is not in memory; vnodes in memory stay as they are.
\<close>

theorem ramfs_unlink_refines:
  assumes "vfs_typed s" and "dir_ok s d" and "names name len x" and "x \<noteq> []" and "entries s d x = Some v"
    and "rfs_inodes s v = Some inode" and "rf_mode inode \<noteq> RAMFS_TYPE_DIR"
  shows "\<exists>s'. ramfs_unlink d name len s = Some (0, s') \<and> dir_ok s' d \<and> entries s' d = (entries s d)(x := None) \<and>
    vnodes s' = vnodes s \<and>
    rfs_inodes s' v = (if vnodes s v = None \<and> nlinks s v = 1 then None else Some (inode\<lparr>rf_linkcount := rf_linkcount inode - 1\<rparr>))"
proof -
  obtain ds where ds: "dirents s d = Some ds" "dir_wf ds" using assms(2) by (auto simp: dir_ok_def)
  obtain k where k: "find_match 0 ds name len = Some (Some k)" "rd_ino (ds ! k) = v"
    using find_match_present [OF ds assms(3-5)] by metis
  obtain vn where g: "vget v s = Some (put_vnode v vn (if vnodes s v = None then put_inode v (inode\<lparr>rf_linkcount := rf_linkcount inode + 1\<rparr>) s else s))"
    and mode: "vn_mode vn = type_mode (rf_mode inode)"
    and rc: "vn_refcount vn = (case vnodes s v of None \<Rightarrow> 1 | Some n \<Rightarrow> vn_refcount n + 1)"
    and same: "case vnodes s v of None \<Rightarrow> True | Some n \<Rightarrow> vn\<lparr>vn_refcount := vn_refcount n\<rparr> = n"
    by (rule vget_eq [OF assms(1,6)])
  define target where "target = (if vnodes s v = None then inode\<lparr>rf_linkcount := rf_linkcount inode + 1\<rparr> else inode)"
  define s0 where "s0 = put_vnode v vn (put_inode v target s)"
  have g0: "vget v s = Some s0"
    using g assms(6) by (cases s) (auto simp: s0_def target_def put_inode_def put_vnode_def fun_upd_idem)
  have vd: "v \<noteq> d" using vfs_typed_inode [OF assms(1,6)] ds(1) assms(6,7) by (auto simp: dirents_eq inode_ok_def contents_ok_dirents)
  have eq0: "dirents s0 d = Some ds" "entries s0 d = entries s d" using entries_cong [of s0 d s] vd ds(1) by (auto simp: s0_def)
  have t0: "rfs_inodes s0 v = Some target" by (simp add: s0_def)
  obtain s1 where s1: "drop_entry d name len v s0 = vput v (put_inode v (target\<lparr>rf_linkcount := rf_linkcount target - 1\<rparr>) s1)"
    "dir_ok s1 d" "entries s1 d = (entries s d)(x := None)" "vnodes s1 = vnodes s0" "\<And>w. w \<noteq> d \<Longrightarrow> rfs_inodes s1 w = rfs_inodes s0 w"
    using drop_entry_map [OF eq0(1) ds(2) assms(3,4) _ vd t0] assms(5) eq0(2) by metis
  let ?s2 = "put_inode v (target\<lparr>rf_linkcount := rf_linkcount target - 1\<rparr>) s1"
  have u: "ramfs_unlink d name len s = Option.bind (vput v ?s2) (\<lambda>s'. Some (0, s'))"
    using mode assms(7) by (simp add: ramfs_unlink_def ramfs_lookup_def ds(1) k g0 s1(1)) (simp add: s0_def)
  have v1: "vnodes s1 v = Some vn" by (simp add: s1(4) s0_def)
  have keep: "dir_ok s' d \<and> entries s' d = (entries s d)(x := None)" if "rfs_inodes s' d = rfs_inodes s1 d" for s'
    using entries_cong [OF that] s1(2,3) by (simp add: dir_ok_def)
  show ?thesis
  proof (cases "vnodes s v")
    case None
    then have rc1: "vn_refcount vn = 1" using rc by simp
    show ?thesis
      using None vd keep assms(6) v1 rc1 s1(4) unfolding u
      by (auto simp: vput_def ramfs_query_vnode_def ramfs_delete_vnode_def Let_def target_def nlinks_def s0_def)
  next
    case (Some n)
    have n: "0 < vn_refcount n" using vfs_typed_vnode_ex [OF assms(1) Some] by (auto simp: vnode_ok_def)
    have "vput v ?s2 = Some (put_vnode v n ?s2)" using Some rc same n v1 by (simp add: vput_def)
    then show ?thesis using Some vd keep s1(4) by (auto simp: u target_def s0_def fun_upd_idem)
  qed
qed


lemma fs0_with_file:
  obtains s where "vfs_typed s" and "dir_ok s 0" and "entries s 0 = [[46] \<mapsto> 0, [46, 46] \<mapsto> 0, [97] \<mapsto> 1]"
    and "\<exists>inode. rfs_inodes s 1 = Some inode \<and> rf_size inode = 0 \<and> rf_mode inode = RAMFS_TYPE_DATA"
proof -
  obtain s where s: "vfs_typed s" "dir_ok s 0" "has_space s 0" "entries s 0 = [[46] \<mapsto> 0, [46, 46] \<mapsto> 0]"
      "\<exists>i. rfs_inodes s 0 = Some i \<and> rf_linkcount i = 2" "\<forall>i. i \<noteq> 0 \<longrightarrow> rfs_inodes s i = None"
    by (rule fs0_mounted)
  have n: "names [97, 0] 1 [97]" by (simp add: names_def)
  have "\<forall>j < 1. rfs_inodes s j \<noteq> None" "rfs_inodes s 1 = None" using s(5,6) by auto
  from ramfs_create_map [OF s(1-3) n _ _ _ this] obtain s' where s': "ramfs_create True True 0 [97, 0] 1 s = Some (0, Some 1, s')"
      "dir_ok s' 0" "entries s' 0 = (entries s 0)([97] \<mapsto> 1)"
      "\<exists>inode. rfs_inodes s' 1 = Some inode \<and> rf_size inode = 0 \<and> rf_mode inode = RAMFS_TYPE_DATA" by (auto simp: s(4))
  show thesis by (rule that [OF ramfs_create_typed [OF s(1) s'(1)] s'(2) _ s'(4)]) (simp add: s'(3) s(4))
qed

theorem ramfs_unlink_refines_witness:
  "\<exists>s s'. entries s 0 = [[46] \<mapsto> 0, [46, 46] \<mapsto> 0, [97] \<mapsto> 1] \<and> ramfs_unlink 0 [97, 0] 1 s = Some (0, s') \<and>
    entries s' 0 = [[46] \<mapsto> 0, [46, 46] \<mapsto> 0]"
proof -
  obtain s inode where s: "vfs_typed s" "dir_ok s 0" "entries s 0 = [[46] \<mapsto> 0, [46, 46] \<mapsto> 0, [97] \<mapsto> 1]"
    "rfs_inodes s 1 = Some inode" "rf_mode inode = RAMFS_TYPE_DATA" using fs0_with_file by metis
  have n: "names [97, 0] 1 [97]" by (simp add: names_def)
  have "entries s 0 [97] = Some 1" by (simp add: s(3))
  from ramfs_unlink_refines [OF s(1,2) n _ this s(4)] s(5) obtain s' where "ramfs_unlink 0 [97, 0] 1 s = Some (0, s')"
      "entries s' 0 = (entries s 0)([97] := None)" by auto
  with s(3) show ?thesis by (intro exI [of _ s] exI [of _ s']) (auto simp: fun_eq_iff)
qed

text \<open>
  C31: whatever sequence of operations runs on a mounted file system, it stays well typed: inodes have the contents of
  their type, every vnode in memory has references, an existing inode, and the mode and operation table of that
  inode's type, and regular files have the length of their inode.
\<close>

theorem ramfs_well_typed:
  assumes "vnodes s0 = Map.empty" and "ramfs_mount True a b s0 = Some (r, s)" and "ramfs_step\<^sup>*\<^sup>* s s'"
  shows "vfs_typed s'"
  using assms(3) ramfs_mount_typed [OF assms(1,2)] by (induction rule: rtranclp_induct) (auto intro: ramfs_step_typed)

theorem ramfs_well_typed_witness:
  "\<exists>s s'. ramfs_mount True True True fs0 = Some (0, s) \<and> vget 0 s = Some s' \<and> vfs_typed s'"
proof -
  obtain s where s: "ramfs_mount True True True fs0 = Some (0, s)" "vfs_typed s" "\<exists>i. rfs_inodes s 0 = Some i \<and> rf_linkcount i = 2"
    by (rule fs0_mounted)
  then obtain s' where s': "vget 0 s = Some s'" using vget_eq [OF s(2)] by metis
  then have "ramfs_step\<^sup>*\<^sup>* s s'" by (auto intro: ramfs_step.intros)
  from ramfs_well_typed [OF _ s(1) this] s(1) s' show ?thesis by (auto simp: fs0_def)
qed

section \<open>Reading and writing\<close>

lemma ramfs_write_ok:
  assumes "rfs_inodes s v = Some inode" and "vnodes s v = Some vn" and "vnode_ok vn inode" and "rf_mode inode = RAMFS_TYPE_DATA"
    and "rf_mem inode = Page_data mem" and "length mem = 4096" and "p + n \<le> 4096" and "n \<le> length data"
  shows "ramfs_write v (int p) data n s = Some (int n,
    put_inode v (inode\<lparr>rf_mem := Page_data (take p mem @ take n data @ drop (p + n) mem), rf_size := max (rf_size inode) (int (p + n))\<rparr>)
      (put_vnode v (vn\<lparr>vn_len := max (rf_size inode) (int (p + n))\<rparr>) s))"
proof -
  have o: "off_t n = int n" using assms(7) by (simp add: off_t_def)
  have "memcpy (drop p mem) data n = Some (take n data @ drop (p + n) mem)"
    using memcpy_eq [of n "drop p mem" data] assms(6-8) by (simp add: add.commute)
  moreover have "vn_mode vn \<noteq> S_IFDIR" "vn_len vn = rf_size inode" using assms(3,4) by (auto simp: vnode_ok_def type_mode_def)
  ultimately show ?thesis using assms(7) by (simp add: ramfs_write_def assms(1,2,5) o Let_def min_def)
qed

lemma ramfs_read_ok:
  assumes "rfs_inodes s v = Some inode" and "vnodes s v = Some vn" and "vn_mode vn = S_IFREG" and "rf_mem inode = Page_data mem"
    and "length mem = 4096" and "p + n \<le> 4096" and "int (p + n) \<le> rf_size inode" and "n \<le> length buf"
  shows "ramfs_read v (int p) buf n s = Some (int n, take n (drop p mem) @ drop n buf)"
proof -
  have o: "off_t n = int n" using assms(6) by (simp add: off_t_def)
  have r: "max 0 (min (int n) (rf_size inode - int p)) = int n" using assms(7) by (simp add: min_def max_def)
  have "memcpy buf (drop p mem) n = Some (take n (drop p mem) @ drop n buf)"
    using memcpy_eq [of n buf "drop p mem"] assms(5,6,8) by simp
  then show ?thesis by (auto simp: ramfs_read_def assms(1-4) o r Let_def)
qed

lemma ramfs_write_behind_page: "4096 < offset \<Longrightarrow> ramfs_write v offset buf count s = None"
  by (cases "ramfs_write v offset buf count s") (auto elim!: ramfs_write_eq)

end
