(* ===== verification/Vfs.thy ===== *)
theory Vfs
  imports Ramfs_Dir
begin

text \<open>
  Open files (fs/file.c), path resolution (fs/namev.c), opening (fs/open.c) and the file system calls
  (fs/vfs\_syscall.c) over the file system of theory Ramfs.  The state is that file system, the file objects, and of
  the current process its descriptor table and working directory.  A pointer to characters is an address with the
  bytes it points to, or NULL; file positions are integers (C leaves sums that overflow 32 bits undefined).

  Arguments that stand for other code: the address the slab allocator returns for a file object, whether memory can be
  allocated, and the read and write operations of character devices.
\<close>

unbundle bit_operations_syntax

section \<open>File objects\<close>

record file_t =
  f_pos :: int
  f_mode :: int
  f_refcount :: int
  f_vnode :: "nat option"

record ksys =
  sys_fs :: vfs
  files :: "nat \<rightharpoonup> file_t"
  p_files :: "nat option list"
  p_cwd :: "nat option"
  vfs_root_vn :: "nat option"

type_synonym cptr = "(nat \<times> byte list) option"

abbreviation (input) NFILES :: nat where "NFILES \<equiv> 32"
abbreviation (input) MAXPATHLEN :: nat where "MAXPATHLEN \<equiv> 1024"

definition on_fs :: "(vfs \<Rightarrow> vfs option) \<Rightarrow> ksys \<Rightarrow> ksys option" where
  "on_fs f s = do { v \<leftarrow> f (sys_fs s); Some (s\<lparr>sys_fs := v\<rparr>) }"

abbreviation put_file :: "nat \<Rightarrow> file_t \<Rightarrow> ksys \<Rightarrow> ksys" where
  "put_file a f s \<equiv> s\<lparr>files := (files s)(a \<mapsto> f)\<rparr>"

definition fref :: "nat \<Rightarrow> ksys \<Rightarrow> ksys option" where
  "fref a s = do {
     f \<leftarrow> files s a;
     kassert (0 \<le> f_mode f \<and> f_mode f < 8);
     kassert (- 1 \<le> f_pos f);
     kassert (0 \<le> f_refcount f);
     kassert (f_refcount f \<noteq> 0 \<longrightarrow> f_vnode f \<noteq> None);
     Some (put_file a (f\<lparr>f_refcount := f_refcount f + 1\<rparr>) s)
   }"

definition fget :: "nat option \<Rightarrow> int \<Rightarrow> ksys \<Rightarrow> (nat option \<times> ksys) option" where
  "fget new_file fd s =
    (if fd = - 1 then
       (case new_file of
          None \<Rightarrow> Some (None, s)
        | Some a \<Rightarrow> do {
            s1 \<leftarrow> fref a (put_file a \<lparr>f_pos = 0, f_mode = 0, f_refcount = 0, f_vnode = None\<rparr> s);
            Some (Some a, s1)
          })
     else if fd < 0 \<or> int NFILES \<le> fd then Some (None, s)
     else
       (case p_files s ! nat fd of
          None \<Rightarrow> Some (None, s)
        | Some a \<Rightarrow> do { s1 \<leftarrow> fref a s; Some (Some a, s1) }))"

definition fput :: "nat option \<Rightarrow> ksys \<Rightarrow> ksys option" where
  "fput fp s = do {
     a \<leftarrow> fp;
     f \<leftarrow> files s a;
     kassert (0 \<le> f_mode f \<and> f_mode f < 8);
     kassert (- 1 \<le> f_pos f);
     kassert (0 < f_refcount f);
     kassert (f_refcount f \<noteq> 1 \<longrightarrow> f_vnode f \<noteq> None);
     (if f_refcount f - 1 = 0 then do {
        s1 \<leftarrow> (case f_vnode f of None \<Rightarrow> Some s | Some v \<Rightarrow> on_fs (vput v) s);
        Some (s1\<lparr>files := (files s1)(a := None)\<rparr>)
      } else Some (put_file a (f\<lparr>f_refcount := f_refcount f - 1\<rparr>) s))
   }"

definition get_empty_fd :: "ksys \<Rightarrow> int" where
  "get_empty_fd s =
    (case List.find (\<lambda>fd. p_files s ! fd = None) [0 ..< NFILES] of
       None \<Rightarrow> - EMFILE
     | Some fd \<Rightarrow> int fd)"

text \<open>The test that starts most system calls on a descriptor.\<close>

definition bad_fd :: "int \<Rightarrow> ksys \<Rightarrow> bool" where
  "bad_fd fd s \<longleftrightarrow> fd < 0 \<or> int NFILES \<le> fd \<or> p_files s ! nat fd = None"

section \<open>Path resolution\<close>

text \<open>
  A lookup of \<open>.\<close> or \<open>..\<close> as the whole rest of a path returns 0 and leaves the result as it was; an unset
  result is \<^term>\<open>None\<close>.
\<close>

definition lookup :: "nat \<Rightarrow> byte list \<Rightarrow> nat \<Rightarrow> nat option \<Rightarrow> ksys \<Rightarrow> (int \<times> nat option \<times> ksys) option" where
  "lookup dir name len result s = do {
     vn \<leftarrow> vnodes (sys_fs s) dir;
     (if vn_mode vn \<noteq> S_IFDIR \<or> vn_ops vn \<noteq> Ramfs_dir_vops then Some (- ENOTDIR, result, s)
      else do {
        a \<leftarrow> strcmp name dot;
        b \<leftarrow> (if a = 0 then Some 0 else strcmp name dotdot);
        (if a = 0 \<or> b = 0 then Some (0, result, s)
         else do {
           (ret, r, v) \<leftarrow> ramfs_lookup dir name len (sys_fs s);
           Some (ret, (if ret = 0 then r else result), s\<lparr>sys_fs := v\<rparr>)
         })
      })
   }"

text \<open>
  dir\_namev.  \<open>child\<close> is NULL when no slash follows, and the length is then the difference of NULL and the
  address of the component, cast to int.  A round moves past a slash, so there are at most as many as the path has
  characters.  The result is an error, or the length, the offset of the name and the directory.
\<close>

definition component_len :: "nat \<Rightarrow> nat \<Rightarrow> nat option \<Rightarrow> int" where
  "component_len addr parent child =
    (case child of None \<Rightarrow> off_t (usub 0 ((addr + parent) mod 2 ^ 32)) | Some k \<Rightarrow> int k)"

primrec namev_loop :: "nat \<Rightarrow> nat \<Rightarrow> byte list \<Rightarrow> nat \<Rightarrow> nat \<Rightarrow> nat option \<Rightarrow> ksys \<Rightarrow> ((int + nat \<times> nat \<times> nat) \<times> ksys) option" where
  "namev_loop 0 addr path parent ptr temp s = None"
| "namev_loop (Suc n) addr path parent ptr temp s = do {
     vn \<leftarrow> vnodes (sys_fs s) ptr;
     (if vn_mode vn \<noteq> S_IFDIR then do { s1 \<leftarrow> on_fs (vput ptr) s; Some (Inl (- ENOTDIR), s1) }
      else do {
        c \<leftarrow> strchr (drop parent path) 47;
        (if component_len addr parent c > int NAME_LEN then do { s1 \<leftarrow> on_fs (vput ptr) s; Some (Inl (- ENAMETOOLONG), s1) }
         else do {
           k \<leftarrow> c;
           let child = parent + k + length (takeWhile ((=) 47) (drop (parent + k) path));
           kassert (child < length path);
           (if path ! child = 0 then Some (Inr (k, parent, ptr), s)
            else do {
              (ret, temp1, s1) \<leftarrow> lookup ptr (drop parent path) k temp s;
              s2 \<leftarrow> on_fs (vput ptr) s1;
              (if ret = 0 then do { t \<leftarrow> temp1; namev_loop n addr path child t temp1 s2 } else Some (Inl ret, s2))
            })
         })
      })
   }"

definition dir_namev :: "cptr \<Rightarrow> nat option \<Rightarrow> ksys \<Rightarrow> ((int + nat \<times> nat \<times> nat) \<times> ksys) option" where
  "dir_namev pathname base s = do {
     (addr, path) \<leftarrow> pathname;
     l \<leftarrow> strlen path;
     (if l > MAXPATHLEN then Some (Inl (- ENAMETOOLONG), s)
      else if l = 0 then Some (Inl (- EINVAL), s)
      else do {
        let root = (path ! 0 = 47);
        ptr \<leftarrow> (if root then vfs_root_vn s else case base of None \<Rightarrow> p_cwd s | Some b \<Rightarrow> Some b);
        s1 \<leftarrow> on_fs (vref ptr) s;
        namev_loop (length path) addr path (if root then 1 else 0) ptr None s1
      })
   }"

text \<open>
  open\_namev returns with the directory when dir\_namev succeeds.  Otherwise it goes on with what the
  caller's variable \<open>res\<close> held (nothing, for every caller) and a name that was never set.
\<close>

definition open_namev :: "cptr \<Rightarrow> int \<Rightarrow> nat option \<Rightarrow> nat option \<Rightarrow> ksys \<Rightarrow> (int \<times> nat option \<times> ksys) option" where
  "open_namev pathname flag res base s = do {
     (r, s1) \<leftarrow> dir_namev pathname base s;
     (case r of
        Inr (namelen, name, dir) \<Rightarrow> Some (0, Some dir, s1)
      | Inl err \<Rightarrow> do {
          v \<leftarrow> res;
          vn \<leftarrow> vnodes (sys_fs s1) v;
          (if vn_mode vn \<noteq> S_IFDIR then do { s2 \<leftarrow> on_fs (vput v) s1; Some (- ENOTDIR, res, s2) } else None)
        })
   }"

section \<open>Opening\<close>

definition open_mode :: "int \<Rightarrow> int option" where
  "open_mode oflags =
    (if oflags \<in> {0, 256, 512} then Some 1
     else if oflags \<in> {1, 513, 257} then Some 2
     else if oflags \<in> {2, 514, 258} then Some 3
     else if oflags = 1024 then Some 5
     else if oflags = 1025 then Some 6
     else if oflags = 1026 then Some 7
     else None)"

text \<open>The second half of do\_open, from the result of open\_namev on.\<close>

definition open_vnode :: "int \<Rightarrow> nat \<Rightarrow> int \<Rightarrow> int \<Rightarrow> nat option \<Rightarrow> ksys \<Rightarrow> (int \<times> ksys) option" where
  "open_vnode fd a oflags err res s =
    (if err \<noteq> 0 then do { s1 \<leftarrow> fput (Some a) s; Some (err, s1) }
     else do {
       v \<leftarrow> res;
       vn \<leftarrow> vnodes (sys_fs s) v;
       (if vn_mode vn = S_IFDIR \<and> (oflags AND 3 = 1 \<or> oflags AND 3 = 2) then
          do { s1 \<leftarrow> fput (Some a) s; s2 \<leftarrow> on_fs (vput v) s1; Some (- EISDIR, s2) }
        else if (vn_mode vn = S_IFCHR \<and> bytedevs (sys_fs s) (vn_devid vn) = None) \<or>
                (vn_mode vn = S_IFBLK \<and> blockdevs (sys_fs s) (vn_devid vn) = None) then
          do { s1 \<leftarrow> fput (Some a) s; s2 \<leftarrow> on_fs (vput v) s1; Some (- ENXIO, s2) }
        else do {
          g \<leftarrow> files s a;
          let s1 = put_file a (g\<lparr>f_vnode := Some v\<rparr>) s;
          Some (fd, s1\<lparr>p_files := (p_files s1)[nat fd := Some a]\<rparr>)
        })
     })"

definition do_open :: "nat option \<Rightarrow> cptr \<Rightarrow> int \<Rightarrow> ksys \<Rightarrow> (int \<times> ksys) option" where
  "do_open new_file filename oflags s =
    (let fd = get_empty_fd s in
     if fd = - EMFILE then Some (- EMFILE, s)
     else do {
       (fp, s1) \<leftarrow> fget new_file (- 1) s;
       a \<leftarrow> fp;
       (addr, path) \<leftarrow> filename;
       l \<leftarrow> strlen path;
       (if l > NAME_LEN then do { s2 \<leftarrow> fput fp s1; Some (- ENAMETOOLONG, s2) }
        else case open_mode oflags of
          None \<Rightarrow> do { s2 \<leftarrow> fput fp s1; Some (- EINVAL, s2) }
        | Some mode \<Rightarrow> do {
            f \<leftarrow> files s1 a;
            (err, res, s2) \<leftarrow> open_namev filename oflags None None (put_file a (f\<lparr>f_mode := mode\<rparr>) s1);
            open_vnode fd a oflags err res s2
          })
     })"

section \<open>Reading and writing\<close>

text \<open>The operations of the vnode's table; device operations are arguments.\<close>

type_synonym dev_read = "nat \<Rightarrow> int \<Rightarrow> byte list \<Rightarrow> nat \<Rightarrow> (int \<times> byte list) option"
type_synonym dev_write = "nat \<Rightarrow> int \<Rightarrow> byte list \<Rightarrow> nat \<Rightarrow> int option"

definition special_file_read :: "dev_read \<Rightarrow> vnode \<Rightarrow> int \<Rightarrow> byte list \<Rightarrow> nat \<Rightarrow> (int \<times> byte list) option" where
  "special_file_read cd_read vn offset buf count = do {
     kassert (vn_mode vn = S_IFCHR \<or> vn_mode vn = S_IFBLK);
     (if vn_mode vn = S_IFCHR then do { cdev \<leftarrow> vn_cdev vn; cd_read cdev offset buf count } else Some (- 95, buf))
   }"

definition special_file_write :: "dev_write \<Rightarrow> vnode \<Rightarrow> int \<Rightarrow> byte list \<Rightarrow> nat \<Rightarrow> int option" where
  "special_file_write cd_write vn offset buf count = do {
     kassert (vn_mode vn = S_IFCHR \<or> vn_mode vn = S_IFBLK);
     (if vn_mode vn = S_IFCHR then do { cdev \<leftarrow> vn_cdev vn; cd_write cdev offset buf count } else Some (- 95))
   }"

definition vn_read :: "dev_read \<Rightarrow> nat \<Rightarrow> int \<Rightarrow> byte list \<Rightarrow> nat \<Rightarrow> vfs \<Rightarrow> (int \<times> byte list) option" where
  "vn_read cd_read v offset buf count s = do {
     vn \<leftarrow> vnodes s v;
     (case vn_ops vn of
        Ramfs_file_vops \<Rightarrow> ramfs_read v offset buf count s
      | Bytedev_spec_vops \<Rightarrow> special_file_read cd_read vn offset buf count
      | _ \<Rightarrow> None)
   }"

definition vn_write :: "dev_write \<Rightarrow> nat \<Rightarrow> int \<Rightarrow> byte list \<Rightarrow> nat \<Rightarrow> vfs \<Rightarrow> (int \<times> vfs) option" where
  "vn_write cd_write v offset buf count s = do {
     vn \<leftarrow> vnodes s v;
     (case vn_ops vn of
        Ramfs_file_vops \<Rightarrow> ramfs_write v offset buf count s
      | Bytedev_spec_vops \<Rightarrow> do { i \<leftarrow> special_file_write cd_write vn offset buf count; Some (i, s) }
      | _ \<Rightarrow> None)
   }"

definition do_read :: "dev_read \<Rightarrow> int \<Rightarrow> byte list \<Rightarrow> nat \<Rightarrow> ksys \<Rightarrow> (int \<times> byte list \<times> ksys) option" where
  "do_read cd_read fd buf nbytes s =
    (if bad_fd fd s then Some (- EBADF, buf, s)
     else do {
       (fp, s1) \<leftarrow> fget None fd s;
       a \<leftarrow> fp;
       f \<leftarrow> files s1 a;
       (if f_mode f AND 1 = 0 then do { s2 \<leftarrow> fput fp s1; Some (- EBADF, buf, s2) }
        else do {
          v \<leftarrow> f_vnode f;
          vn \<leftarrow> vnodes (sys_fs s1) v;
          (if vn_mode vn = S_IFDIR then do { s2 \<leftarrow> fput fp s1; Some (- EBADF, buf, s2) }
           else do {
             (i, buf1) \<leftarrow> vn_read cd_read v (f_pos f) buf nbytes (sys_fs s1);
             (if i < 0 then do { s2 \<leftarrow> fput fp s1; Some (i, buf1, s2) }
              else do {
                s2 \<leftarrow> fput fp (put_file a (f\<lparr>f_pos := f_pos f + i\<rparr>) s1);
                Some (i, buf1, s2)
              })
           })
        })
     })"

definition seek_to :: "int \<Rightarrow> nat option \<Rightarrow> ksys \<Rightarrow> (int \<times> ksys) option" where
  "seek_to pos fp s =
    (if pos < 0 then do { s1 \<leftarrow> fput fp s; Some (- EINVAL, s1) }
     else do {
       a \<leftarrow> fp;
       f \<leftarrow> files s a;
       s1 \<leftarrow> fput fp (put_file a (f\<lparr>f_pos := pos\<rparr>) s);
       Some (pos, s1)
     })"

definition do_lseek :: "int \<Rightarrow> int \<Rightarrow> int \<Rightarrow> ksys \<Rightarrow> (int \<times> ksys) option" where
  "do_lseek fd offset whence s =
    (if bad_fd fd s then Some (- EBADF, s)
     else if whence \<noteq> 0 \<and> whence \<noteq> 1 \<and> whence \<noteq> 2 then Some (- EINVAL, s)
     else do {
       (fp, s1) \<leftarrow> fget None fd s;
       a \<leftarrow> fp;
       f \<leftarrow> files s1 a;
       (if whence = 0 then seek_to offset fp s1
        else if whence = 1 then seek_to (f_pos f + offset) fp s1
        else do {
          v \<leftarrow> f_vnode f;
          vn \<leftarrow> vnodes (sys_fs s1) v;
          seek_to (vn_len vn + offset) fp s1
        })
     })"

text \<open>The second half of do\_write, from the call of the vnode's operation on.\<close>

definition write_at :: "dev_write \<Rightarrow> nat \<Rightarrow> byte list \<Rightarrow> nat \<Rightarrow> ksys \<Rightarrow> (int \<times> ksys) option" where
  "write_at cd_write a buf nbytes s = do {
     g \<leftarrow> files s a;
     v \<leftarrow> f_vnode g;
     (i, fs1) \<leftarrow> vn_write cd_write v (f_pos g) buf nbytes (sys_fs s);
     let s1 = s\<lparr>sys_fs := fs1\<rparr>;
     (if i < 0 then do { s2 \<leftarrow> fput (Some a) s1; Some (i, s2) }
      else do {
        vn \<leftarrow> vnodes fs1 v;
        kassert (vn_mode vn = S_IFCHR \<or> vn_mode vn = S_IFBLK \<or> (vn_mode vn = S_IFREG \<and> f_pos g \<le> vn_len vn));
        s2 \<leftarrow> fput (Some a) (put_file a (g\<lparr>f_pos := f_pos g + i\<rparr>) s1);
        Some (i, s2)
      })
   }"

definition do_write :: "dev_write \<Rightarrow> int \<Rightarrow> byte list \<Rightarrow> nat \<Rightarrow> ksys \<Rightarrow> (int \<times> ksys) option" where
  "do_write cd_write fd buf nbytes s =
    (if bad_fd fd s then Some (- EBADF, s)
     else do {
       (fp, s1) \<leftarrow> fget None fd s;
       a \<leftarrow> fp;
       f \<leftarrow> files s1 a;
       (if f_mode f AND 2 = 0 then do { s2 \<leftarrow> fput fp s1; Some (- EBADF, s2) }
        else do {
          (j, s2) \<leftarrow> (if f_mode f AND 4 \<noteq> 0 then do_lseek fd 0 2 s1 else Some (0, s1));
          (if j < 0 then do { s3 \<leftarrow> fput fp s2; Some (j, s3) }
           else write_at cd_write a buf nbytes s2)
        })
     })"

section \<open>Descriptors\<close>

definition do_close :: "int \<Rightarrow> ksys \<Rightarrow> (int \<times> ksys) option" where
  "do_close fd s =
    (if bad_fd fd s then Some (- EBADF, s)
     else do {
       (fp, s1) \<leftarrow> fget None fd s;
       a \<leftarrow> fp;
       s2 \<leftarrow> fput fp s1;
       s3 \<leftarrow> fput fp (s2\<lparr>p_files := (p_files s2)[nat fd := None]\<rparr>);
       Some (0, s3)
     })"

text \<open>A descriptor table that is full makes do\_dup write in front of it.\<close>

definition do_dup :: "int \<Rightarrow> ksys \<Rightarrow> (int \<times> ksys) option" where
  "do_dup fd s =
    (if bad_fd fd s then Some (- EBADF, s)
     else do {
       (fp, s1) \<leftarrow> fget None fd s;
       a \<leftarrow> fp;
       let dup_fd = get_empty_fd s1;
       (if dup_fd = 0 then do { s2 \<leftarrow> fput fp s1; Some (- EMFILE, s2) }
        else do {
          kassert (0 \<le> dup_fd);
          Some (dup_fd, s1\<lparr>p_files := (p_files s1)[nat dup_fd := Some a]\<rparr>)
        })
     })"

definition do_dup2 :: "int \<Rightarrow> int \<Rightarrow> ksys \<Rightarrow> (int \<times> ksys) option" where
  "do_dup2 ofd nfd s =
    (if bad_fd ofd s then Some (- EBADF, s)
     else if nfd < 0 \<or> int NFILES \<le> nfd then Some (- EBADF, s)
     else if ofd = nfd then Some (nfd, s)
     else do {
       (j, s1) \<leftarrow> (if p_files s ! nat nfd \<noteq> None then do_close nfd s else Some (0, s));
       (if j < 0 then Some (j, s1)
        else do {
          (fp, s2) \<leftarrow> fget None ofd s1;
          a \<leftarrow> fp;
          Some (nfd, s2\<lparr>p_files := (p_files s2)[nat nfd := Some a]\<rparr>)
        })
     })"


section \<open>Directories and names\<close>

text \<open>The check of a path's length that starts the calls on paths: reading through NULL stops the kernel.\<close>

definition path_too_long :: "cptr \<Rightarrow> bool option" where
  "path_too_long path = do { (addr, p) \<leftarrow> path; l \<leftarrow> strlen p; Some (l > MAXPATHLEN) }"

text \<open>
  What the calls on names do first: dir\_namev, then the checks of the name's length and of the directory.  The
  result is an error or the length of the name, the rest of the path that starts with it, and the directory.
\<close>

definition resolve :: "cptr \<Rightarrow> ksys \<Rightarrow> ((int + nat \<times> byte list \<times> nat) \<times> ksys) option" where
  "resolve path s = do {
     (addr, p) \<leftarrow> path;
     (r, s1) \<leftarrow> dir_namev path None s;
     (case r of
        Inl err \<Rightarrow> Some (Inl err, s1)
      | Inr (namelen, off, dir) \<Rightarrow> do {
          l \<leftarrow> strlen (drop off p);
          (if l > NAME_LEN then do { s2 \<leftarrow> on_fs (vput dir) s1; Some (Inl (- ENAMETOOLONG), s2) }
           else do {
             vn \<leftarrow> vnodes (sys_fs s1) dir;
             (if vn_mode vn \<noteq> S_IFDIR then do { s2 \<leftarrow> on_fs (vput dir) s1; Some (Inl (- ENOTDIR), s2) }
              else Some (Inr (namelen, drop off p, dir), s1))
           })
        })
   }"

text \<open>The name exists: both vnodes are put.\<close>

definition exists_already :: "nat \<Rightarrow> nat option \<Rightarrow> ksys \<Rightarrow> (int \<times> ksys) option" where
  "exists_already dir result s = do {
     s1 \<leftarrow> on_fs (vput dir) s;
     v \<leftarrow> result;
     s2 \<leftarrow> on_fs (vput v) s1;
     Some (- EEXIST, s2)
   }"

text \<open>A directory operation of the table of the directory's vnode, with its result put back in the state.\<close>

definition dir_op :: "nat \<Rightarrow> (vfs \<Rightarrow> (int \<times> vfs) option) \<Rightarrow> ksys \<Rightarrow> (int \<times> ksys) option" where
  "dir_op dir oper s = do {
     vn \<leftarrow> vnodes (sys_fs s) dir;
     kassert (vn_ops vn = Ramfs_dir_vops);
     (i, v) \<leftarrow> oper (sys_fs s);
     Some (i, s\<lparr>sys_fs := v\<rparr>)
   }"

definition do_mknod :: "bool \<Rightarrow> cptr \<Rightarrow> int \<Rightarrow> nat \<Rightarrow> ksys \<Rightarrow> (int \<times> ksys) option" where
  "do_mknod kmalloc_ok path mode devid s = do {
     long \<leftarrow> path_too_long path;
     (if long then Some (- ENAMETOOLONG, s)
      else if mode \<noteq> S_IFCHR \<and> mode \<noteq> S_IFBLK then Some (- EINVAL, s)
      else do {
        (r, s1) \<leftarrow> resolve path s;
        (case r of
           Inl err \<Rightarrow> Some (err, s1)
         | Inr (namelen, name, dir) \<Rightarrow> do {
             (j, result, s2) \<leftarrow> lookup dir name namelen None s1;
             (if j = 0 then exists_already dir result s2
              else do {
                s3 \<leftarrow> on_fs (vput dir) s2;
                dir_op dir (ramfs_mknod kmalloc_ok dir name namelen mode devid) s3
              })
           })
      })
   }"

definition do_mkdir :: "bool \<Rightarrow> bool \<Rightarrow> cptr \<Rightarrow> ksys \<Rightarrow> (int \<times> ksys) option" where
  "do_mkdir kmalloc_ok page_ok path s = do {
     long \<leftarrow> path_too_long path;
     (if long then Some (- ENAMETOOLONG, s)
      else do {
        (r, s1) \<leftarrow> resolve path s;
        (case r of
           Inl err \<Rightarrow> Some (err, s1)
         | Inr (namelen, name, dir) \<Rightarrow> do {
             (j, result, s2) \<leftarrow> lookup dir name namelen None s1;
             (if j = 0 then exists_already dir result s2
              else do {
                (i, s3) \<leftarrow> dir_op dir (ramfs_mkdir kmalloc_ok page_ok dir name namelen) s2;
                s4 \<leftarrow> on_fs (vput dir) s3;
                Some (i, s4)
              })
           })
      })
   }"

text \<open>The part do\_rmdir, do\_unlink and do\_stat share: the vnode of the name, or an error.\<close>

definition lookup_last :: "nat \<Rightarrow> byte list \<Rightarrow> nat \<Rightarrow> ksys \<Rightarrow> ((int + nat) \<times> ksys) option" where
  "lookup_last dir name namelen s = do {
     (j, result, s1) \<leftarrow> lookup dir name namelen None s;
     (if j \<noteq> 0 then do { s2 \<leftarrow> on_fs (vput dir) s1; Some (Inl j, s2) }
      else do { v \<leftarrow> result; Some (Inr v, s1) })
   }"

definition do_rmdir :: "cptr \<Rightarrow> ksys \<Rightarrow> (int \<times> ksys) option" where
  "do_rmdir path s = do {
     long \<leftarrow> path_too_long path;
     (if long then Some (- ENAMETOOLONG, s)
      else do {
        (r, s1) \<leftarrow> resolve path s;
        (case r of
           Inl err \<Rightarrow> Some (err, s1)
         | Inr (namelen, name, dir) \<Rightarrow> do {
             a \<leftarrow> strcmp name dot;
             b \<leftarrow> strcmp name dotdot;
             (if a = 0 then do { s2 \<leftarrow> on_fs (vput dir) s1; Some (- EINVAL, s2) }
              else if b = 0 then do { s2 \<leftarrow> on_fs (vput dir) s1; Some (- ENOTEMPTY, s2) }
              else do {
                (l, s2) \<leftarrow> lookup_last dir name namelen s1;
                (case l of
                   Inl err \<Rightarrow> Some (err, s2)
                 | Inr result \<Rightarrow> do {
                     (i, s3) \<leftarrow> dir_op dir (ramfs_rmdir dir name namelen) s2;
                     s4 \<leftarrow> on_fs (vput result) s3;
                     s5 \<leftarrow> on_fs (vput dir) s4;
                     Some (i, s5)
                   })
              })
           })
      })
   }"

definition do_unlink :: "cptr \<Rightarrow> ksys \<Rightarrow> (int \<times> ksys) option" where
  "do_unlink path s = do {
     long \<leftarrow> path_too_long path;
     (if long then Some (- ENAMETOOLONG, s)
      else do {
        (r, s1) \<leftarrow> resolve path s;
        (case r of
           Inl err \<Rightarrow> Some (err, s1)
         | Inr (namelen, name, dir) \<Rightarrow> do {
             (l, s2) \<leftarrow> lookup_last dir name namelen s1;
             (case l of
                Inl err \<Rightarrow> Some (err, s2)
              | Inr result \<Rightarrow> do {
                  vn \<leftarrow> vnodes (sys_fs s2) result;
                  (if vn_mode vn = S_IFDIR then do {
                     s3 \<leftarrow> on_fs (vput dir) s2;
                     s4 \<leftarrow> on_fs (vput result) s3;
                     Some (- EISDIR, s4)
                   } else do {
                     (i, s3) \<leftarrow> dir_op dir (ramfs_unlink dir name namelen) s2;
                     s4 \<leftarrow> on_fs (vput dir) s3;
                     s5 \<leftarrow> on_fs (vput result) s4;
                     Some (i, s5)
                   })
                })
           })
      })
   }"

text \<open>
  do\_link: the vnode of the old name is the directory open\_namev returns; when the new name cannot be resolved, it is
  kept referenced.
\<close>

definition do_link :: "cptr \<Rightarrow> cptr \<Rightarrow> ksys \<Rightarrow> (int \<times> ksys) option" where
  "do_link from to s = do {
     long1 \<leftarrow> path_too_long from;
     long2 \<leftarrow> (if long1 then Some True else path_too_long to);
     (if long1 \<or> long2 then Some (- ENAMETOOLONG, s)
      else do {
        (j, node1, s1) \<leftarrow> open_namev from 0 None None s;
        (addr, p) \<leftarrow> to;
        (r, s2) \<leftarrow> dir_namev to None s1;
        (case r of
           Inl err \<Rightarrow> do {
             s3 \<leftarrow> (if j > 0 then do { v \<leftarrow> node1; on_fs (vput v) s2 } else Some s2);
             Some (err, s3)
           }
         | Inr (namelen, off, node2) \<Rightarrow>
             (if j < 0 then Some (j, s2)
              else do {
                v1 \<leftarrow> node1;
                l \<leftarrow> strlen (drop off p);
                (if l > NAME_LEN then do { s3 \<leftarrow> on_fs (vput v1) s2; s4 \<leftarrow> on_fs (vput node2) s3; Some (- ENAMETOOLONG, s4) }
                 else do {
                   vn \<leftarrow> vnodes (sys_fs s2) node2;
                   (if vn_mode vn \<noteq> S_IFDIR then Some (- ENOTDIR, s2)
                    else do {
                      (k, result, s3) \<leftarrow> lookup node2 (drop off p) namelen None s2;
                      (if k = 0 then do { s4 \<leftarrow> on_fs (vput v1) s3; exists_already node2 result s4 }
                       else do {
                         (i, s4) \<leftarrow> dir_op node2 (ramfs_link v1 node2 (drop off p) namelen) s3;
                         s5 \<leftarrow> on_fs (vput v1) s4;
                         s6 \<leftarrow> on_fs (vput node2) s5;
                         Some (i, s6)
                       })
                    })
                 })
              }))
      })
   }"

definition do_rename :: "cptr \<Rightarrow> cptr \<Rightarrow> ksys \<Rightarrow> (int \<times> ksys) option" where
  "do_rename oldname newname s =
    (if oldname = None \<or> newname = None then Some (- EINVAL, s)
     else do {
       (i, s1) \<leftarrow> do_link oldname newname s;
       (if i < 0 then Some (i, s1)
        else do {
          (addr, p) \<leftarrow> oldname;
          (r, s2) \<leftarrow> dir_namev oldname None s1;
          (case r of
             Inl err \<Rightarrow> None
           | Inr (namelen, off, node2) \<Rightarrow> do {
               (j, result, s3) \<leftarrow> lookup node2 (drop off p) namelen None s2;
               (j1, s4) \<leftarrow>
                 (if j = 0 then do {
                    v \<leftarrow> result;
                    s4 \<leftarrow> on_fs (vput v) s3;
                    vn \<leftarrow> vnodes (sys_fs s4) v;
                    (if vn_mode vn \<noteq> S_IFDIR then do_unlink oldname s4 else do_rmdir oldname s4)
                  } else Some (j, s3));
               s5 \<leftarrow> on_fs (vput node2) s4;
               Some (j1, s5)
             })
        })
     })"

definition do_chdir :: "cptr \<Rightarrow> ksys \<Rightarrow> (int \<times> ksys) option" where
  "do_chdir path s = do {
     long \<leftarrow> path_too_long path;
     (if long then Some (- ENAMETOOLONG, s)
      else do {
        (j, res, s1) \<leftarrow> open_namev path 0 None None s;
        (if j < 0 then Some (j, s1)
         else do {
           v \<leftarrow> res;
           vn \<leftarrow> vnodes (sys_fs s1) v;
           (if vn_mode vn \<noteq> S_IFDIR then do { s2 \<leftarrow> on_fs (vput v) s1; Some (- ENOTDIR, s2) }
            else do {
              cwd \<leftarrow> p_cwd s1;
              s2 \<leftarrow> on_fs (vput cwd) s1;
              Some (0, s2\<lparr>p_cwd := Some v\<rparr>)
            })
         })
      })
   }"

text \<open>\<open>sizeof(dirent_t)\<close> is 40.\<close>

definition do_getdent :: "int \<Rightarrow> dirent \<Rightarrow> ksys \<Rightarrow> (int \<times> dirent \<times> ksys) option" where
  "do_getdent fd dirp s =
    (if bad_fd fd s then Some (- EBADF, dirp, s)
     else do {
       (fp, s1) \<leftarrow> fget None fd s;
       a \<leftarrow> fp;
       f \<leftarrow> files s1 a;
       v \<leftarrow> f_vnode f;
       vn \<leftarrow> vnodes (sys_fs s1) v;
       (if vn_mode vn \<noteq> S_IFDIR then do { s2 \<leftarrow> fput fp s1; Some (- ENOTDIR, dirp, s2) }
        else do {
          kassert (vn_ops vn = Ramfs_dir_vops);
          (i, d) \<leftarrow> ramfs_readdir v (f_pos f) dirp (sys_fs s1);
          s2 \<leftarrow> fput fp (put_file a (f\<lparr>f_pos := f_pos f + i\<rparr>) s1);
          Some (if i \<le> 0 then i else 40, d, s2)
        })
     })"

definition do_stat :: "cptr \<Rightarrow> stat option \<Rightarrow> ksys \<Rightarrow> (int \<times> stat option \<times> ksys) option" where
  "do_stat path buf s = do {
     long \<leftarrow> path_too_long path;
     (if long then Some (- ENAMETOOLONG, buf, s)
      else if buf = None then Some (- EINVAL, buf, s)
      else do {
        (r, s1) \<leftarrow> resolve path s;
        (case r of
           Inl err \<Rightarrow> Some (err, buf, s1)
         | Inr (namelen, name, dir) \<Rightarrow> do {
             (l, s2) \<leftarrow> lookup_last dir name namelen s1;
             (case l of
                Inl err \<Rightarrow> Some (err, buf, s2)
              | Inr result \<Rightarrow> do {
                  (i, st) \<leftarrow> ramfs_stat result (sys_fs s2);
                  s3 \<leftarrow> on_fs (vput dir) s2;
                  s4 \<leftarrow> on_fs (vput result) s3;
                  Some (i, Some st, s4)
                })
           })
      })
   }"

section \<open>Starting and stopping\<close>

text \<open>
  vfs\_init with the file system in memory as root (the choice of include/config.h when S5FS is off), and
  vfs\_shutdown.
\<close>

definition vfs_init :: "bool \<Rightarrow> bool \<Rightarrow> bool \<Rightarrow> ksys \<Rightarrow> ksys option" where
  "vfs_init fs_ok kmalloc_ok page_ok s = do {
     (err, v) \<leftarrow> ramfs_mount fs_ok kmalloc_ok page_ok (sys_fs s);
     kassert (0 \<le> err);
     Some (s\<lparr>sys_fs := v, vfs_root_vn := Some 0\<rparr>)
   }"

definition vfs_shutdown :: "ksys \<Rightarrow> (int \<times> ksys) option" where
  "vfs_shutdown s = do {
     root \<leftarrow> vfs_root_vn s;
     u \<leftarrow> vfs_is_in_use (sys_fs s);
     kassert (0 \<le> u);
     (ret, v) \<leftarrow> ramfs_umount (sys_fs s);
     kassert (vnode_inuse v = 0);
     Some (ret, s\<lparr>sys_fs := v, vfs_root_vn := None\<rparr>)
   }"


section \<open>Descriptors and reference counts\<close>

text \<open>
  Every file object is referenced by as many descriptors as it counts, at least one, and has a vnode; every descriptor
  refers to a file object.
\<close>

definition file_sane :: "file_t \<Rightarrow> bool" where
  "file_sane f \<longleftrightarrow> 0 < f_refcount f \<and> f_vnode f \<noteq> None \<and> 0 \<le> f_mode f \<and> f_mode f < 8 \<and> - 1 \<le> f_pos f"

definition fds_ok :: "ksys \<Rightarrow> bool" where
  "fds_ok s \<longleftrightarrow> length (p_files s) = NFILES \<and>
     (\<forall>a f. files s a = Some f \<longrightarrow> f_refcount f = int (count_list (p_files s) (Some a)) \<and> file_sane f) \<and>
     (\<forall>a. Some a \<in> set (p_files s) \<longrightarrow> files s a \<noteq> None)"

lemma fds_okI:
  assumes "length (p_files s) = NFILES"
    and "\<And>a f. files s a = Some f \<Longrightarrow> f_refcount f = int (count_list (p_files s) (Some a)) \<and> file_sane f"
    and "\<And>a. Some a \<in> set (p_files s) \<Longrightarrow> files s a \<noteq> None"
  shows "fds_ok s"
  using assms by (simp add: fds_ok_def)

lemma fds_okD:
  assumes "fds_ok s"
  shows "length (p_files s) = NFILES" and "files s a = Some f \<Longrightarrow> f_refcount f = int (count_list (p_files s) (Some a)) \<and> file_sane f"
    and "Some a \<in> set (p_files s) \<Longrightarrow> files s a \<noteq> None"
  using assms by (simp_all add: fds_ok_def)

text \<open>A descriptor that is open, and the file object it refers to.\<close>

definition opened :: "int \<Rightarrow> nat \<Rightarrow> file_t \<Rightarrow> ksys \<Rightarrow> bool" where
  "opened fd a f s \<longleftrightarrow> 0 \<le> fd \<and> fd < int NFILES \<and> p_files s ! nat fd = Some a \<and> files s a = Some f \<and> file_sane f"

lemma good_fd:
  assumes "fds_ok s" and "\<not> bad_fd fd s"
  obtains a f where "opened fd a f s"
proof -
  have fd: "0 \<le> fd" "fd < int NFILES" using assms(2) by (auto simp: bad_fd_def)
  then have "nat fd < length (p_files s)" using fds_okD(1) [OF assms(1)] by simp
  moreover obtain a where a: "p_files s ! nat fd = Some a" using assms(2) by (auto simp: bad_fd_def)
  ultimately have "Some a \<in> set (p_files s)" by (metis nth_mem)
  with fds_okD(3) [OF assms(1)] obtain f where f: "files s a = Some f" by blast
  with fds_okD(2) [OF assms(1) f] fd a that show thesis by (auto simp: opened_def)
qed

lemma opened_not_bad: "opened fd a f s \<Longrightarrow> \<not> bad_fd fd s"
  by (auto simp: opened_def bad_fd_def)

lemma fget_opened:
  assumes "opened fd a f s"
  shows "fget new fd s = Some (Some a, put_file a (f\<lparr>f_refcount := f_refcount f + 1\<rparr>) s)"
  using assms by (auto simp: fget_def fref_def opened_def file_sane_def)

text \<open>Putting the reference fget took leaves the count as it was; position and file system may have changed.\<close>

lemma fput_taken:
  assumes "file_sane f" and "- 1 \<le> pos" and "files s a = Some (f\<lparr>f_refcount := f_refcount f + 1, f_pos := pos\<rparr>)"
  shows "fput (Some a) s = Some (put_file a (f\<lparr>f_pos := pos\<rparr>) s)"
  using assms by (cases f) (auto simp: fput_def file_sane_def)

lemma fput_same:
  assumes "opened fd a f s"
  shows "fput (Some a) (put_file a (f\<lparr>f_refcount := f_refcount f + 1\<rparr>) s) = Some s"
proof -
  have f: "file_sane f" "files s a = Some f" using assms by (auto simp: opened_def)
  have "fput (Some a) (put_file a (f\<lparr>f_refcount := f_refcount f + 1\<rparr>) s) =
      Some (put_file a (f\<lparr>f_pos := f_pos f\<rparr>) (put_file a (f\<lparr>f_refcount := f_refcount f + 1\<rparr>) s))"
    by (rule fput_taken) (use f in \<open>simp_all add: file_sane_def\<close>)
  then show ?thesis using f(2) by (cases s) (simp add: fun_upd_idem)
qed

lemma fput_moved:
  assumes "opened fd a f s" and "- 1 \<le> pos"
  shows "fput (Some a) (s\<lparr>sys_fs := v, files := (files s)(a \<mapsto> f\<lparr>f_refcount := f_refcount f + 1, f_pos := pos\<rparr>)\<rparr>) =
    Some (s\<lparr>sys_fs := v, files := (files s)(a \<mapsto> f\<lparr>f_pos := pos\<rparr>)\<rparr>)"
  using fput_taken [of f pos "s\<lparr>sys_fs := v, files := (files s)(a \<mapsto> f\<lparr>f_refcount := f_refcount f + 1, f_pos := pos\<rparr>)\<rparr>" a] assms
  by (simp add: opened_def)

lemma moved_fds_ok:
  assumes "fds_ok s" and "files s a = Some f" and "- 1 \<le> pos"
  shows "fds_ok (s\<lparr>sys_fs := v, files := (files s)(a \<mapsto> f\<lparr>f_pos := pos\<rparr>)\<rparr>)"
proof (rule fds_okI)
  fix b g
  assume "files (s\<lparr>sys_fs := v, files := (files s)(a \<mapsto> f\<lparr>f_pos := pos\<rparr>)\<rparr>) b = Some g"
  then show "f_refcount g = int (count_list (p_files (s\<lparr>sys_fs := v, files := (files s)(a \<mapsto> f\<lparr>f_pos := pos\<rparr>)\<rparr>)) (Some b)) \<and> file_sane g"
    using fds_okD(2) [OF assms(1,2)] fds_okD(2) [OF assms(1), of b] assms(3) by (auto simp: file_sane_def split: if_splits)
qed (use fds_okD [OF assms(1)] in auto)

lemma count_list_update:
  assumes "i < length xs"
  shows "int (count_list (xs[i := y]) z) = int (count_list xs z) - (if xs ! i = z then 1 else 0) + (if y = z then 1 else 0)"
  using assms
proof (induction xs arbitrary: i)
  case (Cons x xs)
  show ?case
  proof (cases i)
    case (Suc j)
    with Cons.IH [of j] Cons.prems show ?thesis by (auto split: if_splits)
  qed auto
qed simp


text \<open>What calls that only use a descriptor do to the state: they may move a position and change the file system.\<close>

definition moved :: "nat \<Rightarrow> file_t \<Rightarrow> ksys \<Rightarrow> ksys \<Rightarrow> bool" where
  "moved a f s s' \<longleftrightarrow> (\<exists>pos v. - 1 \<le> pos \<and> s' = s\<lparr>sys_fs := v, files := (files s)(a \<mapsto> f\<lparr>f_pos := pos\<rparr>)\<rparr>)"

lemma moved_refl: "opened fd a f s \<Longrightarrow> moved a f s s"
  by (cases s) (auto simp: moved_def opened_def file_sane_def fun_upd_idem intro!: exI [of _ "f_pos f"])

lemma moved_pos: "- 1 \<le> pos \<Longrightarrow> moved a f s (s\<lparr>sys_fs := v, files := (files s)(a \<mapsto> f\<lparr>f_pos := pos\<rparr>)\<rparr>)"
  by (auto simp: moved_def)

lemma moved_put_file: "- 1 \<le> pos \<Longrightarrow> moved a f s (put_file a (f\<lparr>f_pos := pos\<rparr>) s)"
  using moved_pos [of pos a f s "sys_fs s"] by simp

lemma fput_pos:
  assumes "opened fd a f s" and "- 1 \<le> pos"
  shows "fput (Some a) (put_file a (f\<lparr>f_refcount := f_refcount f + 1, f_pos := pos\<rparr>) (put_file a g s)) =
    Some (put_file a (f\<lparr>f_pos := pos\<rparr>) s)"
  using fput_moved [OF assms, of "sys_fs s"] by simp

lemma do_read_moved:
  assumes "opened fd a f s" and "do_read R fd buf n s = Some (r, b, s')"
  shows "moved a f s s'"
proof -
  let ?s1 = "put_file a (f\<lparr>f_refcount := f_refcount f + 1\<rparr>) s"
  have f: "- 1 \<le> f_pos f" using assms(1) by (simp add: opened_def file_sane_def)
  have same: "fput (Some a) ?s1 = Some s" by (rule fput_same [OF assms(1)])
  have pos: "fput (Some a) (put_file a (f\<lparr>f_refcount := f_refcount f + 1, f_pos := f_pos f + i\<rparr>) ?s1) =
      Some (put_file a (f\<lparr>f_pos := f_pos f + i\<rparr>) s)" if "0 \<le> i" for i
    by (rule fput_pos [OF assms(1)]) (use f that in simp)
  from assms(2) have "s' = s \<or> (\<exists>i \<ge> 0. s' = put_file a (f\<lparr>f_pos := f_pos f + i\<rparr>) s)"
    using pos by (auto simp: do_read_def opened_not_bad [OF assms(1)] fget_opened [OF assms(1)] same bind_eq_Some_conv
        linorder_not_less split: if_splits)
  with moved_refl [OF assms(1)] f show ?thesis by (auto intro!: moved_put_file)
qed

lemma seek_to_moved:
  assumes "opened fd a f s" and "seek_to pos (Some a) (put_file a (f\<lparr>f_refcount := f_refcount f + 1\<rparr>) s) = Some (r, s')"
  shows "if pos < 0 then r = - EINVAL \<and> s' = s
    else r = pos \<and> s' = put_file a (f\<lparr>f_pos := pos\<rparr>) s"
  using assms(2) fput_same [OF assms(1)] fput_pos [OF assms(1), of pos]
  by (auto simp: seek_to_def bind_eq_Some_conv split: if_splits)

lemma do_lseek_moved:
  assumes "opened fd a f s" and "do_lseek fd off w s = Some (r, s')"
  shows "moved a f s s'"
proof -
  have "s' = s \<or> (\<exists>pos. seek_to pos (Some a) (put_file a (f\<lparr>f_refcount := f_refcount f + 1\<rparr>) s) = Some (r, s'))"
    using assms(2)
    by (auto simp: do_lseek_def opened_not_bad [OF assms(1)] fget_opened [OF assms(1)] bind_eq_Some_conv split: if_splits)
  then show ?thesis
  proof (elim disjE exE)
    fix pos
    assume "seek_to pos (Some a) (put_file a (f\<lparr>f_refcount := f_refcount f + 1\<rparr>) s) = Some (r, s')"
    from seek_to_moved [OF assms(1) this] moved_refl [OF assms(1)] show ?thesis
      by (auto split: if_splits intro!: moved_put_file)
  qed (use moved_refl [OF assms(1)] in simp)
qed


lemma opened_taken:
  assumes "opened fd a f s"
  shows "opened fd a (f\<lparr>f_refcount := f_refcount f + 1\<rparr>) (put_file a (f\<lparr>f_refcount := f_refcount f + 1\<rparr>) s)"
  using assms by (simp add: opened_def file_sane_def)

lemma fput_moved2:
  assumes "opened fd a f s" and "moved a (f\<lparr>f_refcount := f_refcount f + 1\<rparr>) (put_file a (f\<lparr>f_refcount := f_refcount f + 1\<rparr>) s) s2"
    and "g = the (files s2 a)" and "- 1 \<le> pos"
    and "fput (Some a) (put_file a (g\<lparr>f_pos := pos\<rparr>) (s2\<lparr>sys_fs := v\<rparr>)) = Some s'"
  shows "moved a f s s'"
proof -
  obtain p w where s2: "s2 = s\<lparr>sys_fs := w, files := (files s)(a \<mapsto> f\<lparr>f_refcount := f_refcount f + 1, f_pos := p\<rparr>)\<rparr>"
    using assms(2) by (auto simp: moved_def)
  have "put_file a (g\<lparr>f_pos := pos\<rparr>) (s2\<lparr>sys_fs := v\<rparr>) =
      s\<lparr>sys_fs := v, files := (files s)(a \<mapsto> f\<lparr>f_refcount := f_refcount f + 1, f_pos := pos\<rparr>)\<rparr>"
    by (cases f) (simp add: s2 assms(3))
  with fput_moved [OF assms(1,4)] assms(5) have "s' = s\<lparr>sys_fs := v, files := (files s)(a \<mapsto> f\<lparr>f_pos := pos\<rparr>)\<rparr>" by simp
  with assms(4) show ?thesis by (auto simp: moved_def)
qed

lemma fput_moved3:
  assumes "opened fd a f s" and "moved a (f\<lparr>f_refcount := f_refcount f + 1\<rparr>) (put_file a (f\<lparr>f_refcount := f_refcount f + 1\<rparr>) s) s2"
    and "fput (Some a) (s2\<lparr>sys_fs := v\<rparr>) = Some s'"
  shows "moved a f s s'"
proof -
  obtain p w where p: "- 1 \<le> p" and s2: "s2 = s\<lparr>sys_fs := w, files := (files s)(a \<mapsto> f\<lparr>f_refcount := f_refcount f + 1, f_pos := p\<rparr>)\<rparr>"
    using assms(2) by (auto simp: moved_def)
  have "put_file a ((the (files s2 a))\<lparr>f_pos := p\<rparr>) (s2\<lparr>sys_fs := v\<rparr>) = s2\<lparr>sys_fs := v\<rparr>"
    by (cases f; cases s) (simp add: s2)
  with fput_moved2 [OF assms(1,2) refl p] assms(3) show ?thesis by metis
qed

lemma write_at_moved:
  assumes "opened fd a f s" and "moved a (f\<lparr>f_refcount := f_refcount f + 1\<rparr>) (put_file a (f\<lparr>f_refcount := f_refcount f + 1\<rparr>) s) s2"
    and "write_at W a buf n s2 = Some (r, s')"
  shows "moved a f s s'"
proof -
  obtain p w where s2: "- 1 \<le> p" "s2 = s\<lparr>sys_fs := w, files := (files s)(a \<mapsto> f\<lparr>f_refcount := f_refcount f + 1, f_pos := p\<rparr>)\<rparr>"
    using assms(2) by (auto simp: moved_def)
  define g where "g = the (files s2 a)"
  have g: "files s2 a = Some g" "f_pos g = p" by (simp_all add: g_def s2)
  obtain vv where vv: "f_vnode g = Some vv" using assms(3) g by (cases "f_vnode g") (simp_all add: write_at_def)
  obtain i v where vw: "vn_write W vv p buf n (sys_fs s2) = Some (i, v)"
    using assms(3) g vv by (cases "vn_write W vv p buf n (sys_fs s2)") (auto simp: write_at_def)
  have "(i < 0 \<and> fput (Some a) (s2\<lparr>sys_fs := v\<rparr>) = Some s') \<or>
      (0 \<le> i \<and> fput (Some a) (put_file a (g\<lparr>f_pos := p + i\<rparr>) (s2\<lparr>sys_fs := v\<rparr>)) = Some s')"
    using assms(3) by (cases "i < 0") (auto simp: write_at_def g vv vw bind_eq_Some_conv)
  then show ?thesis
  proof (elim disjE conjE)
    assume "fput (Some a) (s2\<lparr>sys_fs := v\<rparr>) = Some s'"
    then show ?thesis by (rule fput_moved3 [OF assms(1,2)])
  next
    assume "0 \<le> i" "fput (Some a) (put_file a (g\<lparr>f_pos := p + i\<rparr>) (s2\<lparr>sys_fs := v\<rparr>)) = Some s'"
    then show ?thesis using s2(1) by (intro fput_moved2 [OF assms(1,2) g_def]) simp_all
  qed
qed

lemma do_write_moved:
  assumes "opened fd a f s" and "do_write W fd buf n s = Some (r, s')"
  shows "moved a f s s'"
proof -
  let ?g = "f\<lparr>f_refcount := f_refcount f + 1\<rparr>"
  let ?s1 = "put_file a ?g s"
  note o1 = opened_taken [OF assms(1)]
  have f: "- 1 \<le> f_pos f" using assms(1) by (simp add: opened_def file_sane_def)
  show ?thesis
  proof (cases "f_mode f AND 2 = 0")
    case True
    then have "s' = s" using assms(2) fput_same [OF assms(1)]
      by (simp add: do_write_def opened_not_bad [OF assms(1)] fget_opened [OF assms(1)])
    then show ?thesis using moved_refl [OF assms(1)] by simp
  next
    case False
    have eq: "do_write W fd buf n s = do {
        (j, s2) \<leftarrow> (if f_mode f AND 4 \<noteq> 0 then do_lseek fd 0 2 ?s1 else Some (0, ?s1));
        (if j < 0 then do { s3 \<leftarrow> fput (Some a) s2; Some (j, s3) } else write_at W a buf n s2) }"
      using False by (simp add: do_write_def opened_not_bad [OF assms(1)] fget_opened [OF assms(1)])
    obtain j s2 where j: "(if f_mode f AND 4 \<noteq> 0 then do_lseek fd 0 2 ?s1 else Some (0, ?s1)) = Some (j, s2)"
      using assms(2) unfolding eq by (cases "if f_mode f AND 4 \<noteq> 0 then do_lseek fd 0 2 ?s1 else Some (0, ?s1)") auto
    have w: "(if j < 0 then do { s3 \<leftarrow> fput (Some a) s2; Some (j, s3) } else write_at W a buf n s2) = Some (r, s')"
      using assms(2) unfolding eq j by simp
    have m: "moved a ?g ?s1 s2" using j do_lseek_moved [OF o1] moved_refl [OF o1] by (auto split: if_splits)
    show ?thesis
    proof (cases "j < 0")
      case True
      then have "fput (Some a) (s2\<lparr>sys_fs := sys_fs s2\<rparr>) = Some s'" using w by (auto simp: bind_eq_Some_conv)
      then show ?thesis by (rule fput_moved3 [OF assms(1) m])
    next
      case False
      with w have "write_at W a buf n s2 = Some (r, s')" by simp
      then show ?thesis by (rule write_at_moved [OF assms(1) m])
    qed
  qed
qed

lemma skip_free_range: "skip_free k ds = Some (Some i) \<Longrightarrow> k \<le> i"
  by (induction k ds rule: skip_free.induct) (auto split: list.splits if_splits)

lemma ramfs_readdir_nonneg:
  assumes "ramfs_readdir d off dp s = Some (i, dp')" and "- 1 \<le> off"
  shows "0 \<le> i"
proof -
  obtain ds where ds: "dirents s d = Some ds" using assms by (auto simp: ramfs_readdir_def bind_eq_Some_conv)
  have "i = 0 \<or> (\<exists>k. 0 \<le> off \<and> skip_free (nat off div 32) (drop (nat off div 32) ds) = Some (Some k) \<and> i = 32 + (int k - off div 32) * 32)"
    using assms(1) ds by (auto simp: ramfs_readdir_def bind_eq_Some_conv split: if_splits option.splits)
  then show ?thesis
  proof (elim disjE exE conjE)
    fix k
    assume k: "0 \<le> off" "skip_free (nat off div 32) (drop (nat off div 32) ds) = Some (Some k)" "i = 32 + (int k - off div 32) * 32"
    have "int (nat off div 32) = off div 32" using k(1) by (simp add: zdiv_int)
    then have "0 \<le> (int k - off div 32) * 32" using skip_free_range [OF k(2)] by simp
    with k(3) show ?thesis by simp
  qed simp
qed

lemma do_getdent_moved:
  assumes "opened fd a f s" and "do_getdent fd d s = Some (r, d', s')"
  shows "moved a f s s'"
proof -
  have f: "- 1 \<le> f_pos f" using assms(1) by (simp add: opened_def file_sane_def)
  have "s' = s \<or> (\<exists>i \<ge> 0. fput (Some a) (put_file a (f\<lparr>f_refcount := f_refcount f + 1, f_pos := f_pos f + i\<rparr>)
      (put_file a (f\<lparr>f_refcount := f_refcount f + 1\<rparr>) s)) = Some s')"
    using assms(2) fput_same [OF assms(1)] ramfs_readdir_nonneg [OF _ f]
    by (auto simp: do_getdent_def opened_not_bad [OF assms(1)] fget_opened [OF assms(1)] bind_eq_Some_conv split: if_splits)
  then show ?thesis
  proof (elim disjE exE conjE)
    fix i :: int
    assume i: "0 \<le> i" "fput (Some a) (put_file a (f\<lparr>f_refcount := f_refcount f + 1, f_pos := f_pos f + i\<rparr>)
      (put_file a (f\<lparr>f_refcount := f_refcount f + 1\<rparr>) s)) = Some s'"
    have p: "- 1 \<le> f_pos f + i" using f i(1) by simp
    have "s' = put_file a (f\<lparr>f_pos := f_pos f + i\<rparr>) s" using fput_pos [OF assms(1) p] i(2) by simp
    then show ?thesis using moved_put_file [OF p] by simp
  qed (use moved_refl [OF assms(1)] in simp)
qed


lemma moved_keeps:
  assumes "fds_ok s" and "opened fd a f s" and "moved a f s s'"
  shows "fds_ok s'"
  using assms moved_fds_ok [OF assms(1)] by (auto simp: moved_def opened_def)

text \<open>A file object gains a descriptor, or loses one.\<close>

lemma share_fds_ok:
  assumes "fds_ok s" and "opened fd a f s" and "p_files s ! k = None" and "k < NFILES"
  shows "fds_ok (put_file a (f\<lparr>f_refcount := f_refcount f + 1\<rparr>) s\<lparr>p_files := (p_files s)[k := Some a]\<rparr>)"
proof (rule fds_okI)
  let ?s = "put_file a (f\<lparr>f_refcount := f_refcount f + 1\<rparr>) s\<lparr>p_files := (p_files s)[k := Some a]\<rparr>"
  note l = fds_okD(1) [OF assms(1)]
  have f: "files s a = Some f" "file_sane f" using assms(2) by (auto simp: opened_def)
  have cnt: "int (count_list (p_files ?s) (Some b)) = int (count_list (p_files s) (Some b)) + (if a = b then 1 else 0)" for b
    using count_list_update [of k "p_files s" "Some a" "Some b"] assms(3,4) l by simp
  fix b g
  assume "files ?s b = Some g"
  then show "f_refcount g = int (count_list (p_files ?s) (Some b)) \<and> file_sane g"
    unfolding cnt using fds_okD(2) [OF assms(1), of b] f by (cases "b = a") (auto simp: file_sane_def)
next
  fix b
  assume "Some b \<in> set (p_files (put_file a (f\<lparr>f_refcount := f_refcount f + 1\<rparr>) s\<lparr>p_files := (p_files s)[k := Some a]\<rparr>))"
  then show "files (put_file a (f\<lparr>f_refcount := f_refcount f + 1\<rparr>) s\<lparr>p_files := (p_files s)[k := Some a]\<rparr>) b \<noteq> None"
    using fds_okD(3) [OF assms(1)] by (auto dest!: in_set_updateD)
qed (use fds_okD(1) [OF assms(1)] in simp)

lemma release_fds_ok:
  assumes "fds_ok s" and "opened fd a f s" and "fput (Some a) (s\<lparr>p_files := (p_files s)[nat fd := None]\<rparr>) = Some s'"
  shows "fds_ok s' \<and> p_files s' = (p_files s)[nat fd := None]"
proof -
  note l = fds_okD(1) [OF assms(1)]
  have f: "files s a = Some f" "file_sane f" "p_files s ! nat fd = Some a" "nat fd < NFILES" "f_refcount f = int (count_list (p_files s) (Some a))"
    using assms(2) fds_okD(2) [OF assms(1)] by (auto simp: opened_def)
  have cnt: "int (count_list ((p_files s)[nat fd := None]) (Some b)) = int (count_list (p_files s) (Some b)) - (if a = b then 1 else 0)" for b
    using count_list_update [of "nat fd" "p_files s" None "Some b"] f(3,4) l by simp
  obtain F v where s': "s' = s\<lparr>sys_fs := v, p_files := (p_files s)[nat fd := None], files := F\<rparr>"
    and F: "F = (files s)(a := (if f_refcount f = 1 then None else Some (f\<lparr>f_refcount := f_refcount f - 1\<rparr>)))"
    using assms(3) f(1,2) by (cases s) (auto simp: fput_def file_sane_def on_fs_def bind_eq_Some_conv split: if_splits)
  have "fds_ok s'"
  proof (rule fds_okI)
    fix b g
    assume "files s' b = Some g"
    then show "f_refcount g = int (count_list (p_files s') (Some b)) \<and> file_sane g"
      using cnt [of b] fds_okD(2) [OF assms(1), of b] f by (auto simp: s' F file_sane_def split: if_splits)
  next
    fix b
    assume b: "Some b \<in> set (p_files s')"
    then have "0 < int (count_list ((p_files s)[nat fd := None]) (Some b))" by (simp add: s') (metis count_list_0_iff gr0I)
    then show "files s' b \<noteq> None"
      using b cnt [of b] fds_okD(3) [OF assms(1), of b] f(5) by (auto simp: s' F dest!: in_set_updateD)
  qed (use l in \<open>simp add: s'\<close>)
  then show ?thesis by (simp add: s')
qed

lemma do_close_fds_ok:
  assumes "fds_ok s" and "do_close fd s = Some (r, s')"
  shows "fds_ok s' \<and> (\<not> bad_fd fd s \<longrightarrow> r = 0 \<and> p_files s' = (p_files s)[nat fd := None])"
proof (cases "bad_fd fd s")
  case True
  with assms show ?thesis by (simp add: do_close_def)
next
  case False
  obtain a f where o: "opened fd a f s" by (rule good_fd [OF assms(1) False])
  have "fput (Some a) (s\<lparr>p_files := (p_files s)[nat fd := None]\<rparr>) = Some s' \<and> r = 0"
    using assms(2) by (auto simp: do_close_def False fget_opened [OF o] fput_same [OF o] bind_eq_Some_conv)
  with release_fds_ok [OF assms(1) o] show ?thesis by blast
qed

lemma get_empty_fd_Some:
  assumes "get_empty_fd s = fd" and "0 \<le> fd"
  shows "nat fd < NFILES \<and> p_files s ! nat fd = None \<and> fd = int (nat fd)"
proof -
  obtain k where "List.find (\<lambda>fd. p_files s ! fd = None) [0 ..< NFILES] = Some k"
    using assms unfolding get_empty_fd_def by (cases "List.find (\<lambda>fd. p_files s ! fd = None) [0 ..< NFILES]") (simp_all only: option.case)
  moreover from find_SomeD [OF this] have "k < NFILES" "p_files s ! k = None" by auto
  moreover have "fd = int k" using calculation assms(1) unfolding get_empty_fd_def by (simp only: option.case)
  ultimately show ?thesis by (simp only: nat_int)
qed


lemma do_dup_fds_ok:
  assumes "fds_ok s" and "do_dup fd s = Some (r, s')"
  shows "fds_ok s'"
proof (cases "bad_fd fd s")
  case True
  with assms show ?thesis by (simp add: do_dup_def)
next
  case False
  obtain a f where o: "opened fd a f s" by (rule good_fd [OF assms(1) False])
  let ?s1 = "put_file a (f\<lparr>f_refcount := f_refcount f + 1\<rparr>) s"
  define k where "k = get_empty_fd ?s1"
  have "s' = s \<or> (0 \<le> k \<and> s' = ?s1\<lparr>p_files := (p_files s)[nat k := Some a]\<rparr>)"
    using assms(2) fput_same [OF o] unfolding do_dup_def k_def [symmetric]
    by (auto simp: False fget_opened [OF o] bind_eq_Some_conv Let_def k_def [symmetric] split: if_splits)
  then show ?thesis
  proof (elim disjE conjE)
    assume k: "0 \<le> k" and s': "s' = ?s1\<lparr>p_files := (p_files s)[nat k := Some a]\<rparr>"
    from get_empty_fd_Some [OF k_def [symmetric] k] have "nat k < NFILES" "p_files s ! nat k = None" by simp_all
    then show ?thesis unfolding s' by (intro share_fds_ok [OF assms(1) o])
  qed (simp add: assms(1))
qed

lemma do_dup2_fds_ok:
  assumes "fds_ok s" and "do_dup2 ofd nfd s = Some (r, s')"
  shows "fds_ok s'"
proof (cases "bad_fd ofd s \<or> nfd < 0 \<or> int NFILES \<le> nfd \<or> ofd = nfd")
  case True
  with assms show ?thesis by (auto simp: do_dup2_def split: if_splits)
next
  case False
  then have nfd: "nat nfd < NFILES" "ofd \<noteq> nfd" "0 \<le> nfd" by auto
  obtain j s1 where j: "(if p_files s ! nat nfd \<noteq> None then do_close nfd s else Some (0, s)) = Some (j, s1)"
    using assms(2) False unfolding do_dup2_def
    by (cases "if p_files s ! nat nfd \<noteq> None then do_close nfd s else Some (0, s)") auto
  have s1: "fds_ok s1" "j = 0" "p_files s1 = (p_files s)[nat nfd := None]"
  proof -
    show "fds_ok s1" "j = 0" "p_files s1 = (p_files s)[nat nfd := None]"
      using j assms(1) do_close_fds_ok [OF assms(1), of nfd j s1] nfd
      by (auto simp: bad_fd_def split: if_splits) (metis list_update_id)
  qed
  have "\<not> bad_fd ofd s1" using False nfd s1(3) by (auto simp: bad_fd_def)
  then obtain a f where o: "opened ofd a f s1" by (rule good_fd [OF s1(1)])
  have "s' = put_file a (f\<lparr>f_refcount := f_refcount f + 1\<rparr>) s1\<lparr>p_files := (p_files s1)[nat nfd := Some a]\<rparr>"
    using assms(2) False j s1(2) by (simp add: do_dup2_def fget_opened [OF o] split: if_splits)
  moreover have "p_files s1 ! nat nfd = None" using s1(3) nfd fds_okD(1) [OF assms(1)] by simp
  ultimately show ?thesis using share_fds_ok [OF s1(1) o _ nfd(1)] by simp
qed

text \<open>Path resolution changes nothing but the file system.\<close>

definition fs_only :: "ksys \<Rightarrow> ksys \<Rightarrow> bool" where
  "fs_only s s' \<longleftrightarrow> (\<exists>v. s' = s\<lparr>sys_fs := v\<rparr>)"

lemma fs_only_refl [simp]: "fs_only s s"
  by (auto simp: fs_only_def intro!: exI [of _ "sys_fs s"])

lemma fs_only_upd [simp]: "fs_only s (s\<lparr>sys_fs := v\<rparr>)"
  by (auto simp: fs_only_def)

lemma fs_only_trans: "fs_only s s1 \<Longrightarrow> fs_only s1 s2 \<Longrightarrow> fs_only s s2"
  by (auto simp: fs_only_def)

lemma on_fs_only: "on_fs g s = Some s' \<Longrightarrow> fs_only s s'"
  by (auto simp: on_fs_def fs_only_def bind_eq_Some_conv)

lemma lookup_only: "lookup d name n t s = Some (r, t', s') \<Longrightarrow> fs_only s s'"
  by (auto simp: lookup_def bind_eq_Some_conv split: if_splits)

lemma namev_loop_only: "namev_loop n addr path parent ptr temp s = Some (r, s') \<Longrightarrow> fs_only s s'"
proof (induction n arbitrary: parent ptr temp s)
  case (Suc n)
  have "fs_only s s' \<or> (\<exists>c t t1 s1 s2. fs_only s s1 \<and> fs_only s1 s2 \<and> namev_loop n addr path c t t1 s2 = Some (r, s'))"
    using Suc.prems
    by (auto simp: bind_eq_Some_conv Let_def dest: on_fs_only lookup_only split: if_splits option.splits) (blast dest: on_fs_only lookup_only intro: fs_only_trans)+
  then show ?case using Suc.IH fs_only_trans by blast
qed simp


lemma dir_namev_only: "dir_namev path base s = Some (r, s') \<Longrightarrow> fs_only s s'"
  by (auto simp: dir_namev_def bind_eq_Some_conv Let_def split: if_splits dest!: on_fs_only namev_loop_only intro: fs_only_trans)

lemma open_namev_only:
  assumes "open_namev path flag res base s = Some (r, v, s')"
  shows "fs_only s s'"
proof -
  obtain x s1 where d: "dir_namev path base s = Some (x, s1)"
    using assms by (cases "dir_namev path base s") (auto simp: open_namev_def)
  note only = dir_namev_only [OF d]
  show ?thesis
  proof (cases x)
    case (Inl err)
    with assms d only show ?thesis
      by (auto simp: open_namev_def bind_eq_Some_conv split: if_splits dest!: on_fs_only intro: fs_only_trans)
  next
    case (Inr y)
    with assms d only show ?thesis by (cases y) (auto simp: open_namev_def)
  qed
qed


lemma fs_only_fds_ok: "fds_ok s \<Longrightarrow> fs_only s s' \<Longrightarrow> fds_ok s'"
  by (auto simp: fs_only_def fds_ok_def)

section \<open>What open does\<close>

abbreviation new_file :: "int \<Rightarrow> file_t" where
  "new_file m \<equiv> \<lparr>f_pos = 0, f_mode = m, f_refcount = 1, f_vnode = None\<rparr>"

lemma fput_new:
  assumes "0 \<le> m" and "m < 8" and "files s a = Some (new_file m)"
  shows "fput (Some a) s = Some (s\<lparr>files := (files s)(a := None)\<rparr>)"
  using assms by (simp add: fput_def)

lemma fget_new: "fget (Some a) (- 1) s = Some (Some a, put_file a (new_file 0) s)"
  by (simp add: fget_def fref_def)

lemma open_mode_range: "open_mode fl = Some m \<Longrightarrow> 0 \<le> m \<and> m < 8"
  by (auto simp: open_mode_def split: if_splits)

lemma open_mode_write: "open_mode fl = Some m \<Longrightarrow> m AND 2 \<noteq> 0 \<Longrightarrow> fl AND 3 = 1 \<or> fl AND 3 = 2"
  by (auto simp: open_mode_def split: if_splits)

lemma strchr_from_Some:
  "strchr_from k s c = Some (Some i) \<Longrightarrow> k \<le> i \<and> i - k < length s \<and> s ! (i - k) = c"
proof (induction s arbitrary: k)
  case (Cons x s)
  show ?case
  proof (cases "x = c")
    case True
    with Cons.prems show ?thesis by simp
  next
    case False
    with Cons.prems have "strchr_from (k + 1) s c = Some (Some i)" by (simp split: if_splits)
    from Cons.IH [OF this] show ?thesis by (auto simp: nth_Cons' diff_Suc split: nat.splits)
  qed
qed simp

text \<open>Where the loop of dir\_namev goes on: behind the slashes that follow the component.\<close>

definition child_of :: "byte list \<Rightarrow> nat \<Rightarrow> nat \<Rightarrow> nat" where
  "child_of path parent k = parent + k + length (takeWhile ((=) 47) (drop (parent + k) path))"

lemma child_of_slash:
  assumes "strchr (drop parent path) 47 = Some (Some k)" and "child_of path parent k < length path"
  shows "parent < child_of path parent k" and "path ! (child_of path parent k - 1) = 47"
proof -
  have k: "k < length (drop parent path)" "drop parent path ! k = 47"
    using strchr_from_Some [of 0 "drop parent path" 47 k] assms(1) by (simp_all add: strchr_def)
  define xs where "xs = drop (parent + k) path"
  have "xs \<noteq> []" "hd xs = 47" using k by (simp_all add: xs_def hd_drop_conv_nth)
  then have w: "takeWhile ((=) 47) xs \<noteq> []" by (cases xs) simp_all
  have all: "\<forall>c \<in> set (takeWhile ((=) 47) xs). 47 = c" by (auto dest: set_takeWhileD)
  let ?n = "length (takeWhile ((=) 47) xs)"
  have n: "0 < ?n" using w by simp
  then show "parent < child_of path parent k" by (simp add: child_of_def xs_def)
  have "?n - 1 < ?n" using n by simp
  then have "takeWhile ((=) 47) xs ! (?n - 1) = 47" using all by (metis nth_mem)
  then have "xs ! (?n - 1) = 47" using takeWhile_nth [of "?n - 1" "(=) 47" xs] n by simp
  moreover have "child_of path parent k - 1 = parent + k + (?n - 1)"
    unfolding child_of_def xs_def [symmetric] using n by linarith
  then have "xs ! (?n - 1) = path ! (child_of path parent k - 1)" using k(1) by (simp add: xs_def)
  ultimately show "path ! (child_of path parent k - 1) = 47" by simp
qed

lemma namev_step:
  assumes "namev_loop (Suc n) addr path parent ptr temp s = Some (x, s')"
  obtains (error) e where "x = Inl e"
  | (found) vn k where "vnodes (sys_fs s) ptr = Some vn" and "vn_mode vn = S_IFDIR" and "strchr (drop parent path) 47 = Some (Some k)"
    and "child_of path parent k < length path" and "path ! child_of path parent k = 0" and "x = Inr (k, parent, ptr)" and "s' = s"
  | (down) k t t1 s2 where "strchr (drop parent path) 47 = Some (Some k)" and "child_of path parent k < length path"
    and "namev_loop n addr path (child_of path parent k) t t1 s2 = Some (x, s')"
  using assms by (auto simp: bind_eq_Some_conv Let_def child_of_def split: if_splits)

text \<open>As many rounds as the path has characters are enough: every round moves forward.\<close>

definition namev_round ::
    "(nat \<Rightarrow> nat \<Rightarrow> nat option \<Rightarrow> ksys \<Rightarrow> ((int + nat \<times> nat \<times> nat) \<times> ksys) option) \<Rightarrow>
     nat \<Rightarrow> byte list \<Rightarrow> nat \<Rightarrow> nat \<Rightarrow> nat option \<Rightarrow> ksys \<Rightarrow> ((int + nat \<times> nat \<times> nat) \<times> ksys) option" where
  "namev_round rec addr path parent ptr temp s = do {
     vn \<leftarrow> vnodes (sys_fs s) ptr;
     (if vn_mode vn \<noteq> S_IFDIR then do { s1 \<leftarrow> on_fs (vput ptr) s; Some (Inl (- ENOTDIR), s1) }
      else do {
        c \<leftarrow> strchr (drop parent path) 47;
        (if component_len addr parent c > int NAME_LEN then do { s1 \<leftarrow> on_fs (vput ptr) s; Some (Inl (- ENAMETOOLONG), s1) }
         else do {
           k \<leftarrow> c;
           kassert (child_of path parent k < length path);
           (if path ! child_of path parent k = 0 then Some (Inr (k, parent, ptr), s)
            else do {
              (ret, temp1, s1) \<leftarrow> lookup ptr (drop parent path) k temp s;
              s2 \<leftarrow> on_fs (vput ptr) s1;
              (if ret = 0 then do { t \<leftarrow> temp1; rec (child_of path parent k) t temp1 s2 } else Some (Inl ret, s2))
            })
         })
      })
   }"

lemma namev_loop_round: "namev_loop (Suc n) addr path parent ptr temp s = namev_round (namev_loop n addr path) addr path parent ptr temp s"
  unfolding namev_round_def child_of_def namev_loop.simps Let_def by (rule refl)

lemma namev_round_cong:
  assumes "\<And>k t t1 s2. strchr (drop parent path) 47 = Some (Some k) \<Longrightarrow> child_of path parent k < length path \<Longrightarrow>
    f (child_of path parent k) t t1 s2 = g (child_of path parent k) t t1 s2"
  shows "namev_round f addr path parent ptr temp s = namev_round g addr path parent ptr temp s"
proof (cases "vnodes (sys_fs s) ptr")
  case (Some vn)
  show ?thesis
  proof (cases "strchr (drop parent path) 47")
    case c: (Some c)
    show ?thesis
    proof (cases c)
      case k: (Some k)
      show ?thesis
      proof (cases "child_of path parent k < length path")
        case True
        with c k have e: "f (child_of path parent k) = g (child_of path parent k)" using assms [of k] by (simp add: fun_eq_iff)
        show ?thesis by (simp add: namev_round_def Some c k) (simp only: e simp_thms)
      qed (simp add: namev_round_def Some c k)
    qed (simp add: namev_round_def Some c)
  qed (simp add: namev_round_def Some)
qed (simp add: namev_round_def)

lemma namev_loop_fuel:
  "length path - parent \<le> n \<Longrightarrow> parent < length path \<Longrightarrow>
   namev_loop (Suc n) addr path parent ptr temp s = namev_loop n addr path parent ptr temp s"
proof (induction n arbitrary: parent ptr temp s)
  case (Suc n)
  have "namev_loop (Suc n) addr path (child_of path parent k) t t1 s2 = namev_loop n addr path (child_of path parent k) t t1 s2"
    if "strchr (drop parent path) 47 = Some (Some k)" "child_of path parent k < length path" for k t t1 s2
  proof (rule Suc.IH)
    show "length path - child_of path parent k \<le> n" using child_of_slash(1) [OF that] Suc.prems by linarith
  qed (rule that(2))
  then show ?case unfolding namev_loop_round by (intro namev_round_cong)
qed simp

text \<open>dir\_namev ends in a directory, at a component that a slash and the end of the path follow.\<close>

lemma namev_loop_Inr:
  "namev_loop n addr path parent ptr temp s = Some (Inr (k, off, d), s') \<Longrightarrow>
   (\<exists>vn. vnodes (sys_fs s') d = Some vn \<and> vn_mode vn = S_IFDIR) \<and> (\<exists>i. i + 1 < length path \<and> path ! i = 47 \<and> path ! (i + 1) = 0)"
proof (induction n arbitrary: parent ptr temp s)
  case (Suc n)
  from Suc.prems show ?case
  proof (cases rule: namev_step)
    case (found vn j)
    then have "child_of path parent j - 1 + 1 = child_of path parent j" "path ! (child_of path parent j - 1) = 47"
      using child_of_slash [OF found(3,4)] by simp_all
    with found show ?thesis by (metis prod.inject sum.inject(2))
  next
    case (down j t t1 s2)
    from Suc.IH [OF down(3)] show ?thesis .
  qed simp
qed simp


lemma dir_namev_Inr:
  assumes "dir_namev (Some (addr, path)) base s = Some (Inr (k, off, d), s')"
  shows "\<exists>vn. vnodes (sys_fs s') d = Some vn \<and> vn_mode vn = S_IFDIR" and "\<exists>i. i + 1 < length path \<and> path ! i = 47 \<and> path ! (i + 1) = 0"
proof -
  obtain n parent ptr temp s1 where "namev_loop n addr path parent ptr temp s1 = Some (Inr (k, off, d), s')"
    using assms by (auto simp: dir_namev_def bind_eq_Some_conv Let_def split: if_splits)
  from namev_loop_Inr [OF this]
  show "\<exists>vn. vnodes (sys_fs s') d = Some vn \<and> vn_mode vn = S_IFDIR" "\<exists>i. i + 1 < length path \<and> path ! i = 47 \<and> path ! (i + 1) = 0"
    by blast+
qed

lemma open_namev_unset:
  assumes "open_namev path flag None base s = Some (r, v, s')"
  obtains k off d where "dir_namev path base s = Some (Inr (k, off, d), s')" and "r = 0" and "v = Some d"
proof -
  obtain x s1 where d: "dir_namev path base s = Some (x, s1)"
    using assms by (cases "dir_namev path base s") (auto simp: open_namev_def)
  show thesis
  proof (cases x)
    case (Inl e)
    with assms d show thesis by (simp add: open_namev_def)
  next
    case (Inr y)
    with assms d that show thesis by (cases y) (auto simp: open_namev_def)
  qed
qed

lemma do_open_cases:
  assumes "files s a = None" and "do_open (Some a) (Some (addr, path)) fl s = Some (r, s')"
  obtains (failed) "r < 0" and "fs_only s s'"
  | (success) k off d m w where "open_mode fl = Some m" and "m AND 2 = 0" and "r = get_empty_fd s" and "0 \<le> r"
    and "dir_namev (Some (addr, path)) None (put_file a (new_file m) s) = Some (Inr (k, off, d), put_file a (new_file m) s\<lparr>sys_fs := w\<rparr>)"
    and "s' = s\<lparr>sys_fs := w, files := (files s)(a \<mapsto> \<lparr>f_pos = 0, f_mode = m, f_refcount = 1, f_vnode = Some d\<rparr>),
          p_files := (p_files s)[nat r := Some a]\<rparr>"
proof (cases "get_empty_fd s = - EMFILE")
  case True
  with assms failed show thesis by (simp add: do_open_def)
next
  case fd: False
  have pos: "0 \<le> get_empty_fd s" using fd unfolding get_empty_fd_def
    by (cases "List.find (\<lambda>fd. p_files s ! fd = None) [0 ..< NFILES]") (simp_all only: option.case of_nat_0_le_iff)
  have gone: "fput (Some a) (put_file a (new_file m) s\<lparr>sys_fs := w\<rparr>) = Some (s\<lparr>sys_fs := w\<rparr>)" if "0 \<le> m" "m < 8" for m w
    using fput_new [OF that, of "put_file a (new_file m) s\<lparr>sys_fs := w\<rparr>" a] assms(1) by (cases s) (simp add: fun_upd_idem)
  have gone0: "fput (Some a) (put_file a (new_file 0) s) = Some s" using gone [of 0 "sys_fs s"] by simp
  obtain l where l: "strlen path = Some l" using assms(2) fd by (cases "strlen path") (simp_all add: do_open_def fget_new Let_def)
  show thesis
  proof (cases "l > NAME_LEN \<or> open_mode fl = None")
    case True
    then have "r < 0 \<and> s' = s" using assms(2) fd l gone0 by (auto simp: do_open_def fget_new Let_def split: if_splits)
    then show thesis by (intro failed) simp_all
  next
    case False
    then obtain m where m: "open_mode fl = Some m" by blast
    note range = open_mode_range [OF m]
    let ?s2 = "put_file a (new_file m) s"
    have eq: "do_open (Some a) (Some (addr, path)) fl s = do {
        (err, res, s3) \<leftarrow> open_namev (Some (addr, path)) fl None None ?s2;
        open_vnode (get_empty_fd s) a fl err res s3 }"
      using fd False l m by (simp add: do_open_def fget_new Let_def)
    obtain err res s3 where o: "open_namev (Some (addr, path)) fl None None ?s2 = Some (err, res, s3)"
      using assms(2) unfolding eq by (cases "open_namev (Some (addr, path)) fl None None ?s2") auto
    obtain k off d where d: "dir_namev (Some (addr, path)) None ?s2 = Some (Inr (k, off, d), s3)" "err = 0" "res = Some d"
      by (rule open_namev_unset [OF o])
    obtain w where s3: "s3 = ?s2\<lparr>sys_fs := w\<rparr>" using dir_namev_only [OF d(1)] by (auto simp: fs_only_def)
    obtain vn where vn: "vnodes w d = Some vn" "vn_mode vn = S_IFDIR" using dir_namev_Inr(1) [OF d(1)] by (auto simp: s3)
    show thesis
    proof (cases "fl AND 3 = 1 \<or> fl AND 3 = 2")
      case True
      then have "r = - EISDIR \<and> on_fs (vput d) (s\<lparr>sys_fs := w\<rparr>) = Some s'"
        using assms(2) unfolding eq o d(2,3) s3 by (auto simp: open_vnode_def vn gone [OF conjunct1 [OF range] conjunct2 [OF range]] bind_eq_Some_conv)
      then show thesis by (intro failed) (auto intro: fs_only_trans [OF fs_only_upd on_fs_only])
    next
      case nw: False
      then have "m AND 2 = 0" using open_mode_write [OF m] by blast
      moreover have "r = get_empty_fd s \<and> s' = s\<lparr>sys_fs := w, files := (files s)(a \<mapsto> \<lparr>f_pos = 0, f_mode = m, f_refcount = 1, f_vnode = Some d\<rparr>),
          p_files := (p_files s)[nat r := Some a]\<rparr>"
        using assms(2) nw unfolding eq o d(2,3) s3 by (auto simp: open_vnode_def vn)
      ultimately show thesis using m pos d(1) by (intro success [of m k off d w]) (simp_all add: s3)
    qed
  qed
qed


lemma do_open_fds_ok:
  assumes "fds_ok s" and "files s a = None" and "do_open (Some a) (Some (addr, path)) fl s = Some (r, s')"
  shows "fds_ok s'"
  using assms(2,3)
proof (cases rule: do_open_cases)
  case failed
  then show ?thesis using fs_only_fds_ok [OF assms(1)] by simp
next
  case (success k off d m w)
  note l = fds_okD(1) [OF assms(1)]
  note free = get_empty_fd_Some [OF success(3) [symmetric] success(4)]
  have none: "Some a \<notin> set (p_files s)" using fds_okD(3) [OF assms(1)] assms(2) by blast
  then have cnt: "int (count_list ((p_files s)[nat r := Some a]) (Some b)) = int (count_list (p_files s) (Some b)) + (if a = b then 1 else 0)" for b
    using count_list_update [of "nat r" "p_files s" "Some a" "Some b"] free l by simp
  have "count_list (p_files s) (Some a) = 0" using none by (simp add: count_list_0_iff)
  note range = open_mode_range [OF success(1)]
  show ?thesis
  proof (rule fds_okI)
    fix b g
    assume "files s' b = Some g"
    then show "f_refcount g = int (count_list (p_files s') (Some b)) \<and> file_sane g"
      using cnt [of b] fds_okD(2) [OF assms(1), of b] range \<open>count_list (p_files s) (Some a) = 0\<close>
      by (auto simp: success(6) file_sane_def split: if_splits)
  next
    fix b
    assume "Some b \<in> set (p_files s')"
    then show "files s' b \<noteq> None" using fds_okD(3) [OF assms(1), of b] by (auto simp: success(6) dest!: in_set_updateD)
  qed (use l in \<open>simp add: success(6)\<close>)
qed

text \<open>The system calls on descriptors, one after the other.  A new file object gets memory that is not in use.\<close>

inductive sys_step :: "ksys \<Rightarrow> ksys \<Rightarrow> bool" where
  step_open: "files s a = None \<Longrightarrow> do_open (Some a) (Some p) fl s = Some (r, s') \<Longrightarrow> sys_step s s'"
| step_read: "do_read R fd buf n s = Some (r, b, s') \<Longrightarrow> sys_step s s'"
| step_write: "do_write W fd buf n s = Some (r, s') \<Longrightarrow> sys_step s s'"
| step_lseek: "do_lseek fd off w s = Some (r, s') \<Longrightarrow> sys_step s s'"
| step_getdent: "do_getdent fd d s = Some (r, d', s') \<Longrightarrow> sys_step s s'"
| step_close: "do_close fd s = Some (r, s') \<Longrightarrow> sys_step s s'"
| step_dup: "do_dup fd s = Some (r, s') \<Longrightarrow> sys_step s s'"
| step_dup2: "do_dup2 ofd nfd s = Some (r, s') \<Longrightarrow> sys_step s s'"

lemma sys_step_fds_ok: "sys_step s s' \<Longrightarrow> fds_ok s \<Longrightarrow> fds_ok s'"
proof (induction rule: sys_step.induct)
  case (step_open s a p fl r s')
  then show ?case using do_open_fds_ok by (cases p) blast
next
  case (step_read R fd buf n s r b s')
  show ?case
  proof (cases "bad_fd fd s")
    case True
    with step_read show ?thesis by (simp add: do_read_def)
  next
    case False
    then show ?thesis using step_read good_fd do_read_moved moved_keeps by metis
  qed
next
  case (step_write W fd buf n s r s')
  show ?case
  proof (cases "bad_fd fd s")
    case True
    with step_write show ?thesis by (simp add: do_write_def)
  next
    case False
    then show ?thesis using step_write good_fd do_write_moved moved_keeps by metis
  qed
next
  case (step_lseek fd off w s r s')
  show ?case
  proof (cases "bad_fd fd s")
    case True
    with step_lseek show ?thesis by (simp add: do_lseek_def)
  next
    case False
    then show ?thesis using step_lseek good_fd do_lseek_moved moved_keeps by metis
  qed
next
  case (step_getdent fd d s r d' s')
  show ?case
  proof (cases "bad_fd fd s")
    case True
    with step_getdent show ?thesis by (simp add: do_getdent_def)
  next
    case False
    then show ?thesis using step_getdent good_fd do_getdent_moved moved_keeps by metis
  qed
qed (blast intro: do_dup_fds_ok do_dup2_fds_ok dest: do_close_fds_ok)+

end
