(* ===== verification/Proc.thy ===== *)
theory Proc
  imports Progress Vfs
begin

text \<open>
  Processes and their threads: proc/proc.c and proc/kthread.c over the scheduler of theory Sched and the file system of
  theory Vfs.  A process is known by its address; the list of all processes and a process's lists of threads
  and children are lists in the order of the links.  An operation on descriptors works on the tables of the
  current process.

  Arguments that stand for other code: the addresses the slab allocator returns, the stack, the page directory and the
  map of a new process, and what vmmap\_destroy does.  Setting up the context of a thread, giving back stacks and page
  directories, and debug messages have no effect in the model.
\<close>

section \<open>State\<close>

datatype proc_state = PROC_RUNNING | PROC_DEAD

record proc =
  p_pid :: int
  p_comm :: "byte list"
  p_threads :: "nat list"
  p_children :: "nat list"
  p_pproc :: "nat option"
  p_status :: int
  p_state :: proc_state
  p_pagedir :: "nat option"
  p_ftab :: "nat option list"
  p_wd :: "nat option"
  p_vmmap :: "nat option"

record psys = sched +
  procs :: "nat \<rightharpoonup> proc"
  proc_list :: "nat list"
  proc_initproc :: "nat option"
  next_pid :: int
  vfs_state :: vfs
  open_files :: "nat \<rightharpoonup> file_t"
  root_vn :: "nat option"

abbreviation (input) PROC_MAX_COUNT :: int where "PROC_MAX_COUNT \<equiv> 65536"
abbreviation (input) PROC_NAME_LEN :: nat where "PROC_NAME_LEN \<equiv> 256"
abbreviation (input) PID_IDLE :: int where "PID_IDLE \<equiv> 0"
abbreviation (input) PID_INIT :: int where "PID_INIT \<equiv> 1"
abbreviation (input) ECHILD :: int where "ECHILD \<equiv> 10"

abbreviation put_proc :: "nat \<Rightarrow> proc \<Rightarrow> psys \<Rightarrow> psys" where
  "put_proc a p s \<equiv> s\<lparr>procs := (procs s)(a \<mapsto> p)\<rparr>"

text \<open>The view of the file system calls on a process, and putting their result back.\<close>

definition ksys_of :: "proc \<Rightarrow> psys \<Rightarrow> ksys" where
  "ksys_of p s = \<lparr>sys_fs = vfs_state s, files = open_files s, p_files = p_ftab p, p_cwd = p_wd p, vfs_root_vn = root_vn s\<rparr>"

definition put_ksys :: "nat \<Rightarrow> proc \<Rightarrow> ksys \<Rightarrow> psys \<Rightarrow> psys" where
  "put_ksys a p k s = put_proc a (p\<lparr>p_ftab := p_files k, p_wd := p_cwd k\<rparr>) (s\<lparr>vfs_state := sys_fs k, open_files := files k\<rparr>)"

section \<open>Creating processes\<close>

text \<open>
  The loop of \_proc\_getid over the pids in use; it comes back to where it started after at most as many
  rounds as there are pids (\<open>proc_getid_fresh\<close> below).
\<close>

primrec getid_loop :: "nat \<Rightarrow> int list \<Rightarrow> int \<Rightarrow> int \<Rightarrow> int option" where
  "getid_loop 0 pids nxt pid = None"
| "getid_loop (Suc n) pids nxt pid =
    (if pid \<in> set pids then
       (if (pid + 1) mod PROC_MAX_COUNT = nxt then Some (- 1) else getid_loop n pids nxt ((pid + 1) mod PROC_MAX_COUNT))
     else Some pid)"

definition pids_in_use :: "psys \<Rightarrow> int list option" where
  "pids_in_use s = those (map (\<lambda>a. map_option p_pid (procs s a)) (proc_list s))"

definition proc_getid :: "psys \<Rightarrow> (int \<times> psys) option" where
  "proc_getid s = do {
     pids \<leftarrow> pids_in_use s;
     pid \<leftarrow> getid_loop (nat PROC_MAX_COUNT) pids (next_pid s) (next_pid s);
     Some (pid, if pid = - 1 then s else s\<lparr>next_pid := (pid + 1) mod PROC_MAX_COUNT\<rparr>)
   }"

definition comm_of :: "byte list \<Rightarrow> byte list option" where
  "comm_of name = do {
     l \<leftarrow> strlen name;
     (if l < PROC_NAME_LEN then strcpy (replicate PROC_NAME_LEN 0) name
      else strncpy (replicate PROC_NAME_LEN 0) name (PROC_NAME_LEN - 1))
   }"

text \<open>The links of the new process: on the list of all processes, and on the children of the current process.\<close>

definition link_proc :: "nat \<Rightarrow> proc \<Rightarrow> psys \<Rightarrow> psys option" where
  "link_proc a p s =
    (let s1 = put_proc a p (s\<lparr>proc_list := proc_list s @ [a]\<rparr>) in
     case curproc s of
       None \<Rightarrow> Some s1
     | Some c \<Rightarrow> do { cp \<leftarrow> procs s1 c; Some (put_proc c (cp\<lparr>p_children := p_children cp @ [a]\<rparr>) s1) })"

text \<open>The working directory of the new process is that of the current one, with one more reference.\<close>

definition inherit_cwd :: "nat \<Rightarrow> psys \<Rightarrow> psys option" where
  "inherit_cwd a s =
    (case curproc s of
       None \<Rightarrow> Some s
     | Some c \<Rightarrow> do {
         cp \<leftarrow> procs s c;
         p \<leftarrow> procs s a;
         let s1 = put_proc a (p\<lparr>p_wd := p_wd cp\<rparr>) s;
         (case p_wd cp of
            None \<Rightarrow> Some s1
          | Some v \<Rightarrow> do { fs \<leftarrow> vref v (vfs_state s1); Some (s1\<lparr>vfs_state := fs\<rparr>) })
       })"

definition proc_create :: "nat option \<Rightarrow> nat option \<Rightarrow> nat option \<Rightarrow> byte list \<Rightarrow> psys \<Rightarrow> (nat \<times> psys) option" where
  "proc_create new_proc new_pagedir new_map name s = do {
     (pid, s1) \<leftarrow> proc_getid s;
     kassert (pid \<noteq> PID_IDLE \<or> proc_list s1 = []);
     a \<leftarrow> new_proc;
     comm \<leftarrow> comm_of name;
     s2 \<leftarrow> (if pid = PID_INIT then do {
              c \<leftarrow> curproc s1;
              cp \<leftarrow> procs s1 c;
              kassert (p_pid cp = PID_IDLE);
              Some (s1\<lparr>proc_initproc := Some a\<rparr>)
            } else Some s1);
     s3 \<leftarrow> link_proc a \<lparr>p_pid = pid, p_comm = comm, p_threads = [], p_children = [], p_pproc = curproc s2, p_status = 0,
              p_state = PROC_RUNNING, p_pagedir = new_pagedir, p_ftab = replicate NFILES None, p_wd = None, p_vmmap = new_map\<rparr>
            (sched_queue_init (P_wait a) s2);
     s4 \<leftarrow> inherit_cwd a s3;
     Some (a, s4)
   }"

definition proc_lookup :: "int \<Rightarrow> psys \<Rightarrow> nat option" where
  "proc_lookup pid s = List.find (\<lambda>a. map_option p_pid (procs s a) = Some pid) (proc_list s)"

section \<open>Threads\<close>

definition kthread_create :: "nat option \<Rightarrow> bool \<Rightarrow> nat \<Rightarrow> psys \<Rightarrow> (nat \<times> psys) option" where
  "kthread_create slab_thread stack_ok p s = do {
     t \<leftarrow> slab_thread;
     kassert stack_ok;
     pr \<leftarrow> procs s p;
     let th = \<lparr>kt_retval = 0, kt_proc = p, kt_cancelled = 0, kt_wchan = None, kt_state = KT_NO_STATE\<rparr>;
     Some (t, put_proc p (pr\<lparr>p_threads := t # p_threads pr\<rparr>)
                (s\<lparr>threads := (threads s)(t \<mapsto> th), links := list_link_init (Kt_qlink t) (links s)\<rparr>))
   }"

definition kthread_destroy :: "nat \<Rightarrow> psys \<Rightarrow> psys option" where
  "kthread_destroy t s = do {
     th \<leftarrow> threads s t;
     pr \<leftarrow> procs s (kt_proc th);
     Some (put_proc (kt_proc th) (pr\<lparr>p_threads := remove1 t (p_threads pr)\<rparr>) (s\<lparr>threads := (threads s)(t := None)\<rparr>))
   }"

section \<open>Exiting\<close>

text \<open>
  The loop that closes files: for every descriptor process \<open>p\<close> has open, do\_close, which works on the current
  process.
\<close>

fun close_files :: "nat list \<Rightarrow> nat \<Rightarrow> psys \<Rightarrow> psys option" where
  "close_files [] p s = Some s"
| "close_files (i # is) p s = do {
     pr \<leftarrow> procs s p;
     (if p_ftab pr ! i \<noteq> None then do {
        c \<leftarrow> curproc s;
        cp \<leftarrow> procs s c;
        (fd, k) \<leftarrow> do_close (int i) (ksys_of cp s);
        kassert (fd \<noteq> - 1);
        close_files is p (put_ksys c cp k s)
      } else close_files is p s)
   }"

text \<open>The children go to the end of the list of the init process, in order.\<close>

fun reparent :: "nat list \<Rightarrow> nat \<Rightarrow> psys \<Rightarrow> psys option" where
  "reparent [] i s = Some s"
| "reparent (d # ds) i s = do {
     c \<leftarrow> curproc s;
     cp \<leftarrow> procs s c;
     let s1 = put_proc c (cp\<lparr>p_children := remove1 d (p_children cp)\<rparr>) s;
     ip \<leftarrow> procs s1 i;
     let s2 = put_proc i (ip\<lparr>p_children := p_children ip @ [d]\<rparr>) s1;
     dp \<leftarrow> procs s2 d;
     reparent ds i (put_proc d (dp\<lparr>p_pproc := Some i\<rparr>) s2)
   }"

definition proc_cleanup :: "(nat \<Rightarrow> psys \<Rightarrow> psys option) \<Rightarrow> int \<Rightarrow> psys \<Rightarrow> psys option" where
  "proc_cleanup vmmap_destroy status s = do {
     c \<leftarrow> curproc s;
     cp \<leftarrow> procs s c;
     kassert (1 \<le> p_pid cp);
     let s1 = put_proc c (cp\<lparr>p_state := PROC_DEAD, p_status := status\<rparr>) s;
     s2 \<leftarrow> (case p_wd cp of None \<Rightarrow> Some s1 | Some v \<Rightarrow> do { fs \<leftarrow> vput v (vfs_state s1); Some (s1\<lparr>vfs_state := fs\<rparr>) });
     s3 \<leftarrow> close_files [0 ..< NFILES] c s2;
     s4 \<leftarrow> (if p_children cp \<noteq> [] then do {
              i \<leftarrow> proc_initproc s3;
              (if c \<noteq> i then reparent (p_children cp) i s3 else Some s3)
            } else Some s3);
     parent \<leftarrow> p_pproc cp;
     _ \<leftarrow> procs s4 parent;
     (_, s5) \<leftarrow> sched_wakeup_on (P_wait parent) s4;
     (case p_vmmap cp of None \<Rightarrow> Some s5 | Some m \<Rightarrow> vmmap_destroy m s5)
   }"

definition proc_thread_exited ::
    "(psys \<Rightarrow> psys option) list \<Rightarrow> (nat \<Rightarrow> psys \<Rightarrow> psys option) \<Rightarrow> int \<Rightarrow> psys \<Rightarrow> psys switched option" where
  "proc_thread_exited irqs vmmap_destroy retval s = do {
     s1 \<leftarrow> proc_cleanup vmmap_destroy retval s;
     sched_switch irqs s1
   }"

definition kthread_exit ::
    "(psys \<Rightarrow> psys option) list \<Rightarrow> (nat \<Rightarrow> psys \<Rightarrow> psys option) \<Rightarrow> int \<Rightarrow> psys \<Rightarrow> psys switched option" where
  "kthread_exit irqs vmmap_destroy retval s = do {
     t \<leftarrow> curthr s;
     th \<leftarrow> threads s t;
     kassert (kt_wchan th = None);
     kassert (l_next (links s (Kt_qlink t)) = None \<and> l_prev (links s (Kt_qlink t)) = None);
     kassert (Some (kt_proc th) = curproc s);
     proc_thread_exited irqs vmmap_destroy retval (s\<lparr>threads := (threads s)(t \<mapsto> th\<lparr>kt_retval := retval, kt_state := KT_EXITED\<rparr>)\<rparr>)
   }"

text \<open>Cancelling the current thread does not return.\<close>

datatype cancel_result = Cancel_ret psys | Cancel_exit "psys switched"

definition kthread_cancel ::
    "(psys \<Rightarrow> psys option) list \<Rightarrow> (nat \<Rightarrow> psys \<Rightarrow> psys option) \<Rightarrow> nat \<Rightarrow> int \<Rightarrow> psys \<Rightarrow> cancel_result option" where
  "kthread_cancel irqs vmmap_destroy t retval s =
    (if curthr s = Some t then map_option Cancel_exit (kthread_exit irqs vmmap_destroy retval s)
     else do {
       th \<leftarrow> threads s t;
       map_option Cancel_ret (sched_cancel t (s\<lparr>threads := (threads s)(t \<mapsto> th\<lparr>kt_retval := retval\<rparr>)\<rparr>))
     })"

text \<open>
  proc\_kill.  It gives up the processor after cancelling a thread of another process; when it runs again it goes on with
  the threads that are left.
\<close>

datatype kill_result = Kill_ret psys | Kill_switch "nat list" "psys switched" | Kill_exit "psys switched"

definition kill_threads ::
    "(psys \<Rightarrow> psys option) list \<Rightarrow> (nat \<Rightarrow> psys \<Rightarrow> psys option) \<Rightarrow> nat list \<Rightarrow> nat \<Rightarrow> int \<Rightarrow> psys \<Rightarrow> kill_result option" where
  "kill_threads irqs vmmap_destroy ts p status s =
    (case ts of
       [] \<Rightarrow> do {
         pr \<leftarrow> procs s p;
         (_, s1) \<leftarrow> sched_wakeup_on (P_wait p) (put_proc p (pr\<lparr>p_state := PROC_DEAD, p_status := status\<rparr>) s);
         Some (Kill_ret s1)
       }
     | t # ts' \<Rightarrow> do {
         r \<leftarrow> kthread_cancel irqs vmmap_destroy t status s;
         (case r of
            Cancel_exit s1 \<Rightarrow> Some (Kill_exit s1)
          | Cancel_ret s1 \<Rightarrow> do {
              c \<leftarrow> curthr s1;
              s2 \<leftarrow> sched_make_runnable c s1;
              s3 \<leftarrow> sched_switch irqs s2;
              Some (Kill_switch ts' s3)
            })
       })"

definition proc_kill ::
    "(psys \<Rightarrow> psys option) list \<Rightarrow> (nat \<Rightarrow> psys \<Rightarrow> psys option) \<Rightarrow> nat \<Rightarrow> int \<Rightarrow> psys \<Rightarrow> kill_result option" where
  "proc_kill irqs vmmap_destroy p status s = do {
     s1 \<leftarrow> close_files [0 ..< NFILES] p s;
     pr \<leftarrow> procs s1 p;
     parent \<leftarrow> p_pproc pr;
     _ \<leftarrow> procs s1 parent;
     (_, s2) \<leftarrow> sched_wakeup_on (P_wait parent) s1;
     kill_threads irqs vmmap_destroy (p_threads pr) p status s2
   }"

definition do_exit ::
    "(psys \<Rightarrow> psys option) list \<Rightarrow> (nat \<Rightarrow> psys \<Rightarrow> psys option) \<Rightarrow> int \<Rightarrow> psys \<Rightarrow> kill_result option" where
  "do_exit irqs vmmap_destroy status s = do { c \<leftarrow> curproc s; proc_kill irqs vmmap_destroy c status s }"

text \<open>
  proc\_kill\_all goes through the processes \<open>ps\<close> that are left of the list.  When killing process \<open>p\<close> gave up the processor,
  it goes on with the threads \<open>ts\<close> of \<open>p\<close> and then with the processes after it.
\<close>

datatype kill_all_result = All_ret psys | All_switch nat "nat list" "nat list" "psys switched" | All_exit "psys switched"

definition kill_current ::
    "(psys \<Rightarrow> psys option) list \<Rightarrow> (nat \<Rightarrow> psys \<Rightarrow> psys option) \<Rightarrow> psys \<Rightarrow> kill_all_result option" where
  "kill_current irqs vmmap_destroy s = do {
     c \<leftarrow> curproc s;
     cp \<leftarrow> procs s c;
     (if p_pid cp = PID_IDLE then Some (All_ret s)
      else do {
        parent \<leftarrow> p_pproc cp;
        pp \<leftarrow> procs s parent;
        (if p_pid pp = PID_IDLE then Some (All_ret s)
         else do {
           r \<leftarrow> proc_kill irqs vmmap_destroy c 0 s;
           Some (case r of Kill_ret s1 \<Rightarrow> All_ret s1 | Kill_switch ts s1 \<Rightarrow> All_switch c ts [] s1 | Kill_exit s1 \<Rightarrow> All_exit s1)
         })
      })
   }"

definition to_kill :: "nat \<Rightarrow> psys \<Rightarrow> bool option" where
  "to_kill p s = do {
     pr \<leftarrow> procs s p;
     (if p_pid pr = PID_IDLE then Some False
      else do {
        parent \<leftarrow> p_pproc pr;
        pp \<leftarrow> procs s parent;
        Some (p_pid pp \<noteq> PID_IDLE \<and> curproc s \<noteq> Some p)
      })
   }"

primrec kill_all_from ::
    "nat list \<Rightarrow> (psys \<Rightarrow> psys option) list \<Rightarrow> (nat \<Rightarrow> psys \<Rightarrow> psys option) \<Rightarrow> psys \<Rightarrow> kill_all_result option" where
  "kill_all_from [] irqs vmmap_destroy s = kill_current irqs vmmap_destroy s"
| "kill_all_from (p # ps) irqs vmmap_destroy s = do {
     b \<leftarrow> to_kill p s;
     (if b then do {
        pr \<leftarrow> procs s p;
        r \<leftarrow> proc_kill irqs vmmap_destroy p (p_status pr) s;
        (case r of
           Kill_ret s1 \<Rightarrow> kill_all_from ps irqs vmmap_destroy s1
         | Kill_switch ts s1 \<Rightarrow> Some (All_switch p ts ps s1)
         | Kill_exit s1 \<Rightarrow> Some (All_exit s1))
      } else kill_all_from ps irqs vmmap_destroy s)
   }"

definition proc_kill_all ::
    "(psys \<Rightarrow> psys option) list \<Rightarrow> (nat \<Rightarrow> psys \<Rightarrow> psys option) \<Rightarrow> psys \<Rightarrow> kill_all_result option" where
  "proc_kill_all irqs vmmap_destroy s = kill_all_from (proc_list s) irqs vmmap_destroy s"

text \<open>Children of the idle process are spared, the current one included.\<close>

lemma kill_all_from_spares:
  "\<forall>p \<in> set ps. to_kill p s = Some False \<Longrightarrow> kill_all_from ps irqs v s = kill_current irqs v s"
  by (induction ps) simp_all

lemma proc_kill_all_spares:
  assumes "\<forall>p \<in> set (proc_list s). to_kill p s = Some False" and "curproc s = Some c" and "procs s c = Some cp"
    and "p_pproc cp = Some b" and "procs s b = Some bp" and "p_pid bp = PID_IDLE"
  shows "proc_kill_all irqs v s = Some (All_ret s)"
  using assms(2-6) by (simp add: proc_kill_all_def kill_all_from_spares [OF assms(1)] kill_current_def)

section \<open>Waiting for children\<close>

text \<open>
  A call that sleeps goes on from where it looks at its children when the thread runs again: \<open>wait_any\<close> or
  \<open>wait_child\<close> of the same child.  A status that is not written is \<^term>\<open>None\<close>.
\<close>

datatype wait_result = Wait_ret int "int option" psys | Wait_slept "psys switched"

fun destroy_threads :: "nat list \<Rightarrow> psys \<Rightarrow> psys option" where
  "destroy_threads [] s = Some s"
| "destroy_threads (t # ts) s = do {
     th \<leftarrow> threads s t;
     kassert (kt_state th = KT_EXITED);
     s1 \<leftarrow> kthread_destroy t s;
     destroy_threads ts s1
   }"

definition reap :: "nat \<Rightarrow> psys \<Rightarrow> psys option" where
  "reap d s = do {
     c \<leftarrow> curproc s;
     p \<leftarrow> procs s d;
     s1 \<leftarrow> destroy_threads (p_threads p) (s\<lparr>proc_list := remove1 d (proc_list s)\<rparr>);
     kassert (p_pagedir p \<noteq> None);
     cp \<leftarrow> procs s1 c;
     let s2 = put_proc c (cp\<lparr>p_children := remove1 d (p_children cp)\<rparr>) s1;
     Some (s2\<lparr>procs := (procs s2)(d := None)\<rparr>)
   }"

fun dead_child :: "nat list \<Rightarrow> psys \<Rightarrow> nat option option" where
  "dead_child [] s = Some None"
| "dead_child (d # ds) s = do {
     p \<leftarrow> procs s d;
     (if p_state p = PROC_DEAD then Some (Some d) else dead_child ds s)
   }"

definition wait_any :: "(psys \<Rightarrow> psys option) list \<Rightarrow> psys \<Rightarrow> wait_result option" where
  "wait_any irqs s = do {
     c \<leftarrow> curproc s;
     cp \<leftarrow> procs s c;
     (if p_children cp = [] then Some (Wait_ret (- ECHILD) None s)
      else do {
        r \<leftarrow> dead_child (p_children cp) s;
        (case r of
           None \<Rightarrow> map_option Wait_slept (sched_sleep_on irqs (P_wait c) s)
         | Some d \<Rightarrow> do {
             p \<leftarrow> procs s d;
             (if p_pid cp = 0 \<and> p_pid p = 2 then Some (Wait_ret 2 None s)
              else do { s1 \<leftarrow> reap d s; Some (Wait_ret (p_pid p) (Some (p_status p)) s1) })
           })
      })
   }"

definition wait_child :: "(psys \<Rightarrow> psys option) list \<Rightarrow> nat \<Rightarrow> psys \<Rightarrow> wait_result option" where
  "wait_child irqs d s = do {
     c \<leftarrow> curproc s;
     p \<leftarrow> procs s d;
     (if p_state p = PROC_DEAD then do { s1 \<leftarrow> reap d s; Some (Wait_ret (p_pid p) (Some (p_status p)) s1) }
      else map_option Wait_slept (sched_sleep_on irqs (P_wait c) s))
   }"

fun child_with_pid :: "int \<Rightarrow> nat list \<Rightarrow> psys \<Rightarrow> nat option option" where
  "child_with_pid pid [] s = Some None"
| "child_with_pid pid (d # ds) s = do {
     p \<leftarrow> procs s d;
     (if p_pid p = pid then Some (Some d) else child_with_pid pid ds s)
   }"

definition do_waitpid :: "(psys \<Rightarrow> psys option) list \<Rightarrow> int \<Rightarrow> int \<Rightarrow> psys \<Rightarrow> wait_result option" where
  "do_waitpid irqs pid options s = do {
     kassert (options = 0);
     c \<leftarrow> curproc s;
     cp \<leftarrow> procs s c;
     (if p_children cp = [] then Some (Wait_ret (- ECHILD) None s)
      else if pid = - 1 then wait_any irqs s
      else if pid > 0 then do {
        r \<leftarrow> child_with_pid pid (p_children cp) s;
        (case r of None \<Rightarrow> Some (Wait_ret (- ECHILD) None s) | Some d \<Rightarrow> wait_child irqs d s)
      } else do {
        kassert (pid \<noteq> 0);
        Some (Wait_ret (- ECHILD) None s)
      })
   }"

section \<open>Process identifiers\<close>

lemma next_cyclic:
  fixes pid :: int
  shows "((pid + 1) mod PROC_MAX_COUNT + int i) mod PROC_MAX_COUNT = (pid + int (Suc i)) mod PROC_MAX_COUNT"
    and "((pid + 1) mod PROC_MAX_COUNT + int i + 1) mod PROC_MAX_COUNT = (pid + int (Suc i) + 1) mod PROC_MAX_COUNT"
proof -
  have m: "((pid + 1) mod PROC_MAX_COUNT + j) mod PROC_MAX_COUNT = (pid + 1 + j) mod PROC_MAX_COUNT" for j by (rule mod_add_left_eq)
  show "((pid + 1) mod PROC_MAX_COUNT + int i) mod PROC_MAX_COUNT = (pid + int (Suc i)) mod PROC_MAX_COUNT"
    using m [of "int i"] by (simp add: add.assoc)
  show "((pid + 1) mod PROC_MAX_COUNT + int i + 1) mod PROC_MAX_COUNT = (pid + int (Suc i) + 1) mod PROC_MAX_COUNT"
    using m [of "int i + 1"] by (simp add: ac_simps)
qed

lemma getid_loop_free:
  assumes "k < n" and "0 \<le> pid" and "pid < PROC_MAX_COUNT" and "(pid + int k) mod PROC_MAX_COUNT \<notin> set pids"
    and "\<And>i. i < k \<Longrightarrow> (pid + int i) mod PROC_MAX_COUNT \<in> set pids \<and> (pid + int i + 1) mod PROC_MAX_COUNT \<noteq> nxt"
  shows "getid_loop n pids nxt pid = Some ((pid + int k) mod PROC_MAX_COUNT)"
  using assms
proof (induction k arbitrary: n pid)
  case 0
  then show ?case by (cases n) simp_all
next
  case (Suc k)
  obtain m where m: "n = Suc m" "k < m" using Suc.prems(1) by (cases n) simp_all
  let ?p = "(pid + 1) mod PROC_MAX_COUNT"
  note s = next_cyclic(1) [of pid] and s1 = next_cyclic(2) [of pid]
  have "getid_loop m pids nxt ?p = Some ((?p + int k) mod PROC_MAX_COUNT)"
    using Suc.prems(4,5) by (intro Suc.IH [OF m(2)]) (simp_all only: s s1 Suc_less_eq pos_mod_sign pos_mod_bound zero_less_numeral simp_thms)
  moreover have "pid \<in> set pids" "?p \<noteq> nxt" using Suc.prems(2,3) Suc.prems(5) [of 0] by simp_all
  ultimately show ?case by (simp add: m(1) s)
qed

lemma getid_loop_full:
  assumes "k < n" and "0 \<le> pid" and "pid < PROC_MAX_COUNT" and "(pid + int k + 1) mod PROC_MAX_COUNT = nxt"
    and "(pid + int k) mod PROC_MAX_COUNT \<in> set pids"
    and "\<And>i. i < k \<Longrightarrow> (pid + int i) mod PROC_MAX_COUNT \<in> set pids \<and> (pid + int i + 1) mod PROC_MAX_COUNT \<noteq> nxt"
  shows "getid_loop n pids nxt pid = Some (- 1)"
  using assms
proof (induction k arbitrary: n pid)
  case 0
  then show ?case by (cases n) simp_all
next
  case (Suc k)
  obtain m where m: "n = Suc m" "k < m" using Suc.prems(1) by (cases n) simp_all
  let ?p = "(pid + 1) mod PROC_MAX_COUNT"
  note s = next_cyclic(1) [of pid] and s1 = next_cyclic(2) [of pid]
  have "getid_loop m pids nxt ?p = Some (- 1)"
    using Suc.prems(4,5,6) by (intro Suc.IH [OF m(2)]) (simp_all only: s s1 Suc_less_eq pos_mod_sign pos_mod_bound zero_less_numeral simp_thms)
  moreover have "pid \<in> set pids" "?p \<noteq> nxt" using Suc.prems(2,3) Suc.prems(6) [of 0] by simp_all
  ultimately show ?case by (simp add: m(1))
qed

lemma cyclic_distinct:
  assumes "(0 :: int) \<le> n" and "n < PROC_MAX_COUNT" and "i < 65535"
  shows "(n + int i + 1) mod PROC_MAX_COUNT \<noteq> n"
proof (cases "n + int i + 1 < PROC_MAX_COUNT")
  case True
  with assms show ?thesis by simp
next
  case False
  have "(n + int i + 1) mod PROC_MAX_COUNT = (n + int i + 1 - PROC_MAX_COUNT) mod PROC_MAX_COUNT" by (rule minus_mod_self2 [symmetric])
  also have "\<dots> = n + int i + 1 - PROC_MAX_COUNT" using False assms by (intro mod_pos_pos_trivial) linarith+
  finally show ?thesis using assms(3) by linarith
qed

lemma getid_first:
  assumes "(0 :: int) \<le> n" and "n < PROC_MAX_COUNT" and "k < 65536" and "(n + int k) mod PROC_MAX_COUNT \<notin> set pids"
    and "\<And>i. i < k \<Longrightarrow> (n + int i) mod PROC_MAX_COUNT \<in> set pids"
  shows "getid_loop 65536 pids n n = Some ((n + int k) mod PROC_MAX_COUNT)"
proof (rule getid_loop_free [OF assms(3,1,2,4)])
  fix i assume "i < k"
  then show "(n + int i) mod PROC_MAX_COUNT \<in> set pids \<and> (n + int i + 1) mod PROC_MAX_COUNT \<noteq> n"
    using assms(3) by (intro conjI assms(5) cyclic_distinct assms(1,2)) linarith+
qed

lemma getid_none:
  assumes "(0 :: int) \<le> n" and "n < PROC_MAX_COUNT" and "\<And>pid. 0 \<le> pid \<Longrightarrow> pid < PROC_MAX_COUNT \<Longrightarrow> pid \<in> set pids"
  shows "getid_loop 65536 pids n n = Some (- 1)"
proof (rule getid_loop_full [where k = 65535])
  show "(n + int 65535 + 1) mod PROC_MAX_COUNT = n" using assms(1,2) by simp
  show "(n + int 65535) mod PROC_MAX_COUNT \<in> set pids" by (rule assms(3)) simp_all
  fix i :: nat assume "i < 65535"
  then show "(n + int i) mod PROC_MAX_COUNT \<in> set pids \<and> (n + int i + 1) mod PROC_MAX_COUNT \<noteq> n"
    using assms(1,2) by (intro conjI assms(3) cyclic_distinct) simp_all
qed (use assms(1,2) in simp_all)

lemma cyclic_reach:
  assumes "0 \<le> pid" and "pid < PROC_MAX_COUNT"
  shows "\<exists>k < 65536. (n + int k) mod PROC_MAX_COUNT = pid"
proof (intro exI conjI)
  show "nat ((pid - n) mod PROC_MAX_COUNT) < 65536" by (simp add: nat_less_iff)
  have "(n + (pid - n) mod PROC_MAX_COUNT) mod PROC_MAX_COUNT = (n + (pid - n)) mod PROC_MAX_COUNT" by (rule mod_add_right_eq)
  then show "(n + int (nat ((pid - n) mod PROC_MAX_COUNT))) mod PROC_MAX_COUNT = pid" using assms by simp
qed

text \<open>
  C38: \_proc\_getid returns the first pid that no process has, going around from the one after the last it gave out, and
  remembers it; when all pids are in use it returns -1.  It always returns.
\<close>

theorem proc_getid_fresh:
  assumes "pids_in_use s = Some pids" and "0 \<le> next_pid s" and "next_pid s < PROC_MAX_COUNT"
  shows "(\<exists>k pid. pid = (next_pid s + int k) mod PROC_MAX_COUNT \<and> pid \<notin> set pids \<and>
      (\<forall>i < k. (next_pid s + int i) mod PROC_MAX_COUNT \<in> set pids) \<and>
      proc_getid s = Some (pid, s\<lparr>next_pid := (pid + 1) mod PROC_MAX_COUNT\<rparr>)) \<or>
    ({0 ..< PROC_MAX_COUNT} \<subseteq> set pids \<and> proc_getid s = Some (- 1, s))"
proof (cases "\<exists>k < 65536. (next_pid s + int k) mod PROC_MAX_COUNT \<notin> set pids")
  case True
  then obtain k where k: "k < 65536" "(next_pid s + int k) mod PROC_MAX_COUNT \<notin> set pids"
      "\<And>i. i < k \<Longrightarrow> \<not> (i < 65536 \<and> (next_pid s + int i) mod PROC_MAX_COUNT \<notin> set pids)"
    using exists_least_iff [of "\<lambda>k. k < 65536 \<and> (next_pid s + int k) mod PROC_MAX_COUNT \<notin> set pids"] by blast
  then have less: "(next_pid s + int i) mod PROC_MAX_COUNT \<in> set pids" if "i < k" for i using that by fastforce
  let ?pid = "(next_pid s + int k) mod PROC_MAX_COUNT"
  have "?pid \<noteq> - 1" using pos_mod_sign [of 65536 "next_pid s + int k"] by linarith
  then have "proc_getid s = Some (?pid, s\<lparr>next_pid := (?pid + 1) mod PROC_MAX_COUNT\<rparr>)"
    using getid_first [OF assms(2,3) k(1,2) less] by (simp add: proc_getid_def assms(1))
  with k less show ?thesis by blast
next
  case False
  then have all: "pid \<in> set pids" if "0 \<le> pid" "pid < PROC_MAX_COUNT" for pid using cyclic_reach [OF that, of "next_pid s"] by blast
  from getid_none [OF assms(2,3) this] have "proc_getid s = Some (- 1, s)" by (simp add: proc_getid_def assms(1))
  with all show ?thesis by auto
qed

definition psys0 :: psys where
  "psys0 = \<lparr>links = (\<lambda>a. case a of Tq_list q \<Rightarrow> \<lparr>l_next = Some a, l_prev = Some a\<rparr> | Kt_qlink x \<Rightarrow> \<lparr>l_next = None, l_prev = None\<rparr>),
     tq_size = (\<lambda>_. 0), threads = Map.empty, curthr = None, curproc = None, ipl = 0, saved_ipl = (\<lambda>_. 0),
     procs = Map.empty, proc_list = [], proc_initproc = None, next_pid = 0, vfs_state = fs0, open_files = Map.empty, root_vn = None\<rparr>"

theorem proc_getid_fresh_witness:
  "proc_getid psys0 = Some (0, psys0\<lparr>next_pid := 1\<rparr>)"
proof -
  have s: "pids_in_use psys0 = Some []" "0 \<le> next_pid psys0" "next_pid psys0 < PROC_MAX_COUNT" by (simp_all add: psys0_def pids_in_use_def)
  from proc_getid_fresh [OF s] obtain k pid where k: "pid = (next_pid psys0 + int k) mod PROC_MAX_COUNT"
      "\<forall>i < k. (next_pid psys0 + int i) mod PROC_MAX_COUNT \<in> set []" "proc_getid psys0 = Some (pid, psys0\<lparr>next_pid := (pid + 1) mod PROC_MAX_COUNT\<rparr>)"
    by auto
  then have "k = 0" by auto
  with k show ?thesis by (simp add: psys0_def)
qed

end
