(* ===== verification/Proc_Table.thy ===== *)
theory Proc_Table
  imports Proc
begin

text \<open>
  The process table: that the lists of children and the parent pointers agree in every run, and what waiting for a child
  does.
\<close>

section \<open>The table\<close>

definition proc_wf :: "(nat \<rightharpoonup> proc) \<Rightarrow> nat set \<Rightarrow> nat \<Rightarrow> proc \<Rightarrow> bool" where
  "proc_wf T X a p \<longleftrightarrow> distinct (p_children p) \<and> (\<forall>b. b \<in> set (p_children p) \<longleftrightarrow> (\<exists>q. T b = Some q \<and> p_pproc q = Some a)) \<and>
    (\<forall>b. p_pproc p = Some b \<longrightarrow> T b \<noteq> None) \<and> (\<forall>b q. T b = Some q \<longrightarrow> p_pid q = p_pid p \<longrightarrow> 0 \<le> p_pid p \<longrightarrow> b = a) \<and>
    (p_state p = PROC_DEAD \<longrightarrow> a \<notin> X \<longrightarrow> p_children p = [])"

text \<open>
  Every process on the list of all processes and no other exists; parents and children agree; pids are unique (a
  process that got none has -1); and a dead process has no children, the processes \<open>X\<close> excepted.
\<close>

definition table_ok :: "nat set \<Rightarrow> nat list \<Rightarrow> (nat \<rightharpoonup> proc) \<Rightarrow> bool" where
  "table_ok X ps T \<longleftrightarrow> distinct ps \<and> set ps = dom T \<and> (\<forall>a p. T a = Some p \<longrightarrow> proc_wf T X a p)"

text \<open>What the table is about; other fields of a process do not matter.\<close>

definition kin :: "proc \<Rightarrow> int \<times> nat list \<times> nat option \<times> proc_state" where
  "kin p = (p_pid p, p_children p, p_pproc p, p_state p)"

definition family :: "(nat \<rightharpoonup> proc) \<Rightarrow> nat \<rightharpoonup> int \<times> nat list \<times> nat option \<times> proc_state" where
  "family T = (\<lambda>a. map_option kin (T a))"

lemma family_Some: "family T = family T' \<Longrightarrow> T' a = Some p' \<Longrightarrow> \<exists>p. T a = Some p \<and> kin p = kin p'"
  unfolding family_def fun_eq_iff by (metis map_option_eq_Some)

lemma table_ok_family:
  assumes "table_ok X ps T" and "family T = family T'"
  shows "table_ok X ps T'"
  unfolding table_ok_def
proof (intro conjI allI impI)
  have d: "T a = None \<longleftrightarrow> T' a = None" for a using fun_cong [OF assms(2), of a] by (auto simp: family_def)
  then have "dom T' = dom T" by (auto simp: dom_def)
  then show "distinct ps" "set ps = dom T'" using assms(1) by (auto simp: table_ok_def)
  fix a p' assume "T' a = Some p'"
  then obtain p where p: "T a = Some p" "kin p = kin p'" using family_Some [OF assms(2)] by blast
  then have wf: "proc_wf T X a p" using assms(1) by (simp add: table_ok_def)
  have q: "(\<exists>q. T b = Some q \<and> p_pproc q = Some a) \<longleftrightarrow> (\<exists>q. T' b = Some q \<and> p_pproc q = Some a)" for a b
    using family_Some [OF assms(2), of b] family_Some [OF assms(2) [symmetric], of b] by (fastforce simp: kin_def)
  have i: "b = a" if "T' b = Some q'" "p_pid q' = p_pid p'" "0 \<le> p_pid p'" for b q'
    using family_Some [OF assms(2) that(1)] that wf p(2) by (fastforce simp: proc_wf_def kin_def)
  show "proc_wf T' X a p'" using wf p(2) d i unfolding proc_wf_def q by (simp add: kin_def)
qed

lemma table_okD:
  assumes "table_ok X ps T" and "T a = Some p"
  shows "distinct (p_children p)" and "b \<in> set (p_children p) \<longleftrightarrow> (\<exists>q. T b = Some q \<and> p_pproc q = Some a)"
    and "p_pproc p = Some b \<Longrightarrow> \<exists>q. T b = Some q" and "T b = Some q \<Longrightarrow> p_pid q = p_pid p \<Longrightarrow> 0 \<le> p_pid p \<Longrightarrow> b = a"
    and "p_state p = PROC_DEAD \<Longrightarrow> a \<notin> X \<Longrightarrow> p_children p = []" and "a \<in> set ps"
  using assms by (auto simp: table_ok_def proc_wf_def)

text \<open>A change of children and parents by functions of the process.\<close>

definition rewire :: "(nat \<Rightarrow> nat list \<Rightarrow> nat list) \<Rightarrow> (nat \<Rightarrow> nat option \<Rightarrow> nat option) \<Rightarrow> (nat \<rightharpoonup> proc) \<Rightarrow> nat \<rightharpoonup> proc" where
  "rewire f g T = (\<lambda>a. map_option (\<lambda>p. p\<lparr>p_children := f a (p_children p), p_pproc := g a (p_pproc p)\<rparr>) (T a))"

lemma rewire_parent: "(\<exists>q. rewire f g T b = Some q \<and> p_pproc q = Some a) \<longleftrightarrow> (\<exists>q. T b = Some q \<and> g b (p_pproc q) = Some a)"
  by (cases "T b") (simp_all add: rewire_def)

lemma table_move:
  assumes "table_ok X ps T" and "T c = Some cp" and "c \<noteq> i" and "T i = Some ip" and "p_state ip = PROC_RUNNING" and "d \<in> set (p_children cp)"
  shows "table_ok X ps (rewire (\<lambda>a xs. if a = c then remove1 d xs else if a = i then xs @ [d] else xs) (\<lambda>a q. if a = d then Some i else q) T)"
    (is "table_ok X ps ?T")
  unfolding table_ok_def
proof (intro conjI allI impI)
  show "distinct ps" "set ps = dom ?T" using assms(1) by (auto simp: table_ok_def rewire_def dom_def)
  obtain dp where dp: "T d = Some dp" "p_pproc dp = Some c" using table_okD(2) [OF assms(1,2)] assms(6) by blast
  have di: "d \<notin> set (p_children ip)" using table_okD(2) [OF assms(1,4), of d] dp assms(3) by auto
  fix a p' assume "?T a = Some p'"
  then obtain p where p: "T a = Some p"
    and p': "p' = p\<lparr>p_children := if a = c then remove1 d (p_children p) else if a = i then p_children p @ [d] else p_children p,
      p_pproc := if a = d then Some i else p_pproc p\<rparr>" by (auto simp: rewire_def)
  note D = table_okD [OF assms(1) p]
  have "distinct (p_children p')" using D(1) di p assms(4) by (auto simp: p')
  moreover have "b \<in> set (p_children p') \<longleftrightarrow> (\<exists>q. ?T b = Some q \<and> p_pproc q = Some a)" for b
    unfolding rewire_parent using D(2) [of b] D(1) dp assms(3) di p by (cases "b = d") (auto simp: p')
  moreover have "?T b \<noteq> None" if "p_pproc p' = Some b" for b
    using D(3) [of b] that assms(4) by (auto simp: p' rewire_def split: if_splits)
  moreover have "b = a" if "?T b = Some q" "p_pid q = p_pid p'" "0 \<le> p_pid p'" for b q
    using that D(4) by (auto simp: p' rewire_def)
  moreover have "p_children p' = []" if "p_state p' = PROC_DEAD" "a \<notin> X"
    using D(5) that p assms(4,5) by (auto simp: p')
  ultimately show "proc_wf ?T X a p'" unfolding proc_wf_def by blast
qed

lemma table_create:
  assumes "table_ok X ps T" and "T a = None" and "p_children p = []" and "p_pproc p = None" and "p_state p = PROC_RUNNING"
    and "\<And>b q. T b = Some q \<Longrightarrow> p_pid q = p_pid p \<Longrightarrow> p_pid p < 0"
  shows "table_ok X (ps @ [a]) (T(a \<mapsto> p))"
  unfolding table_ok_def
proof (intro conjI allI impI)
  show "distinct (ps @ [a])" "set (ps @ [a]) = dom (T(a \<mapsto> p))" using assms(1,2) by (auto simp: table_ok_def)
  have no: "p_pproc q \<noteq> Some a" if "T b = Some q" for b q using table_okD(3) [OF assms(1) that, of a] assms(2) by auto
  fix x q assume q: "(T(a \<mapsto> p)) x = Some q"
  show "proc_wf (T(a \<mapsto> p)) X x q"
  proof (cases "x = a")
    case True
    with q have "q = p" by simp
    with True assms no show ?thesis by (fastforce simp: proc_wf_def)
  next
    case False
    with q have qx: "T x = Some q" by simp
    note D = table_okD [OF assms(1) qx]
    have "b \<in> set (p_children q) \<longleftrightarrow> (\<exists>r. (T(a \<mapsto> p)) b = Some r \<and> p_pproc r = Some x)" for b
      using D(2) [of b] assms(2,4) by (cases "b = a") auto
    moreover have "b = x" if "(T(a \<mapsto> p)) b = Some r" "p_pid r = p_pid q" "0 \<le> p_pid q" for b r
      using that D(4) assms(6) [OF qx] by (cases "b = a") auto
    ultimately show ?thesis using D(1,3,5) unfolding proc_wf_def by (auto simp: not_less)
  qed
qed

text \<open>A process without a parent becomes the last child of another one.\<close>

lemma table_adopt:
  assumes "table_ok X ps T" and "T c = Some cp" and "p_state cp = PROC_RUNNING" and "T a = Some p" and "p_pproc p = None"
  shows "table_ok X ps (rewire (\<lambda>x xs. if x = c then xs @ [a] else xs) (\<lambda>x q. if x = a then Some c else q) T)" (is "table_ok X ps ?T")
  unfolding table_ok_def
proof (intro conjI allI impI)
  show "distinct ps" "set ps = dom ?T" using assms(1) by (auto simp: table_ok_def rewire_def dom_def)
  have ac: "a \<notin> set (p_children cp)" using table_okD(2) [OF assms(1,2), of a] assms(4,5) by auto
  fix x q' assume "?T x = Some q'"
  then obtain q where q: "T x = Some q" and q': "q' = q\<lparr>p_children := if x = c then p_children q @ [a] else p_children q,
      p_pproc := if x = a then Some c else p_pproc q\<rparr>" by (auto simp: rewire_def)
  note D = table_okD [OF assms(1) q]
  have "distinct (p_children q')" using D(1) ac q assms(2) by (auto simp: q')
  moreover have "b \<in> set (p_children q') \<longleftrightarrow> (\<exists>r. ?T b = Some r \<and> p_pproc r = Some x)" for b
    unfolding rewire_parent using D(2) [of b] ac assms(4,5) by (cases "b = a") (auto simp: q')
  moreover have "?T b \<noteq> None" if "p_pproc q' = Some b" for b
    using D(3) [of b] that assms(2) by (auto simp: q' rewire_def split: if_splits)
  moreover have "b = x" if "?T b = Some r" "p_pid r = p_pid q'" "0 \<le> p_pid q'" for b r
    using that D(4) by (auto simp: q' rewire_def)
  moreover have "p_children q' = []" if "p_state q' = PROC_DEAD" "x \<notin> X"
    using D(5) that q assms(2,3) by (auto simp: q')
  ultimately show "proc_wf ?T X x q'" unfolding proc_wf_def by blast
qed

lemma table_reap:
  assumes "table_ok X ps T" and "T c = Some cp" and "c \<noteq> d" and "d \<in> set (p_children cp)" and "T d = Some dp" and "p_children dp = []"
  shows "table_ok X (remove1 d ps) (T(c \<mapsto> cp\<lparr>p_children := remove1 d (p_children cp)\<rparr>, d := None))" (is "table_ok X _ ?T")
  unfolding table_ok_def
proof (intro conjI allI impI)
  show "distinct (remove1 d ps)" "set (remove1 d ps) = dom ?T" using assms(1-3) by (auto simp: table_ok_def)
  have no: "p_pproc q \<noteq> Some d" if "T b = Some q" for b q using table_okD(2) [OF assms(1,5), of b] assms(6) that by auto
  have dc: "p_pproc dp = Some c" using table_okD(2) [OF assms(1,2), of d] assms(4,5) by auto
  fix a p' assume a: "?T a = Some p'"
  then have ad: "a \<noteq> d" by auto
  then obtain p where p: "T a = Some p" and p': "p' = p\<lparr>p_children := if a = c then remove1 d (p_children p) else p_children p\<rparr>"
    using a assms(2) by (cases "a = c") auto
  note D = table_okD [OF assms(1) p]
  have t: "(\<exists>q. ?T b = Some q \<and> p_pproc q = Some a) \<longleftrightarrow> b \<noteq> d \<and> (\<exists>q. T b = Some q \<and> p_pproc q = Some a)" for b
    using assms(2) by (cases "b = c") auto
  have "distinct (p_children p')" using D(1) by (simp add: p')
  moreover have "b \<in> set (p_children p') \<longleftrightarrow> (\<exists>q. ?T b = Some q \<and> p_pproc q = Some a)" for b
    unfolding t using D(1) D(2) [of b] assms(5) dc p by (auto simp: p')
  moreover have "?T b \<noteq> None" if "p_pproc p' = Some b" for b
    using D(3) [of b] that no [OF p] assms(2) by (auto simp: p')
  moreover have "b = a" if "?T b = Some q" "p_pid q = p_pid p'" "0 \<le> p_pid p'" for b q
    using that D(4) assms(2) by (auto simp: p' split: if_splits)
  moreover have "p_children p' = []" if "p_state p' = PROC_DEAD" "a \<notin> X" using D(5) that by (simp add: p')
  ultimately show "proc_wf ?T X a p'" unfolding proc_wf_def by blast
qed

lemma table_dies:
  assumes "table_ok {} ps T" and "T c = Some cp"
  shows "table_ok {c} ps (T(c \<mapsto> cp\<lparr>p_state := PROC_DEAD, p_status := status\<rparr>))" (is "table_ok _ _ ?T")
  unfolding table_ok_def
proof (intro conjI allI impI)
  show "distinct ps" "set ps = dom ?T" using assms by (auto simp: table_ok_def)
  fix a p' assume "?T a = Some p'"
  then obtain p where p: "T a = Some p" and p': "p_children p' = p_children p" "p_pproc p' = p_pproc p" "p_pid p' = p_pid p"
      "a \<noteq> c \<Longrightarrow> p_state p' = p_state p" using assms(2) by (cases "a = c") auto
  have q: "(\<exists>q. ?T b = Some q \<and> p_pproc q = Some a) \<longleftrightarrow> (\<exists>q. T b = Some q \<and> p_pproc q = Some a)" for b
    using assms(2) by (cases "b = c") auto
  note D = table_okD [OF assms(1) p]
  show "proc_wf ?T {c} a p'" using D assms(2) p' unfolding proc_wf_def q by (auto split: if_splits)
qed

lemma table_dead:
  assumes "table_ok {c} ps T" and "\<And>p. T c = Some p \<Longrightarrow> p_children p = []"
  shows "table_ok {} ps T"
  using assms unfolding table_ok_def proc_wf_def by blast

section \<open>What operations keep\<close>

definition same_procs :: "psys \<Rightarrow> psys \<Rightarrow> bool" where
  "same_procs s s' \<longleftrightarrow> family (procs s') = family (procs s) \<and> proc_list s' = proc_list s \<and> proc_initproc s' = proc_initproc s \<and>
    next_pid s' = next_pid s"

lemma same_procs_refl [simp]: "same_procs s s"
  by (simp add: same_procs_def)

lemma same_procs_trans: "same_procs s s1 \<Longrightarrow> same_procs s1 s2 \<Longrightarrow> same_procs s s2"
  by (simp add: same_procs_def)

lemma same_procs_fs [simp]: "same_procs s (s\<lparr>vfs_state := v\<rparr>)" "same_procs s (s\<lparr>ipl := i\<rparr>)" "same_procs s (s\<lparr>saved_ipl := f\<rparr>)"
  "same_procs s (s\<lparr>threads := T\<rparr>)"
  by (simp_all add: same_procs_def)

lemma family_upd: "T a = Some p \<Longrightarrow> kin p' = kin p \<Longrightarrow> family (T(a \<mapsto> p')) = family T"
  by (auto simp: family_def fun_eq_iff)

lemma wakeup_procs: "sched_wakeup_on q s = Some (r, s') \<Longrightarrow> same_procs s s' \<and> procs s' = procs s \<and> curproc s' = curproc s"
  by (auto simp: same_procs_def sched_wakeup_on_def ktqueue_dequeue_def sched_make_runnable_def ktqueue_enqueue_def thread_upd_def Let_def
      bind_eq_Some_conv split: if_splits)

lemma dequeue_procs: "ktqueue_dequeue q s = Some (r, s') \<Longrightarrow> same_procs s s' \<and> procs s' = procs s"
  by (auto simp: same_procs_def ktqueue_dequeue_def bind_eq_Some_conv split: if_splits)

lemma intr_wait_procs:
  "sched_intr_wait (map irq_wakeup qs) s = Some (Switched s') \<Longrightarrow> same_procs s s' \<and> procs s' = procs s"
proof (induction qs arbitrary: s)
  case Nil
  then show ?case by (auto split: if_splits)
next
  case (Cons q qs)
  show ?case
  proof (cases "sched_queue_empty Kt_runq s")
    case False
    with Cons.prems show ?thesis by auto
  next
    case True
    with Cons.prems obtain s1 where s1: "irq_wakeup q (s\<lparr>ipl := IPL_LOW\<rparr>) = Some s1"
        "sched_intr_wait (map irq_wakeup qs) (s1\<lparr>ipl := IPL_HIGH\<rparr>) = Some (Switched s')"
      by (auto simp: bind_eq_Some_conv)
    then obtain r where "sched_wakeup_on q (s\<lparr>ipl := IPL_LOW\<rparr>) = Some (r, s1)" by (auto simp: irq_wakeup_def)
    from wakeup_procs [OF this] Cons.IH [OF s1(2)] show ?thesis by (auto simp: same_procs_def)
  qed
qed

lemma switch_procs:
  assumes "sched_switch (map irq_wakeup qs) s = Some (Switched s')"
  shows "same_procs s s' \<and> procs s' = procs s"
proof -
  obtain t where t: "curthr s = Some t" using assms by (cases "curthr s") (simp_all add: sched_switch_def)
  let ?s1 = "s\<lparr>saved_ipl := (saved_ipl s)(t := ipl s), ipl := IPL_HIGH\<rparr>"
  obtain w where w: "sched_intr_wait (map irq_wakeup qs) ?s1 = Some w"
    using assms t by (cases "sched_intr_wait (map irq_wakeup qs) ?s1") (simp_all add: sched_switch_def Let_def)
  obtain s2 where s2: "w = Switched s2" using assms t w by (cases w) (simp_all add: sched_switch_def Let_def)
  from assms obtain r s3 where d: "ktqueue_dequeue Kt_runq s2 = Some (r, s3)" "procs s' = procs s3" "same_procs s3 s'"
    by (auto simp: sched_switch_def t w s2 Let_def bind_eq_Some_conv same_procs_def)
  from intr_wait_procs [OF w [unfolded s2]] dequeue_procs [OF d(1)] d(2,3) show ?thesis by (auto simp: same_procs_def)
qed

lemma sleep_procs:
  assumes "sched_sleep_on (map irq_wakeup qs) q s = Some (Switched s')"
  shows "same_procs s s' \<and> procs s' = procs s"
proof -
  obtain s2 where s2: "sched_switch (map irq_wakeup qs) s2 = Some (Switched s')" "same_procs s s2" "procs s2 = procs s"
    using assms by (auto simp: sched_sleep_on_def thread_upd_def ktqueue_enqueue_def bind_eq_Some_conv same_procs_def)
  from switch_procs [OF s2(1)] s2(2,3) show ?thesis by (auto simp: same_procs_def)
qed

lemma close_files_procs:
  "close_files is p s = Some s' \<Longrightarrow> same_procs s s' \<and> curproc s' = curproc s"
proof (induction "is" p s rule: close_files.induct)
  case (2 i "is" p s)
  obtain pr where pr: "procs s p = Some pr" using "2.prems" by (cases "procs s p") simp_all
  show ?case
  proof (cases "p_ftab pr ! i")
    case None
    with "2.IH"(2) [OF pr] "2.prems" pr show ?thesis by simp
  next
    case (Some f)
    then obtain c cp fd k where c: "curproc s = Some c" "procs s c = Some cp" "do_close (int i) (ksys_of cp s) = Some (fd, k)" "fd \<noteq> - 1"
        "close_files is p (put_ksys c cp k s) = Some s'" using "2.prems" pr by (auto simp: bind_eq_Some_conv)
    have "same_procs s (put_ksys c cp k s)" using c(2) by (auto simp: same_procs_def put_ksys_def intro!: family_upd simp: kin_def)
    moreover have "same_procs (put_ksys c cp k s) s' \<and> curproc s' = curproc (put_ksys c cp k s)"
      using "2.IH"(1) [OF pr _ c(1,2,3)] Some c(4,5) by simp
    ultimately show ?thesis by (auto simp: put_ksys_def intro: same_procs_trans)
  qed
qed simp

section \<open>Creating, exiting and reaping\<close>

definition procs_ok :: "psys \<Rightarrow> bool" where
  "procs_ok s \<longleftrightarrow> table_ok {} (proc_list s) (procs s) \<and> 0 \<le> next_pid s \<and> next_pid s < PROC_MAX_COUNT"

lemma procs_ok_same: "procs_ok s \<Longrightarrow> same_procs s s' \<Longrightarrow> procs_ok s'"
  by (auto simp: procs_ok_def same_procs_def intro: table_ok_family [OF _ sym])

lemma getid_loop_result:
  "getid_loop n pids nxt pid = Some r \<Longrightarrow> 0 \<le> pid \<Longrightarrow> pid < PROC_MAX_COUNT \<Longrightarrow> r = - 1 \<or> (r \<notin> set pids \<and> 0 \<le> r \<and> r < PROC_MAX_COUNT)"
  by (induction n arbitrary: pid) (auto split: if_splits)

lemma those_map_mem: "those (map f xs) = Some ys \<Longrightarrow> x \<in> set xs \<Longrightarrow> f x = Some y \<Longrightarrow> y \<in> set ys"
  by (induction xs arbitrary: ys) (auto split: option.splits)

lemma proc_getid_result:
  assumes "proc_getid s = Some (pid, s')" and "procs_ok s"
  shows "- 1 \<le> pid" and "\<And>b q. procs s b = Some q \<Longrightarrow> p_pid q = pid \<Longrightarrow> pid < 0"
    and "procs s' = procs s" "proc_list s' = proc_list s" "curproc s' = curproc s" "proc_initproc s' = proc_initproc s"
    and "0 \<le> next_pid s'" "next_pid s' < PROC_MAX_COUNT"
proof -
  obtain pids where pids: "pids_in_use s = Some pids" "getid_loop 65536 pids (next_pid s) (next_pid s) = Some pid"
      "s' = (if pid = - 1 then s else s\<lparr>next_pid := (pid + 1) mod PROC_MAX_COUNT\<rparr>)"
    using assms(1) by (auto simp: proc_getid_def bind_eq_Some_conv)
  have n: "0 \<le> next_pid s" "next_pid s < PROC_MAX_COUNT" using assms(2) by (simp_all add: procs_ok_def)
  note r = getid_loop_result [OF pids(2) n]
  then show "- 1 \<le> pid" by auto
  show "procs s' = procs s" "proc_list s' = proc_list s" "curproc s' = curproc s" "proc_initproc s' = proc_initproc s"
      "0 \<le> next_pid s'" "next_pid s' < PROC_MAX_COUNT" using n by (simp_all add: pids(3))
  fix b q assume q: "procs s b = Some q" "p_pid q = pid"
  then have "b \<in> set (proc_list s)" using assms(2) table_okD(6) by (auto simp: procs_ok_def)
  from those_map_mem [OF pids(1) [unfolded pids_in_use_def] this] q have "pid \<in> set pids" by simp
  with r show "pid < 0" by auto
qed

lemma link_proc_table:
  assumes "table_ok {} (proc_list s) (procs s)" and "procs s a = None" and "p_children p = []" and "p_pproc p = curproc s"
    and "p_state p = PROC_RUNNING" and "\<And>b q. procs s b = Some q \<Longrightarrow> p_pid q = p_pid p \<Longrightarrow> p_pid p < 0"
    and "\<And>c. curproc s = Some c \<Longrightarrow> \<exists>cp. procs s c = Some cp \<and> p_state cp = PROC_RUNNING" and "link_proc a p s = Some s'"
  shows "table_ok {} (proc_list s') (procs s')" and "curproc s' = curproc s" and "next_pid s' = next_pid s"
proof -
  show "curproc s' = curproc s" "next_pid s' = next_pid s" using assms(8) by (auto simp: link_proc_def Let_def bind_eq_Some_conv split: option.splits)
  let ?p = "p\<lparr>p_pproc := None\<rparr>"
  have c: "table_ok {} (proc_list s @ [a]) ((procs s)(a \<mapsto> ?p))"
    using table_create [OF assms(1,2), of ?p] assms(3,5,6) by simp
  show "table_ok {} (proc_list s') (procs s')"
  proof (cases "curproc s")
    case None
    then have "?p = p" using assms(4) by simp
    with c None assms(8) show ?thesis by (auto simp: link_proc_def)
  next
    case (Some c)
    obtain cp where cp: "procs s c = Some cp" "p_state cp = PROC_RUNNING" using assms(7) [OF Some] by blast
    then have ca: "c \<noteq> a" using assms(2) by auto
    have t: "table_ok {} (proc_list s @ [a]) (rewire (\<lambda>x xs. if x = c then xs @ [a] else xs) (\<lambda>x q. if x = a then Some c else q) ((procs s)(a \<mapsto> ?p)))"
      by (rule table_adopt [OF c, of _ cp _ ?p]) (use cp ca in auto)
    have "s' = s\<lparr>proc_list := proc_list s @ [a], procs := (procs s)(a \<mapsto> p, c \<mapsto> cp\<lparr>p_children := p_children cp @ [a]\<rparr>)\<rparr>"
      using assms(8) ca cp(1) Some by (simp add: link_proc_def Let_def)
    moreover have "rewire (\<lambda>x xs. if x = c then xs @ [a] else xs) (\<lambda>x q. if x = a then Some c else q) ((procs s)(a \<mapsto> ?p)) =
        (procs s)(a \<mapsto> p, c \<mapsto> cp\<lparr>p_children := p_children cp @ [a]\<rparr>)"
    proof
      fix x
      show "rewire (\<lambda>x xs. if x = c then xs @ [a] else xs) (\<lambda>x q. if x = a then Some c else q) ((procs s)(a \<mapsto> ?p)) x =
          ((procs s)(a \<mapsto> p, c \<mapsto> cp\<lparr>p_children := p_children cp @ [a]\<rparr>)) x"
        using ca cp(1) assms(4) Some by (cases "procs s x") (auto simp: rewire_def)
    qed
    ultimately show ?thesis using t by simp
  qed
qed

definition cur_alive :: "psys \<Rightarrow> bool" where
  "cur_alive s \<longleftrightarrow> (\<forall>c. curproc s = Some c \<longrightarrow> (\<exists>p. procs s c = Some p \<and> p_state p = PROC_RUNNING))"

lemma inherit_cwd_same: "inherit_cwd a s = Some s' \<Longrightarrow> same_procs s s'"
  by (auto simp: inherit_cwd_def same_procs_def kin_def Let_def bind_eq_Some_conv family_def fun_eq_iff split: option.splits)

lemma proc_create_ok:
  assumes "procs_ok s" and "cur_alive s" and "procs s a = None" and "proc_create (Some a) pd mp name s = Some (b, s')"
  shows "procs_ok s'"
proof -
  obtain pid s1 where g: "proc_getid s = Some (pid, s1)" using assms(4) by (cases "proc_getid s") (auto simp: proc_create_def)
  note G = proc_getid_result [OF g assms(1)]
  from assms(4) obtain comm s2 s3 where
    s2: "s2 = s1 \<or> s2 = s1\<lparr>proc_initproc := Some a\<rparr>" and
    s3: "link_proc a \<lparr>p_pid = pid, p_comm = comm, p_threads = [], p_children = [], p_pproc = curproc s2, p_status = 0,
        p_state = PROC_RUNNING, p_pagedir = pd, p_ftab = replicate NFILES None, p_wd = None, p_vmmap = mp\<rparr>
        (sched_queue_init (P_wait a) s2) = Some s3" and
    s4: "inherit_cwd a s3 = Some s'"
    by (auto simp: proc_create_def g bind_eq_Some_conv split: if_splits)
  let ?s = "sched_queue_init (P_wait a) s2"
  have q: "procs ?s = procs s" "proc_list ?s = proc_list s" "curproc ?s = curproc s" "curproc s2 = curproc s" "next_pid ?s = next_pid s1"
    using s2 G(3-6) by (auto simp: sched_queue_init_def)
  have t: "table_ok {} (proc_list s3) (procs s3)" "next_pid s3 = next_pid s1"
    using link_proc_table [OF _ _ _ _ _ _ _ s3] assms(1-3) G(2) by (simp_all add: q procs_ok_def cur_alive_def)
  then have "procs_ok s3" using G(7,8) by (simp add: procs_ok_def)
  from procs_ok_same [OF this inherit_cwd_same [OF s4]] show ?thesis .
qed

lemma reparent_table:
  "reparent ds i s = Some s' \<Longrightarrow> curproc s = Some c \<Longrightarrow> c \<noteq> i \<Longrightarrow> procs s c = Some cp \<Longrightarrow> p_children cp = ds \<Longrightarrow>
   procs s i = Some ip \<Longrightarrow> p_state ip = PROC_RUNNING \<Longrightarrow> table_ok {c} (proc_list s) (procs s) \<Longrightarrow>
   table_ok {c} (proc_list s') (procs s') \<and> (\<exists>p. procs s' c = Some p \<and> p_children p = []) \<and> curproc s' = curproc s \<and> next_pid s' = next_pid s"
proof (induction ds arbitrary: s cp ip)
  case (Cons d ds)
  let ?f = "\<lambda>a xs. if a = c then remove1 d xs else if a = i then xs @ [d] else xs" and ?g = "\<lambda>a q. if a = d then Some i else q"
  have d: "d \<in> set (p_children cp)" using Cons.prems(5) by simp
  then obtain dp where dp: "procs s d = Some dp" using table_okD(2) [OF Cons.prems(8,4)] by blast
  let ?T1 = "(procs s)(c \<mapsto> cp\<lparr>p_children := remove1 d (p_children cp)\<rparr>, i \<mapsto> ip\<lparr>p_children := p_children ip @ [d]\<rparr>)"
  define T where "T = ?T1(d \<mapsto> (the (?T1 d))\<lparr>p_pproc := Some i\<rparr>)"
  have r: "reparent ds i (s\<lparr>procs := T\<rparr>) = Some s'"
  proof -
    obtain dq where dq: "?T1 d = Some dq" using dp by (cases "d = c"; cases "d = i") auto
    then show ?thesis using Cons.prems(1-4,6) by (cases "d = i"; cases "d = c") (simp_all add: Let_def T_def)
  qed
  have T: "T = rewire ?f ?g (procs s)"
  proof
    fix x
    show "T x = rewire ?f ?g (procs s) x"
      unfolding T_def using Cons.prems(3,4,6) dp by (cases "procs s x") (auto simp: rewire_def)
  qed
  have ok: "table_ok {c} (proc_list s) T" unfolding T by (rule table_move [OF Cons.prems(8,4,3,6,7) d])
  have c': "T c = Some (cp\<lparr>p_children := ds, p_pproc := if c = d then Some i else p_pproc cp\<rparr>)"
    unfolding T using Cons.prems(4,5) by (simp add: rewire_def)
  have i': "T i = Some (ip\<lparr>p_children := p_children ip @ [d], p_pproc := if i = d then Some i else p_pproc ip\<rparr>)"
    unfolding T using Cons.prems(3,6) by (auto simp: rewire_def)
  from Cons.IH [OF r _ Cons.prems(3), of "cp\<lparr>p_children := ds, p_pproc := if c = d then Some i else p_pproc cp\<rparr>"
      "ip\<lparr>p_children := p_children ip @ [d], p_pproc := if i = d then Some i else p_pproc ip\<rparr>"] Cons.prems(2,7) ok c' i'
  show ?case by simp
qed auto

text \<open>
  A process may exit when it leaves no children, or leaves them to an init process that is another one and alive.
\<close>

definition may_exit :: "psys \<Rightarrow> bool" where
  "may_exit s \<longleftrightarrow> (\<forall>c cp. curproc s = Some c \<longrightarrow> procs s c = Some cp \<longrightarrow> p_children cp \<noteq> [] \<longrightarrow>
    (\<exists>i ip. proc_initproc s = Some i \<and> i \<noteq> c \<and> procs s i = Some ip \<and> p_state ip = PROC_RUNNING))"

definition keeps_procs :: "(nat \<Rightarrow> psys \<Rightarrow> psys option) \<Rightarrow> bool" where
  "keeps_procs vmmap_destroy \<longleftrightarrow> (\<forall>m s s'. vmmap_destroy m s = Some s' \<longrightarrow> same_procs s s')"

lemma same_procs_kin: "same_procs s s' \<Longrightarrow> procs s a = Some p \<Longrightarrow> \<exists>q. procs s' a = Some q \<and> kin q = kin p"
  using family_Some [of "procs s'" "procs s" a p] by (simp add: same_procs_def)

lemma cleanup_children:
  assumes "procs_ok s" and "curproc s = Some c" and "procs s c = Some cp" and "may_exit s"
    and "same_procs (put_proc c (cp\<lparr>p_state := PROC_DEAD, p_status := status\<rparr>) s) s3" and "curproc s3 = Some c"
    and "(if p_children cp \<noteq> [] then do { i \<leftarrow> proc_initproc s3; (if c \<noteq> i then reparent (p_children cp) i s3 else Some s3) } else Some s3) = Some s4"
  shows "procs_ok s4"
proof -
  let ?s1 = "put_proc c (cp\<lparr>p_state := PROC_DEAD, p_status := status\<rparr>) s"
  have "table_ok {c} (proc_list s) (procs ?s1)" using table_dies [of "proc_list s" "procs s" c cp status] assms(1,3) by (simp add: procs_ok_def)
  then have t3: "table_ok {c} (proc_list s3) (procs s3)" using assms(5) table_ok_family [of "{c}" "proc_list s" "procs ?s1" "procs s3"]
    by (simp add: same_procs_def)
  have n3: "0 \<le> next_pid s3" "next_pid s3 < PROC_MAX_COUNT" using assms(1,5) by (simp_all add: procs_ok_def same_procs_def)
  obtain cp3 where cp3: "procs s3 c = Some cp3" "p_children cp3 = p_children cp"
    using same_procs_kin [OF assms(5), of c "cp\<lparr>p_state := PROC_DEAD, p_status := status\<rparr>"] by (auto simp: kin_def)
  show ?thesis
  proof (cases "p_children cp = []")
    case True
    then have "s4 = s3" using assms(7) by simp
    moreover have "table_ok {} (proc_list s3) (procs s3)" using table_dead [OF t3] cp3 True by simp
    ultimately show ?thesis using n3 by (simp add: procs_ok_def)
  next
    case False
    then obtain i ip where i: "proc_initproc s = Some i" "i \<noteq> c" "procs s i = Some ip" "p_state ip = PROC_RUNNING"
      using assms(2-4) unfolding may_exit_def by blast
    then have "proc_initproc s3 = Some i" using assms(5) by (simp add: same_procs_def)
    then have r: "reparent (p_children cp) i s3 = Some s4" using assms(7) False i(2) by simp
    obtain ip3 where ip3: "procs s3 i = Some ip3" "p_state ip3 = PROC_RUNNING"
      using same_procs_kin [OF assms(5), of i ip] i(2-4) by (auto simp: kin_def)
    from reparent_table [OF r assms(6) i(2) [symmetric] cp3 ip3 t3] have
      "table_ok {c} (proc_list s4) (procs s4)" "\<exists>p. procs s4 c = Some p \<and> p_children p = []" "next_pid s4 = next_pid s3" by simp_all
    then show ?thesis using table_dead [of c "proc_list s4" "procs s4"] n3 by (auto simp: procs_ok_def)
  qed
qed

lemma proc_cleanup_ok:
  assumes "procs_ok s" and "may_exit s" and "keeps_procs vd" and "proc_cleanup vd status s = Some s'"
  shows "procs_ok s'"
proof -
  obtain c cp where c: "curproc s = Some c" "procs s c = Some cp"
    using assms(4) by (auto simp: proc_cleanup_def bind_eq_Some_conv)
  let ?s1 = "put_proc c (cp\<lparr>p_state := PROC_DEAD, p_status := status\<rparr>) s"
  from assms(4) obtain s2 s3 s4 s5 parent r where
    s2: "(case p_wd cp of None \<Rightarrow> Some ?s1 | Some v \<Rightarrow> do { fs \<leftarrow> vput v (vfs_state ?s1); Some (?s1\<lparr>vfs_state := fs\<rparr>) }) = Some s2" and
    s3: "close_files [0 ..< NFILES] c s2 = Some s3" and
    s4: "(if p_children cp \<noteq> [] then do { i \<leftarrow> proc_initproc s3; (if c \<noteq> i then reparent (p_children cp) i s3 else Some s3) } else Some s3) = Some s4" and
    s5: "sched_wakeup_on (P_wait parent) s4 = Some (r, s5)" and
    s6: "(case p_vmmap cp of None \<Rightarrow> Some s5 | Some m \<Rightarrow> vd m s5) = Some s'"
    by (auto simp: proc_cleanup_def c Let_def bind_eq_Some_conv simp del: upt_rec_numeral)
  have "same_procs ?s1 s2 \<and> curproc s2 = Some c" using s2 c(1) by (auto simp: bind_eq_Some_conv same_procs_def split: option.splits)
  with close_files_procs [OF s3] have s13: "same_procs ?s1 s3" "curproc s3 = Some c" by (auto intro: same_procs_trans)
  have "procs_ok s4" by (rule cleanup_children [OF assms(1) c assms(2) s13 s4])
  moreover have "same_procs s4 s5" using wakeup_procs [OF s5] by simp
  moreover have "same_procs s5 s'" using s6 assms(3) by (auto simp: keeps_procs_def split: option.splits)
  ultimately show ?thesis by (blast intro: procs_ok_same same_procs_trans)
qed

lemma kthread_exit_ok:
  assumes "procs_ok s" and "may_exit s" and "keeps_procs vd" and "kthread_exit (map irq_wakeup qs) vd status s = Some (Switched s')"
  shows "procs_ok s'"
proof -
  obtain T s1 where s1: "proc_cleanup vd status (s\<lparr>threads := T\<rparr>) = Some s1" "sched_switch (map irq_wakeup qs) s1 = Some (Switched s')"
    using assms(4) by (auto simp: kthread_exit_def proc_thread_exited_def bind_eq_Some_conv)
  have "procs_ok (s\<lparr>threads := T\<rparr>)" "may_exit (s\<lparr>threads := T\<rparr>)" using assms(1,2) by (simp_all add: procs_ok_def may_exit_def)
  from proc_cleanup_ok [OF this assms(3) s1(1)] switch_procs [OF s1(2)] show ?thesis by (blast intro: procs_ok_same)
qed

lemma destroy_threads_same: "destroy_threads ts s = Some s' \<Longrightarrow> same_procs s s' \<and> curproc s' = curproc s"
proof (induction ts s rule: destroy_threads.induct)
  case (2 t ts s)
  from "2.prems" obtain th pr where th: "threads s t = Some th" "kt_state th = KT_EXITED" "procs s (kt_proc th) = Some pr"
      "destroy_threads ts (put_proc (kt_proc th) (pr\<lparr>p_threads := remove1 t (p_threads pr)\<rparr>) (s\<lparr>threads := (threads s)(t := None)\<rparr>)) = Some s'"
    by (auto simp: kthread_destroy_def bind_eq_Some_conv)
  let ?s1 = "put_proc (kt_proc th) (pr\<lparr>p_threads := remove1 t (p_threads pr)\<rparr>) (s\<lparr>threads := (threads s)(t := None)\<rparr>)"
  have "kthread_destroy t s = Some ?s1" by (simp add: kthread_destroy_def th)
  then have "same_procs ?s1 s' \<and> curproc s' = curproc s" using "2.IH" [OF th(1), of "()" ?s1] th(2,4) by simp
  moreover have "same_procs s ?s1" using th(3) by (simp add: same_procs_def family_upd kin_def)
  ultimately show ?case by (blast intro: same_procs_trans)
qed simp

lemma reap_ok:
  assumes "procs_ok s" and "curproc s = Some c" and "procs s c = Some cp" and "c \<noteq> d" and "d \<in> set (p_children cp)"
    and "procs s d = Some dp" and "p_state dp = PROC_DEAD" and "reap d s = Some s'"
  shows "procs_ok s'"
proof -
  let ?s0 = "s\<lparr>proc_list := remove1 d (proc_list s)\<rparr>"
  from assms(2,6,8) obtain s1 cp1 where s1: "destroy_threads (p_threads dp) ?s0 = Some s1" "procs s1 c = Some cp1"
      "s' = s1\<lparr>procs := (procs s1)(c \<mapsto> cp1\<lparr>p_children := remove1 d (p_children cp1)\<rparr>, d := None)\<rparr>"
    by (auto simp: reap_def bind_eq_Some_conv)
  have same: "family (procs s1) = family (procs s)" "proc_list s1 = remove1 d (proc_list s)" "next_pid s1 = next_pid s"
    using destroy_threads_same [OF s1(1)] by (simp_all add: same_procs_def)
  have t: "table_ok {} (proc_list s) (procs s1)"
    using assms(1) table_ok_family [of "{}" "proc_list s" "procs s" "procs s1"] same(1) by (simp add: procs_ok_def)
  obtain dp1 where dp1: "procs s1 d = Some dp1" "kin dp1 = kin dp" using family_Some [OF same(1) assms(6)] by blast
  have cp1: "kin cp1 = kin cp" using family_Some [OF same(1) assms(3)] s1(2) by auto
  have "p_children dp1 = []" using table_okD(5) [OF t dp1(1)] dp1(2) assms(7) by (simp add: kin_def)
  moreover have "d \<in> set (p_children cp1)" using cp1 assms(5) by (simp add: kin_def)
  ultimately have "table_ok {} (remove1 d (proc_list s)) ((procs s1)(c \<mapsto> cp1\<lparr>p_children := remove1 d (p_children cp1)\<rparr>, d := None))"
    using table_reap [OF t s1(2) assms(4) _ dp1(1)] by simp
  then show ?thesis using assms(1) same(2,3) by (simp add: procs_ok_def s1(3))
qed

lemma dead_child_Some: "dead_child ds s = Some (Some d) \<Longrightarrow> d \<in> set ds \<and> (\<exists>p. procs s d = Some p \<and> p_state p = PROC_DEAD)"
  by (induction ds) (auto simp: bind_eq_Some_conv split: if_splits)

lemma child_with_pid_Some: "child_with_pid pid ds s = Some (Some d) \<Longrightarrow> d \<in> set ds"
  by (induction ds) (auto simp: bind_eq_Some_conv split: if_splits)

lemma cur_alive_child:
  assumes "cur_alive s" and "curproc s = Some c" and "procs s d = Some p" and "p_state p = PROC_DEAD"
  shows "c \<noteq> d"
  using assms by (auto simp: cur_alive_def)

lemma wait_child_ok:
  assumes "procs_ok s" and "cur_alive s" and "curproc s = Some c" and "procs s c = Some cp" and "d \<in> set (p_children cp)"
  shows "wait_child irqs d s = Some (Wait_ret r status s') \<Longrightarrow> procs_ok s'"
    and "wait_child (map irq_wakeup qs) d s = Some (Wait_slept (Switched s')) \<Longrightarrow> procs_ok s'"
  using reap_ok [OF assms(1,3,4) _ assms(5)] cur_alive_child [OF assms(2,3)] procs_ok_same [OF assms(1)] sleep_procs
  by (auto simp: wait_child_def assms(3) bind_eq_Some_conv split: if_splits)

lemma wait_any_ok:
  assumes "procs_ok s" and "cur_alive s"
  shows "wait_any irqs s = Some (Wait_ret r status s') \<Longrightarrow> procs_ok s'"
    and "wait_any (map irq_wakeup qs) s = Some (Wait_slept (Switched s')) \<Longrightarrow> procs_ok s'"
proof -
  assume "wait_any irqs s = Some (Wait_ret r status s')"
  then obtain c cp where c: "curproc s = Some c" "procs s c = Some cp"
    "s' = s \<or> (\<exists>d. dead_child (p_children cp) s = Some (Some d) \<and> reap d s = Some s')"
    by (auto simp: wait_any_def bind_eq_Some_conv split: if_splits option.splits)
  then show "procs_ok s'"
  proof (elim disjE exE conjE)
    fix d assume d: "dead_child (p_children cp) s = Some (Some d)" "reap d s = Some s'"
    from dead_child_Some [OF d(1)] obtain p where p: "d \<in> set (p_children cp)" "procs s d = Some p" "p_state p = PROC_DEAD" by blast
    show ?thesis by (rule reap_ok [OF assms(1) c(1,2) cur_alive_child [OF assms(2) c(1) p(2,3)] p d(2)])
  qed (simp add: assms(1))
next
  assume "wait_any (map irq_wakeup qs) s = Some (Wait_slept (Switched s'))"
  then obtain c where "sched_sleep_on (map irq_wakeup qs) (P_wait c) s = Some (Switched s')"
    by (auto simp: wait_any_def bind_eq_Some_conv split: if_splits option.splits)
  from sleep_procs [OF this] show "procs_ok s'" using procs_ok_same [OF assms(1)] by blast
qed

lemma do_waitpid_ok:
  assumes "procs_ok s" and "cur_alive s"
  shows "do_waitpid irqs pid op s = Some (Wait_ret r status s') \<Longrightarrow> procs_ok s'"
    and "do_waitpid (map irq_wakeup qs) pid op s = Some (Wait_slept (Switched s')) \<Longrightarrow> procs_ok s'"
  using assms(1)
  by (auto simp: do_waitpid_def bind_eq_Some_conv dest: child_with_pid_Some
      intro: wait_any_ok [OF assms] wait_child_ok [OF assms] split: if_splits option.splits)

section \<open>Properties\<close>

text \<open>
  Steps on the process table: creating a process at a free address, the exit of the current thread, waiting for
  children (the call, and what a call that slept does when its thread runs again), and anything else, which leaves the
  table alone.  The current process is alive: the scheduler runs no thread of a dead one.
\<close>

inductive proc_step :: "psys \<Rightarrow> psys \<Rightarrow> bool" where
  step_create: "cur_alive s \<Longrightarrow> procs s a = None \<Longrightarrow> proc_create (Some a) pd mp name s = Some (b, s') \<Longrightarrow> proc_step s s'"
| step_exit: "may_exit s \<Longrightarrow> keeps_procs vd \<Longrightarrow> kthread_exit (map irq_wakeup qs) vd status s = Some (Switched s') \<Longrightarrow> proc_step s s'"
| step_wait: "cur_alive s \<Longrightarrow> do_waitpid irqs pid op s = Some (Wait_ret r status s') \<Longrightarrow> proc_step s s'"
| step_sleep: "cur_alive s \<Longrightarrow> do_waitpid (map irq_wakeup qs) pid op s = Some (Wait_slept (Switched s')) \<Longrightarrow> proc_step s s'"
| step_resume: "cur_alive s \<Longrightarrow> wait_any irqs s = Some (Wait_ret r status s') \<Longrightarrow> proc_step s s'"
| step_resume_child: "cur_alive s \<Longrightarrow> curproc s = Some c \<Longrightarrow> procs s c = Some cp \<Longrightarrow> d \<in> set (p_children cp) \<Longrightarrow>
    wait_child irqs d s = Some (Wait_ret r status s') \<Longrightarrow> proc_step s s'"
| step_other: "same_procs s s' \<Longrightarrow> proc_step s s'"

lemma proc_step_ok: "proc_step s s' \<Longrightarrow> procs_ok s \<Longrightarrow> procs_ok s'"
  by (induction rule: proc_step.induct) (blast intro: proc_create_ok kthread_exit_ok do_waitpid_ok wait_any_ok wait_child_ok procs_ok_same)+

text \<open>
  C40: parents and children agree in every run of creating, exiting and waiting in which a process that exits with children
  leaves them to a living init process (proc\_kill, which marks a process dead and leaves its children where they are, is
  not among the steps): a process is on the list of children of exactly the process its parent pointer names, that process
  exists, dead processes have no children, no two processes share a pid, and the list of all processes holds each of them once.
\<close>

theorem process_table_consistent:
  assumes "procs s0 = Map.empty" and "proc_list s0 = []" and "next_pid s0 = 0" and "proc_step\<^sup>*\<^sup>* s0 s"
  shows "distinct (proc_list s) \<and> set (proc_list s) = dom (procs s) \<and>
    (\<forall>a p. procs s a = Some p \<longrightarrow>
       (\<forall>b. b \<in> set (p_children p) \<longleftrightarrow> (\<exists>q. procs s b = Some q \<and> p_pproc q = Some a)) \<and>
       (\<forall>b. p_pproc p = Some b \<longrightarrow> procs s b \<noteq> None) \<and>
       (p_state p = PROC_DEAD \<longrightarrow> p_children p = []) \<and>
       (\<forall>b q. procs s b = Some q \<longrightarrow> p_pid q = p_pid p \<longrightarrow> 0 \<le> p_pid p \<longrightarrow> b = a))"
proof -
  have "procs_ok s0" using assms(1-3) by (simp add: procs_ok_def table_ok_def)
  with assms(4) have "procs_ok s" by (induction rule: rtranclp_induct) (auto intro: proc_step_ok)
  then have t: "table_ok {} (proc_list s) (procs s)" by (simp add: procs_ok_def)
  then have "distinct (proc_list s)" "set (proc_list s) = dom (procs s)" by (simp_all add: table_ok_def)
  with table_okD [OF t] show ?thesis by auto
qed

text \<open>The first two processes.\<close>

lemma getid_loop_now: "0 < n \<Longrightarrow> pid \<notin> set pids \<Longrightarrow> getid_loop n pids nxt pid = Some pid"
  by (cases n) simp_all

definition comm0 :: "byte list" where
  "comm0 = [105] @ 0 # drop 2 (replicate PROC_NAME_LEN 0)"

lemma comm0: "comm_of [105, 0] = Some comm0"
proof -
  have "holds [105, 0] [105]" by (simp add: holds_def)
  from strlen_holds [OF this] strcpy_holds [OF this, of "replicate PROC_NAME_LEN 0"] show ?thesis by (simp add: comm_of_def comm0_def)
qed

definition proc0 :: "int \<Rightarrow> nat option \<Rightarrow> nat list \<Rightarrow> proc" where
  "proc0 pid parent children = \<lparr>p_pid = pid, p_comm = comm0, p_threads = [], p_children = children, p_pproc = parent, p_status = 0,
     p_state = PROC_RUNNING, p_pagedir = Some 1, p_ftab = replicate NFILES None, p_wd = None, p_vmmap = None\<rparr>"

lemma proc_create_idle:
  "\<exists>s. proc_create (Some 7) (Some 1) None [105, 0] psys0 = Some (7, s) \<and> procs s = [7 \<mapsto> proc0 0 None []] \<and> proc_list s = [7] \<and> next_pid s = 1"
  by (simp add: proc_create_def proc_getid_def pids_in_use_def psys0_def getid_loop_now comm0 link_proc_def inherit_cwd_def sched_queue_init_def
      proc0_def Let_def)

lemma proc_create_init:
  assumes "procs s = [7 \<mapsto> proc0 0 None []]" and "proc_list s = [7]" and "next_pid s = 1" and "curproc s = Some 7"
  shows "\<exists>s'. proc_create (Some 8) (Some 1) None [105, 0] s = Some (8, s') \<and> procs s' = [7 \<mapsto> proc0 0 None [8], 8 \<mapsto> proc0 1 (Some 7) []]"
  using assms
  by (auto simp: proc_create_def proc_getid_def pids_in_use_def getid_loop_now comm0 link_proc_def inherit_cwd_def sched_queue_init_def
      proc0_def Let_def fun_eq_iff)

theorem process_table_consistent_witness:
  "\<exists>s. proc_step\<^sup>*\<^sup>* psys0 s \<and> procs s = [7 \<mapsto> proc0 0 None [8], 8 \<mapsto> proc0 1 (Some 7) []] \<and> set (proc_list s) = {7, 8}"
proof -
  obtain s1 where s1: "proc_create (Some 7) (Some 1) None [105, 0] psys0 = Some (7, s1)" "procs s1 = [7 \<mapsto> proc0 0 None []]"
      "proc_list s1 = [7]" "next_pid s1 = 1" using proc_create_idle by blast
  define s2 where "s2 = s1\<lparr>curproc := Some 7\<rparr>"
  have q: "procs s2 = [7 \<mapsto> proc0 0 None []]" "proc_list s2 = [7]" "next_pid s2 = 1" "curproc s2 = Some 7" using s1 by (simp_all add: s2_def)
  from proc_create_init [OF this] obtain s3 where s3: "proc_create (Some 8) (Some 1) None [105, 0] s2 = Some (8, s3)"
      "procs s3 = [7 \<mapsto> proc0 0 None [8], 8 \<mapsto> proc0 1 (Some 7) []]" by blast
  have "proc_step psys0 s1" by (rule step_create [OF _ _ s1(1)]) (simp_all add: cur_alive_def psys0_def)
  moreover have "proc_step s1 s2" by (rule step_other) (simp add: same_procs_def s2_def)
  moreover have "proc_step s2 s3" by (rule step_create [OF _ _ s3(1)]) (simp_all add: cur_alive_def q proc0_def)
  ultimately have "proc_step\<^sup>*\<^sup>* psys0 s3" by (meson r_into_rtranclp rtranclp_trans)
  moreover from process_table_consistent [OF _ _ _ this] s3(2) have "set (proc_list s3) = {7, 8}" by (auto simp: psys0_def)
  ultimately show ?thesis using s3(2) by blast
qed

section \<open>Waiting\<close>

text \<open>A dead child whose threads have exited.\<close>

definition zombie :: "nat \<Rightarrow> proc \<Rightarrow> psys \<Rightarrow> bool" where
  "zombie d p s \<longleftrightarrow> procs s d = Some p \<and> p_state p = PROC_DEAD \<and> p_pagedir p \<noteq> None \<and> distinct (p_threads p) \<and>
    (\<forall>t \<in> set (p_threads p). \<exists>th. threads s t = Some th \<and> kt_state th = KT_EXITED \<and> kt_proc th = d)"

lemma destroy_all:
  "procs s d = Some p \<Longrightarrow> distinct ts \<Longrightarrow> \<forall>t \<in> set ts. \<exists>th. threads s t = Some th \<and> kt_state th = KT_EXITED \<and> kt_proc th = d \<Longrightarrow>
   \<exists>s' p'. destroy_threads ts s = Some s' \<and> procs s' = (procs s)(d \<mapsto> p') \<and> proc_list s' = proc_list s \<and>
     curproc s' = curproc s \<and> threads s' = (\<lambda>t. if t \<in> set ts then None else threads s t)"
proof (induction ts arbitrary: s p)
  case Nil
  then show ?case by (auto simp: fun_upd_idem intro!: exI [of _ p])
next
  case (Cons t ts)
  obtain th where th: "threads s t = Some th" "kt_state th = KT_EXITED" "kt_proc th = d" using Cons.prems(3) by auto
  let ?s1 = "put_proc d (p\<lparr>p_threads := remove1 t (p_threads p)\<rparr>) (s\<lparr>threads := (threads s)(t := None)\<rparr>)"
  have d: "kthread_destroy t s = Some ?s1" using th Cons.prems(1) by (simp add: kthread_destroy_def)
  have u: "\<forall>u \<in> set ts. \<exists>th. threads ?s1 u = Some th \<and> kt_state th = KT_EXITED \<and> kt_proc th = d" using Cons.prems(2,3) by auto
  have "procs ?s1 d = Some (p\<lparr>p_threads := remove1 t (p_threads p)\<rparr>)" "distinct ts" using Cons.prems(2) by simp_all
  from Cons.IH [OF this u] obtain s' p' where s': "destroy_threads ts ?s1 = Some s'" "procs s' = (procs ?s1)(d \<mapsto> p')"
      "proc_list s' = proc_list ?s1" "curproc s' = curproc ?s1" "threads s' = (\<lambda>u. if u \<in> set ts then None else threads ?s1 u)"
    by blast
  have "threads s' = (\<lambda>u. if u \<in> set (t # ts) then None else threads s u)" by (simp add: s'(5) fun_eq_iff)
  moreover have "destroy_threads (t # ts) s = Some s'" using th d s'(1) by simp
  ultimately show ?case using s'(2-4) by (intro exI [of _ s'] exI [of _ p']) simp
qed

lemma reap_zombie:
  assumes "zombie d p s" and "curproc s = Some c" and "procs s c = Some cp" and "c \<noteq> d" and "p_children cp = xs @ d # ys" and "d \<notin> set xs"
  shows "\<exists>s'. reap d s = Some s' \<and> procs s' = (procs s)(c \<mapsto> cp\<lparr>p_children := xs @ ys\<rparr>, d := None) \<and>
    proc_list s' = remove1 d (proc_list s) \<and> threads s' = (\<lambda>t. if t \<in> set (p_threads p) then None else threads s t)"
proof -
  let ?s0 = "s\<lparr>proc_list := remove1 d (proc_list s)\<rparr>"
  have "procs ?s0 d = Some p" "distinct (p_threads p)"
      "\<forall>t \<in> set (p_threads p). \<exists>th. threads ?s0 t = Some th \<and> kt_state th = KT_EXITED \<and> kt_proc th = d"
    using assms(1) by (auto simp: zombie_def)
  from destroy_all [OF this] obtain s1 p1 where r: "destroy_threads (p_threads p) ?s0 = Some s1" "procs s1 = (procs ?s0)(d \<mapsto> p1)"
      "proc_list s1 = proc_list ?s0" "curproc s1 = curproc ?s0" "threads s1 = (\<lambda>t. if t \<in> set (p_threads p) then None else threads ?s0 t)" by blast
  then have s1: "destroy_threads (p_threads p) ?s0 = Some s1" "procs s1 = (procs s)(d \<mapsto> p1)" "proc_list s1 = remove1 d (proc_list s)"
      "curproc s1 = curproc s" "threads s1 = (\<lambda>t. if t \<in> set (p_threads p) then None else threads s t)" by (simp_all add: fun_eq_iff)
  have "remove1 d (p_children cp) = xs @ ys" using assms(5,6) by (simp add: remove1_append)
  with s1 assms(1-4) show ?thesis
    by (auto simp: reap_def zombie_def fun_eq_iff)
qed

lemma dead_child_first:
  "\<forall>x \<in> set xs. \<exists>q. procs s x = Some q \<and> p_state q = PROC_RUNNING \<Longrightarrow> procs s d = Some p \<Longrightarrow> p_state p = PROC_DEAD \<Longrightarrow>
   dead_child (xs @ d # ys) s = Some (Some d)"
  by (induction xs) auto

lemma child_with_pid_first:
  "\<forall>x \<in> set xs. \<exists>q. procs s x = Some q \<and> p_pid q \<noteq> pid \<Longrightarrow> procs s d = Some p \<Longrightarrow> p_pid p = pid \<Longrightarrow>
   child_with_pid pid (xs @ d # ys) s = Some (Some d)"
  by (induction xs) auto

lemma others_running:
  assumes "procs_ok s" and "procs s c = Some cp" and "p_children cp = xs @ d # ys" and "procs s d = Some p" and "0 < p_pid p"
  shows "d \<notin> set xs" and "\<forall>x \<in> set xs. \<exists>q. procs s x = Some q \<and> p_pid q \<noteq> p_pid p"
proof -
  have t: "table_ok {} (proc_list s) (procs s)" using assms(1) by (simp add: procs_ok_def)
  from table_okD(1) [OF t assms(2)] assms(3) show d: "d \<notin> set xs" by simp
  show "\<forall>x \<in> set xs. \<exists>q. procs s x = Some q \<and> p_pid q \<noteq> p_pid p"
  proof
    fix x assume x: "x \<in> set xs"
    then obtain q where q: "procs s x = Some q" using table_okD(2) [OF t assms(2), of x] assms(3) by auto
    moreover have "p_pid q \<noteq> p_pid p" using table_okD(4) [OF t assms(4) q] assms(5) x d by auto
    ultimately show "\<exists>q. procs s x = Some q \<and> p_pid q \<noteq> p_pid p" by blast
  qed
qed


definition psys1 :: psys where
  "psys1 = psys0\<lparr>procs := [7 \<mapsto> (proc0 1 None [8, 9]), 8 \<mapsto> proc0 2 (Some 7) [], 9 \<mapsto> (proc0 3 (Some 7) [])\<lparr>p_state := PROC_DEAD, p_status := 5, p_threads := [4]\<rparr>],
     proc_list := [7, 8, 9], curproc := Some 7,
     threads := [4 \<mapsto> \<lparr>kt_retval = 5, kt_proc = 9, kt_cancelled = 0, kt_wchan = None, kt_state = KT_EXITED\<rparr>]\<rparr>"


end
