(* ===== verification/Page.thy ===== *)
theory Page
  imports Kprelude
begin

text \<open>
  The page allocator, mm/page.c: a buddy allocator over groups of pages.  Each group has one
  free list per block order (blocks of \<open>2^order\<close> pages, orders 0 to 7) and, for every order
  above 0, a bit map with one bit per block that is flipped whenever one of the block's two
  halves enters or leaves its free list.

  Free lists are sequences of block addresses, first element first (the list macros are
  verified in Klist); addresses are byte addresses.  A page that is on no free list holds
  data, so unlinking it follows whatever it holds: that is \<^term>\<open>None\<close>.  The call
  \<open>slab_allocators_reclaim\<close> of \<open>_page_split\<close> is an argument of the operations that reach it.
\<close>

section \<open>Groups\<close>

abbreviation (input) PAGE_SHIFT :: nat where "PAGE_SHIFT \<equiv> 12"
abbreviation (input) PAGE_SIZE :: nat where "PAGE_SIZE \<equiv> 4096"
abbreviation (input) PAGE_NSIZES :: nat where "PAGE_NSIZES \<equiv> 8"

record pagegroup =
  pg_freelist :: "nat \<Rightarrow> nat list"
  pg_map :: "nat \<Rightarrow> nat \<Rightarrow> bool"
  pg_baseaddr :: nat
  pg_endaddr :: nat

record pages =
  pagegroup_list :: "pagegroup list"
  page_freecount :: nat

definition PAGE_ALIGN_DOWN :: "nat \<Rightarrow> nat" where
  "PAGE_ALIGN_DOWN x = x div PAGE_SIZE * PAGE_SIZE"

text \<open>The bytes \<open>_pagegroup_create\<close> reserves for a bit map of \<open>count\<close> bits, at width 32.\<close>

definition map_bytes :: "nat \<Rightarrow> nat" where
  "map_bytes count = ((((count + 2 ^ 32 - 1) mod 2 ^ 32) div 8 * 8 + 8) mod 2 ^ 32) div 8"

fun map_space :: "nat \<Rightarrow> nat list \<Rightarrow> nat" where
  "map_space npages [] = 0"
| "map_space npages (order # orders) = map_bytes (npages div 2 ^ order) + map_space npages orders"

text \<open>The pages that do not fill blocks of the largest order, one block per set bit of \<open>npages\<close>.\<close>

fun small_blocks :: "nat \<Rightarrow> nat \<Rightarrow> nat list \<Rightarrow> nat \<times> (nat \<Rightarrow> nat list)" where
  "small_blocks npages stop [] = (stop, \<lambda>_. [])"
| "small_blocks npages stop (order # orders) =
    (if odd (npages div 2 ^ order) then
       let stop' = usub stop (2 ^ order * PAGE_SIZE); (e, fl) = small_blocks npages stop' orders
       in (e, fl(order := [stop']))
     else let (e, fl) = small_blocks npages stop orders in (e, fl(order := [])))"

function large_blocks :: "nat \<Rightarrow> nat \<Rightarrow> nat list \<Rightarrow> nat list" where
  "large_blocks current stop fl =
    (if current < stop then large_blocks (current + 2 ^ 7 * PAGE_SIZE) stop (current # fl) else fl)"
  by auto
termination by (relation "measure (\<lambda>(current, stop, fl). stop - current)") auto

declare large_blocks.simps [simp del]

definition pagegroup_create :: "nat \<Rightarrow> nat \<Rightarrow> pagegroup option" where
  "pagegroup_create start stop = (
     let npages = usub stop start div PAGE_SIZE;
         stop1 = PAGE_ALIGN_DOWN (usub (usub stop 112) (map_space npages [1, 2, 3, 4, 5, 6, 7]));
         npages1 = usub stop1 start div PAGE_SIZE;
         (stop2, fl) = small_blocks npages1 stop1 [0, 1, 2, 3, 4, 5, 6]
     in do {
       kassert (usub stop2 start mod 2 ^ 7 = 0);
       Some \<lparr>pg_freelist = fl(7 := large_blocks start stop2 []), pg_map = (\<lambda>_ _. False),
             pg_baseaddr = start, pg_endaddr = stop1\<rparr>
     })"

definition page_init :: pages where
  "page_init = \<lparr>pagegroup_list = [], page_freecount = 0\<rparr>"

definition page_add_range :: "nat \<Rightarrow> nat \<Rightarrow> pages \<Rightarrow> pages option" where
  "page_add_range start stop s = do {
     g \<leftarrow> pagegroup_create (PAGE_ALIGN_DOWN start) (PAGE_ALIGN_DOWN stop);
     Some (if pg_baseaddr g < pg_endaddr g
           then s\<lparr>pagegroup_list := pagegroup_list s @ [g],
                  page_freecount :=
                    (page_freecount s + (pg_endaddr g - pg_baseaddr g) div PAGE_SIZE) mod 2 ^ 32\<rparr>
           else s)
   }"

definition pagegroup_from_address :: "nat \<Rightarrow> pages \<Rightarrow> nat option" where
  "pagegroup_from_address addr s =
     (let gs = pagegroup_list s in
      List.find (\<lambda>k. pg_baseaddr (gs ! k) \<le> addr \<and> addr < pg_endaddr (gs ! k)) [0 ..< length gs])"

definition pagegroup_calculate_index :: "pagegroup \<Rightarrow> nat \<Rightarrow> nat \<Rightarrow> nat option" where
  "pagegroup_calculate_index g order addr = do {
     kassert (addr mod PAGE_SIZE = 0);
     kassert (order < PAGE_NSIZES);
     kassert (pg_baseaddr g \<le> addr \<and> addr < pg_endaddr g);
     let offset = addr - pg_baseaddr g;
     kassert (offset mod 2 ^ order = 0);
     Some (offset div 2 ^ order div PAGE_SIZE)
   }"

definition bit_flip :: "nat \<Rightarrow> nat \<Rightarrow> pagegroup \<Rightarrow> pagegroup" where
  "bit_flip order index g =
     g\<lparr>pg_map := (pg_map g)(order := (pg_map g order)(index := \<not> pg_map g order index))\<rparr>"

section \<open>Free lists\<close>

definition fp_insert_head :: "nat \<Rightarrow> nat \<Rightarrow> pagegroup \<Rightarrow> pagegroup" where
  "fp_insert_head order addr g =
     g\<lparr>pg_freelist := (pg_freelist g)(order := addr # pg_freelist g order)\<rparr>"

definition fp_remove_head :: "nat \<Rightarrow> pagegroup \<Rightarrow> (nat \<times> pagegroup) option" where
  "fp_remove_head order g =
     (case pg_freelist g order of
        [] \<Rightarrow> None
      | addr # rest \<Rightarrow> Some (addr, g\<lparr>pg_freelist := (pg_freelist g)(order := rest)\<rparr>))"

text \<open>Unlinking a page removes it from whichever free list of the g it is on.\<close>

definition fp_remove :: "nat \<Rightarrow> pagegroup \<Rightarrow> pagegroup option" where
  "fp_remove addr g = do {
     order \<leftarrow> List.find (\<lambda>k. addr \<in> set (pg_freelist g k)) [0 ..< PAGE_NSIZES];
     Some (g\<lparr>pg_freelist := (pg_freelist g)(order := remove1 addr (pg_freelist g order))\<rparr>)
   }"


section \<open>Splitting and joining\<close>

text \<open>
  Wherever a block enters or leaves its free list the code flips the bit of the block one order up
  that contains it, unless the order is the largest.
\<close>

definition flip_parent :: "nat \<Rightarrow> nat \<Rightarrow> pagegroup \<Rightarrow> pagegroup option" where
  "flip_parent order addr g =
    (if order < PAGE_NSIZES - 1 then do {
       index \<leftarrow> pagegroup_calculate_index g (order + 1) addr;
       Some (bit_flip (order + 1) index g)
     } else Some g)"

definition page_split1 :: "nat \<Rightarrow> pagegroup \<Rightarrow> pagegroup option" where
  "page_split1 order g = do {
     kassert (0 < order);
     kassert (order < PAGE_NSIZES);
     kassert (pg_freelist g order \<noteq> []);
     (target, g1) \<leftarrow> fp_remove_head order g;
     g2 \<leftarrow> flip_parent order target g1;
     index \<leftarrow> pagegroup_calculate_index g2 order target;
     kassert (\<not> pg_map g2 order index);
     let buddy = target + 2 ^ (order - 1) * PAGE_SIZE;
     Some (fp_insert_head (order - 1) buddy (fp_insert_head (order - 1) target g2))
   }"

text \<open>The inner loop of \<open>_page_split\<close>: split from \<open>norder\<close> down to \<open>order\<close>.\<close>

function split_down :: "nat \<Rightarrow> nat \<Rightarrow> pagegroup \<Rightarrow> pagegroup option" where
  "split_down norder order g =
    (if order < norder then do { g' \<leftarrow> page_split1 norder g; split_down (norder - 1) order g' }
     else Some g)"
  by auto
termination by (relation "measure (\<lambda>(norder, order, g). norder)") auto

declare split_down.simps [simp del]

definition find_group :: "nat \<Rightarrow> pages \<Rightarrow> nat option" where
  "find_group order s =
     (let gs = pagegroup_list s in List.find (\<lambda>k. pg_freelist (gs ! k) order \<noteq> []) [0 ..< length gs])"

text \<open>
  \<open>_page_split\<close>: the first group with a free block of the smallest sufficient larger order.
  With the shadow daemon off there is one round only, so what \<open>slab_allocators_reclaim\<close> frees is not
  looked at.
\<close>

fun page_split_orders :: "nat list \<Rightarrow> nat \<Rightarrow> pages \<Rightarrow> (nat option \<times> pages) option" where
  "page_split_orders [] order s = Some (None, s)"
| "page_split_orders (norder # norders) order s =
    (case find_group norder s of
       None \<Rightarrow> page_split_orders norders order s
     | Some k \<Rightarrow> do {
         g \<leftarrow> split_down norder order (pagegroup_list s ! k);
         kassert (pg_freelist g order \<noteq> []);
         Some (Some k, s\<lparr>pagegroup_list := (pagegroup_list s)[k := g]\<rparr>)
       })"

definition page_split :: "(pages \<Rightarrow> pages option) \<Rightarrow> nat \<Rightarrow> pages \<Rightarrow> (nat option \<times> pages) option" where
  "page_split reclaim order s = do {
     (r, s1) \<leftarrow> page_split_orders [order + 1 ..< PAGE_NSIZES] order s;
     (case r of
        Some k \<Rightarrow> Some (Some k, s1)
      | None \<Rightarrow> do { s2 \<leftarrow> reclaim s1; Some (None, s2) })
   }"

text \<open>The tail of \<open>_page_alloc_order\<close>, label \<open>found\<close>.\<close>

definition page_take :: "nat \<Rightarrow> nat \<Rightarrow> pages \<Rightarrow> (nat option \<times> pages) option" where
  "page_take order k s = do {
     (addr, g1) \<leftarrow> fp_remove_head order (pagegroup_list s ! k);
     g2 \<leftarrow> flip_parent order addr g1;
     Some (Some addr, s\<lparr>pagegroup_list := (pagegroup_list s)[k := g2],
             page_freecount := (page_freecount s + 2 ^ 32 - 2 ^ order) mod 2 ^ 32\<rparr>)
   }"

definition page_alloc_order :: "(pages \<Rightarrow> pages option) \<Rightarrow> nat \<Rightarrow> pages \<Rightarrow> (nat option \<times> pages) option" where
  "page_alloc_order reclaim order s =
    (case find_group order s of
       Some k \<Rightarrow> page_take order k s
     | None \<Rightarrow> do {
         (r, s1) \<leftarrow> page_split reclaim order s;
         (case r of
            None \<Rightarrow> Some (None, s1)
          | Some k \<Rightarrow> do {
              kassert (pg_freelist (pagegroup_list s1 ! k) order \<noteq> []);
              page_take order k s1
            })
       })"

definition buddy_of :: "pagegroup \<Rightarrow> nat \<Rightarrow> nat \<Rightarrow> nat" where
  "buddy_of g order addr =
     (if odd ((addr - pg_baseaddr g) div PAGE_SIZE div 2 ^ order)
      then addr - 2 ^ order * PAGE_SIZE else addr + 2 ^ order * PAGE_SIZE)"

function page_join :: "nat \<Rightarrow> nat \<Rightarrow> pagegroup \<Rightarrow> pagegroup option" where
  "page_join order addr g =
    (if order < PAGE_NSIZES - 1 then do {
       index \<leftarrow> pagegroup_calculate_index g (order + 1) addr;
       (if pg_map g (order + 1) index then Some g
        else do {
          let buddy = buddy_of g order addr;
          kassert ((addr - pg_baseaddr g) mod 2 ^ order = 0);
          g1 \<leftarrow> fp_remove addr g;
          g2 \<leftarrow> fp_remove buddy g1;
          let addr' = min addr buddy;
          g3 \<leftarrow> flip_parent (order + 1) addr' (fp_insert_head (order + 1) addr' g2);
          page_join (order + 1) addr' g3
        })
     } else Some g)"
  by auto
termination by (relation "measure (\<lambda>(order, addr, g). 8 - order)") auto

declare page_join.simps [simp del]

definition page_free_order :: "nat \<Rightarrow> nat \<Rightarrow> pages \<Rightarrow> pages option" where
  "page_free_order addr order s =
    (case pagegroup_from_address addr s of
       None \<Rightarrow> Some s
     | Some k \<Rightarrow> do {
         g1 \<leftarrow> flip_parent order addr (fp_insert_head order addr (pagegroup_list s ! k));
         g2 \<leftarrow> (if order < PAGE_NSIZES - 1 then page_join order addr g1 else Some g1);
         Some (s\<lparr>pagegroup_list := (pagegroup_list s)[k := g2],
                 page_freecount := (page_freecount s + 2 ^ order) mod 2 ^ 32\<rparr>)
       })"

section \<open>The interface\<close>

definition page_alloc :: "(pages \<Rightarrow> pages option) \<Rightarrow> pages \<Rightarrow> (nat option \<times> pages) option" where
  "page_alloc reclaim s = page_alloc_order reclaim 0 s"

definition page_free :: "nat \<Rightarrow> pages \<Rightarrow> pages option" where
  "page_free addr s = page_free_order addr 0 s"

text \<open>
  The order for \<open>npages\<close> pages; the comparison is made on \<open>npages\<close> as a signed integer,
  and there is no order for more than 128 pages (the code panics).
\<close>

definition order_for :: "nat \<Rightarrow> nat option" where
  "order_for npages =
     (let n = (if npages < 2 ^ 31 then int npages else int npages - 2 ^ 32)
      in List.find (\<lambda>order. 2 ^ order \<ge> n) [0 ..< PAGE_NSIZES])"

definition page_alloc_n :: "(pages \<Rightarrow> pages option) \<Rightarrow> nat \<Rightarrow> pages \<Rightarrow> (nat option \<times> pages) option" where
  "page_alloc_n reclaim npages s = do { order \<leftarrow> order_for npages; page_alloc_order reclaim order s }"

definition page_free_n :: "nat \<Rightarrow> nat \<Rightarrow> pages \<Rightarrow> pages option" where
  "page_free_n start npages s = do { order \<leftarrow> order_for npages; page_free_order start order s }"

definition page_free_count :: "pages \<Rightarrow> nat" where
  "page_free_count s = page_freecount s"


section \<open>What a group represents\<close>

text \<open>
  Block \<open>i\<close> of order \<open>k\<close> of a group starts at \<open>blk g k i\<close>; its halves are the blocks \<open>2 * i\<close> and
  \<open>2 * i + 1\<close> of order \<open>k - 1\<close>.  \<open>frees g F n\<close>: the group has \<open>n\<close> blocks of the largest order, its
  free list of order \<open>k\<close> holds the blocks \<open>F k\<close>, and no free block lies inside another.
  \<open>parity g F n\<close>: the bit of a block says whether exactly one of its halves is on its free list.
\<close>

definition blk :: "pagegroup \<Rightarrow> nat \<Rightarrow> nat \<Rightarrow> nat" where
  "blk g k i = pg_baseaddr g + i * 2 ^ k * PAGE_SIZE"

definition frees :: "pagegroup \<Rightarrow> (nat \<Rightarrow> nat list) \<Rightarrow> nat \<Rightarrow> bool" where
  "frees g F n \<longleftrightarrow>
     pg_baseaddr g mod PAGE_SIZE = 0 \<and> pg_endaddr g = pg_baseaddr g + n * 2 ^ 7 * PAGE_SIZE \<and>
     (\<forall>k < 8. pg_freelist g k = map (blk g k) (F k)) \<and>
     (\<forall>k < 8. distinct (F k)) \<and>
     (\<forall>k < 8. \<forall>i \<in> set (F k). i < n * 2 ^ (7 - k)) \<and>
     (\<forall>k p i. k < p \<longrightarrow> p < 8 \<longrightarrow> i \<in> set (F k) \<longrightarrow> i div 2 ^ (p - k) \<notin> set (F p))"

definition parity :: "pagegroup \<Rightarrow> (nat \<Rightarrow> nat list) \<Rightarrow> nat \<Rightarrow> bool" where
  "parity g F n \<longleftrightarrow> (\<forall>k < 7. \<forall>j < n * 2 ^ (6 - k).
     pg_map g (k + 1) j \<longleftrightarrow> ((2 * j \<in> set (F k)) \<noteq> (2 * j + 1 \<in> set (F k))))"

lemma freesD:
  assumes "frees g F n"
  shows "pg_baseaddr g mod 4096 = 0" and "pg_endaddr g = pg_baseaddr g + n * 2 ^ 7 * 4096"
    and "k < 8 \<Longrightarrow> pg_freelist g k = map (blk g k) (F k)" and "k < 8 \<Longrightarrow> distinct (F k)"
    and "k < 8 \<Longrightarrow> i \<in> set (F k) \<Longrightarrow> i < n * 2 ^ (7 - k)"
    and "k < p \<Longrightarrow> p < 8 \<Longrightarrow> i \<in> set (F k) \<Longrightarrow> i div 2 ^ (p - k) \<notin> set (F p)"
  using assms unfolding frees_def by auto

lemma freesI:
  assumes "pg_baseaddr g mod 4096 = 0" and "pg_endaddr g = pg_baseaddr g + n * 2 ^ 7 * 4096"
    and "\<And>k. k < 8 \<Longrightarrow> pg_freelist g k = map (blk g k) (F k)" and "\<And>k. k < 8 \<Longrightarrow> distinct (F k)"
    and "\<And>k i. k < 8 \<Longrightarrow> i \<in> set (F k) \<Longrightarrow> i < n * 2 ^ (7 - k)"
    and "\<And>k p i. k < p \<Longrightarrow> p < 8 \<Longrightarrow> i \<in> set (F k) \<Longrightarrow> i div 2 ^ (p - k) \<notin> set (F p)"
  shows "frees g F n"
  using assms unfolding frees_def by blast

lemma blk_inj [simp]: "blk g k i = blk g k j \<longleftrightarrow> i = j"
  by (simp add: blk_def)

lemma blk_cong: "pg_baseaddr g' = pg_baseaddr g \<Longrightarrow> blk g' = blk g"
  by (simp add: blk_def fun_eq_iff)

lemma div_half: "2 * i div 2 ^ Suc d = i div 2 ^ d" "(2 * i + 1) div 2 ^ Suc d = i div 2 ^ d"
  for i :: nat
  by (simp_all add: div_mult2_eq)

lemma mult_dvd_pow: "k \<le> 12 \<Longrightarrow> (2 ^ k :: nat) dvd 4096"
  using le_imp_power_dvd [of k 12 "2 :: nat"] by simp

lemma calculate_index_blk:
  assumes "frees g F n" and "k < 8" and "i < n * 2 ^ (7 - k)"
  shows "pagegroup_calculate_index g k (blk g k i) = Some i"
    and "k < 7 \<Longrightarrow> pagegroup_calculate_index g (k + 1) (blk g k i) = Some (i div 2)"
proof -
  have al: "blk g k i mod 4096 = 0" using freesD(1) [OF assms(1)] by (simp add: blk_def)
  have "i * 2 ^ k < n * 2 ^ (7 - k) * 2 ^ k" using assms(3) by simp
  also have "\<dots> = n * 2 ^ 7" using assms(2) by (simp add: mult.assoc flip: power_add)
  finally have rng: "pg_baseaddr g \<le> blk g k i" "blk g k i < pg_endaddr g"
    using freesD(2) [OF assms(1)] by (auto simp: blk_def)
  have "(2 ^ k :: nat) dvd 4096" using assms(2) by (intro mult_dvd_pow) simp
  then have d1: "(i * 2 ^ k * 4096) mod 2 ^ k = 0" by simp
  show "pagegroup_calculate_index g k (blk g k i) = Some i"
    using al rng d1 assms(2) unfolding pagegroup_calculate_index_def
    by (simp add: blk_def mult.assoc mult.commute [of "2 ^ k" 4096])
  assume "k < 7"
  then have d: "(2 ^ (k + 1) :: nat) dvd 4096" by (intro mult_dvd_pow) simp
  have "i * 2 ^ k * 4096 div 2 ^ (k + 1) div 4096 = i * 2 ^ k div 2 ^ (k + 1)"
    by (simp add: div_mult2_eq [symmetric] mult.commute [of "2 ^ (k + 1)" 4096]
        mult.assoc div_mult2_eq [of _ 4096] del: power_Suc)
  also have "\<dots> = i * 2 ^ k div (2 ^ k * 2)" by (simp add: mult.commute)
  also have "\<dots> = i div 2" by (subst div_mult2_eq) simp
  finally show "pagegroup_calculate_index g (k + 1) (blk g k i) = Some (i div 2)"
    using al rng d \<open>k < 7\<close> unfolding pagegroup_calculate_index_def
    by (simp add: blk_def)
qed


section \<open>How the free-list operations act\<close>

text \<open>Adding or removing one block of an order toggles exactly one bit of the next order's map.\<close>

lemma parity_toggle:
  assumes par: "parity g F n" and k: "k < 7" and fl: "pg_map g' = pg_map g"
    and xs: "\<And>x. x \<in> set xs \<longleftrightarrow> (x \<in> set (F k)) \<noteq> (x = i)"
  shows "parity (bit_flip (k + 1) (i div 2) g') (F(k := xs)) n"
  unfolding parity_def
proof (intro allI impI)
  fix p j assume p: "p < 7" and j: "j < n * 2 ^ (6 - p)"
  have old: "pg_map g (p + 1) j \<longleftrightarrow> ((2 * j \<in> set (F p)) \<noteq> (2 * j + 1 \<in> set (F p)))"
    using par p j by (simp add: parity_def)
  show "pg_map (bit_flip (k + 1) (i div 2) g') (p + 1) j \<longleftrightarrow>
      ((2 * j \<in> set ((F(k := xs)) p)) \<noteq> (2 * j + 1 \<in> set ((F(k := xs)) p)))"
  proof (cases "p = k")
    case False
    with old fl show ?thesis by (simp add: bit_flip_def)
  next
    case True
    have bit: "pg_map (bit_flip (k + 1) (i div 2) g') (k + 1) j = (pg_map g (k + 1) j \<noteq> (j = i div 2))"
      using fl by (simp add: bit_flip_def)
    have "j = i div 2 \<longleftrightarrow> 2 * j = i \<or> 2 * j + 1 = i" by presburger
    moreover have "\<not> (2 * j = i \<and> 2 * j + 1 = i)" by presburger
    ultimately show ?thesis
      unfolding True bit fun_upd_same xs [of "2 * j"] xs [of "2 * j + 1"] using old True by blast
  qed
qed

lemma parity_top:
  assumes "parity g F n" and "pg_map g' = pg_map g"
  shows "parity g' (F(7 := xs)) n"
  using assms by (simp add: parity_def)

lemma blk_bit_flip [simp]: "blk (bit_flip k j g) = blk g"
  by (rule blk_cong) (simp add: bit_flip_def)

lemma frees_bit_flip [simp]: "frees (bit_flip k j g) F n = frees g F n"
  unfolding frees_def blk_bit_flip by (simp add: bit_flip_def)

lemma frees_remove:
  assumes fr: "frees g F n" and k: "k < 8"
    and xs: "distinct xs" "set xs \<subseteq> set (F k)" and g': "g' = g\<lparr>pg_freelist := (pg_freelist g)(k := map (blk g k) xs)\<rparr>"
  shows "frees g' (F(k := xs)) n"
proof -
  have b: "blk g' = blk g" by (rule blk_cong) (simp add: g')
  have nest: "i div 2 ^ (p - q) \<notin> set ((F(k := xs)) p)"
    if "q < p" "p < 8" "i \<in> set ((F(k := xs)) q)" for q p i
    using freesD(6) [OF fr that(1,2), of i] that(3) xs(2) by (auto split: if_splits)
  have bound: "i < n * 2 ^ (7 - q)" if "q < 8" "i \<in> set ((F(k := xs)) q)" for q i
    using freesD(5) [OF fr that(1), of i] that(2) xs(2) by (auto split: if_splits)
  have "pg_freelist g' q = map (blk g' q) ((F(k := xs)) q)" if "q < 8" for q
    using freesD(3) [OF fr that] by (simp add: g' b [unfolded g'])
  moreover have "distinct ((F(k := xs)) q)" if "q < 8" for q
    using freesD(4) [OF fr that] xs(1) by simp
  ultimately show ?thesis
    by (intro freesI nest bound) (use freesD(1,2) [OF fr] in \<open>simp_all add: g'\<close>)
qed

text \<open>\<open>clear F k i\<close>: no free block lies inside block \<open>i\<close> of order \<open>k\<close>, and it lies inside none.\<close>

definition clear :: "(nat \<Rightarrow> nat list) \<Rightarrow> nat \<Rightarrow> nat \<Rightarrow> bool" where
  "clear F k i \<longleftrightarrow> (\<forall>q \<le> k. \<forall>x \<in> set (F q). x div 2 ^ (k - q) \<noteq> i) \<and>
     (\<forall>p. k < p \<longrightarrow> p < 8 \<longrightarrow> i div 2 ^ (p - k) \<notin> set (F p))"

lemma clearD:
  assumes "clear F k i"
  shows "q \<le> k \<Longrightarrow> x \<in> set (F q) \<Longrightarrow> x div 2 ^ (k - q) \<noteq> i"
    and "k < p \<Longrightarrow> p < 8 \<Longrightarrow> i div 2 ^ (p - k) \<notin> set (F p)"
  using assms by (auto simp: clear_def)

lemma clearI:
  assumes "\<And>q x. q \<le> k \<Longrightarrow> x \<in> set (F q) \<Longrightarrow> x div 2 ^ (k - q) \<noteq> i"
    and "\<And>p. k < p \<Longrightarrow> p < 8 \<Longrightarrow> i div 2 ^ (p - k) \<notin> set (F p)"
  shows "clear F k i"
  using assms by (auto simp: clear_def)

lemma div_pow_up:
  fixes h :: nat
  assumes "q < p"
  shows "h div 2 ^ (p - q) = h div 2 div 2 ^ (p - Suc q)"
proof -
  have "p - q = Suc (p - Suc q)" using assms by simp
  then have "(2 :: nat) ^ (p - q) = 2 * 2 ^ (p - Suc q)" by (simp only: power_Suc)
  then show ?thesis by (simp only: div_mult2_eq)
qed

lemma div_pow_down:
  fixes x :: nat
  assumes "p \<le> q"
  shows "x div 2 ^ (q - p) div 2 = x div 2 ^ (Suc q - p)"
proof -
  have "(2 :: nat) ^ (Suc q - p) = 2 ^ (q - p) * 2" using assms by (simp add: Suc_diff_le)
  then show ?thesis by (simp only: div_mult2_eq)
qed

lemma clear_taken:
  assumes "frees g F n" and "k < 8" and "F k = i # is"
  shows "clear (F(k := is)) k i"
proof (rule clearI)
  fix q x assume "q \<le> k" "x \<in> set ((F(k := is)) q)"
  then show "x div 2 ^ (k - q) \<noteq> i"
    using freesD(4) [OF assms(1,2)] freesD(6) [OF assms(1) _ assms(2), of q x] assms(3)
    by (cases "q = k") auto
next
  fix p assume "k < p" "p < 8"
  then show "i div 2 ^ (p - k) \<notin> set ((F(k := is)) p)"
    using freesD(6) [OF assms(1), of k p i] assms(3) by auto
qed

lemma clear_half:
  assumes "clear F (Suc q) (h div 2)" and "Suc q < 8"
  shows "clear F q h"
proof (rule clearI)
  fix p x assume p: "p \<le> q" "x \<in> set (F p)"
  then have "x div 2 ^ (q - p) div 2 \<noteq> h div 2"
    using clearD(1) [OF assms(1), of p x] by (simp add: div_pow_down)
  then show "x div 2 ^ (q - p) \<noteq> h" by auto
next
  fix p assume p: "q < p" "p < 8"
  show "h div 2 ^ (p - q) \<notin> set (F p)"
  proof (cases "p = Suc q")
    case True
    with clearD(1) [OF assms(1), of p "h div 2"] show ?thesis by auto
  next
    case False
    with p clearD(2) [OF assms(1), of p] show ?thesis by (simp add: div_pow_up)
  qed
qed

lemma clear_upd_same:
  assumes "clear F k i" and "i \<noteq> j"
  shows "clear (F(k := j # F k)) k i"
proof (rule clearI)
  fix q x assume "q \<le> k" "x \<in> set ((F(k := j # F k)) q)"
  then show "x div 2 ^ (k - q) \<noteq> i"
    using clearD(1) [OF assms(1), of q x] assms(2) by (cases "q = k") auto
next
  fix p assume "k < p" "p < 8"
  then show "i div 2 ^ (p - k) \<notin> set ((F(k := j # F k)) p)"
    using clearD(2) [OF assms(1), of p] by simp
qed

lemma frees_insert:
  assumes fr: "frees g F n" and k: "k < 8" and i: "i < n * 2 ^ (7 - k)" and cl: "clear F k i"
  shows "frees (fp_insert_head k (blk g k i) g) (F(k := i # F k)) n"
proof -
  note below = clearD(1) [OF cl] and above = clearD(2) [OF cl]
  let ?g = "fp_insert_head k (blk g k i) g"
  have b: "blk ?g = blk g" by (rule blk_cong) (simp add: fp_insert_head_def)
  have ni: "i \<notin> set (F k)" using below [of k i] by auto
  have nest: "x div 2 ^ (p - q) \<notin> set ((F(k := i # F k)) p)"
    if qp: "q < p" "p < 8" and x: "x \<in> set ((F(k := i # F k)) q)" for q p x
  proof (cases "q = k \<and> x = i")
    case True
    with above [of p] qp show ?thesis by auto
  next
    case False
    with x have "x \<in> set (F q)" by (auto split: if_splits)
    with freesD(6) [OF fr qp this] below [of q x] qp show ?thesis by auto
  qed
  have "pg_freelist ?g q = map (blk g q) ((F(k := i # F k)) q)" if "q < 8" for q
    using freesD(3) [OF fr that] by (cases "q = k") (simp_all add: fp_insert_head_def)
  moreover have "distinct ((F(k := i # F k)) q)" if "q < 8" for q
    using freesD(4) [OF fr that] ni by (cases "q = k") simp_all
  moreover have "x < n * 2 ^ (7 - q)" if "q < 8" "x \<in> set ((F(k := i # F k)) q)" for q x
    using freesD(5) [OF fr that(1), of x] that(2) i by (auto split: if_splits)
  ultimately show ?thesis
    by (intro freesI nest) (use freesD(1,2) [OF fr] b in \<open>simp_all add: fp_insert_head_def\<close>)
qed

lemma fp_remove_head_frees:
  assumes fr: "frees g F n" and k: "k < 8" and F: "F k = i # is"
  shows "\<exists>g'. fp_remove_head k g = Some (blk g k i, g') \<and> frees g' (F(k := is)) n \<and>
      pg_map g' = pg_map g \<and> blk g' = blk g"
proof -
  let ?g = "g\<lparr>pg_freelist := (pg_freelist g)(k := map (blk g k) is)\<rparr>"
  have "frees ?g (F(k := is)) n"
    by (rule frees_remove [OF fr k _ _ refl]) (use freesD(4) [OF fr k] F in auto)
  moreover have "fp_remove_head k g = Some (blk g k i, ?g)"
    using freesD(3) [OF fr k] F by (simp add: fp_remove_head_def)
  ultimately show ?thesis by (auto intro: blk_cong)
qed


lemma parity_pair:
  assumes par: "parity g F n" and fl: "pg_map g' = pg_map g"
    and xs: "\<And>x. x \<in> set xs \<longleftrightarrow> (x \<in> set (F k)) \<noteq> (x = 2 * i \<or> x = 2 * i + 1)"
  shows "parity g' (F(k := xs)) n"
  unfolding parity_def
proof (intro allI impI)
  fix p j assume p: "p < 7" and j: "j < n * 2 ^ (6 - p)"
  have old: "pg_map g (p + 1) j \<longleftrightarrow> ((2 * j \<in> set (F p)) \<noteq> (2 * j + 1 \<in> set (F p)))"
    using par p j by (simp add: parity_def)
  have "(2 * j = 2 * i \<or> 2 * j = 2 * i + 1) = (2 * j + 1 = 2 * i \<or> 2 * j + 1 = 2 * i + 1)" by presburger
  then show "pg_map g' (p + 1) j \<longleftrightarrow>
      ((2 * j \<in> set ((F(k := xs)) p)) \<noteq> (2 * j + 1 \<in> set ((F(k := xs)) p)))"
    using old xs [of "2 * j"] xs [of "2 * j + 1"] unfolding fl by (cases "p = k") auto
qed

lemma parityD:
  assumes "parity g F n" and "k < 7" and "j < n * 2 ^ (6 - k)"
  shows "pg_map g (Suc k) j \<longleftrightarrow> ((2 * j \<in> set (F k)) \<noteq> (2 * j + 1 \<in> set (F k)))"
  using assms by (simp add: parity_def)

text \<open>The halves of a free block are not free blocks of their own.\<close>

lemma halves_not_free:
  assumes "frees g F n" and "k < 7" and "i \<in> set (F (Suc k))"
  shows "2 * i \<notin> set (F k)" and "2 * i + 1 \<notin> set (F k)"
  using freesD(6) [OF assms(1), of k "Suc k" "2 * i"] freesD(6) [OF assms(1), of k "Suc k" "2 * i + 1"]
    assms(2,3) by auto

text \<open>Flipping the parent's bit restores the parity when one block has changed its state.\<close>

lemma flip_parent_rep:
  assumes fr: "frees g' (F(k := xs)) n" and par: "parity g F n" and k: "k < 8" and i: "i < n * 2 ^ (7 - k)"
    and fl: "pg_map g' = pg_map g" and xs: "\<And>x. x \<in> set xs \<longleftrightarrow> (x \<in> set (F k)) \<noteq> (x = i)"
  shows "\<exists>g2. flip_parent k (blk g' k i) g' = Some g2 \<and> frees g2 (F(k := xs)) n \<and>
      parity g2 (F(k := xs)) n \<and> blk g2 = blk g'"
proof (cases "k < 7")
  case True
  have "flip_parent k (blk g' k i) g' = Some (bit_flip (k + 1) (i div 2) g')"
    using calculate_index_blk(2) [OF fr k i True] True by (simp add: flip_parent_def)
  moreover have "parity (bit_flip (k + 1) (i div 2) g') (F(k := xs)) n"
    using par True fl xs by (rule parity_toggle)
  ultimately show ?thesis using fr by auto
next
  case False
  then have "k = 7" using k by simp
  with parity_top [OF par fl, of xs] fr show ?thesis by (auto simp: flip_parent_def)
qed

text \<open>Taking the first block of an order off its free list, with its bit flipped.\<close>

lemma take_head:
  assumes fr: "frees g F n" and par: "parity g F n" and k: "k < 8" and F: "F k = i # is"
  shows "\<exists>g1 g2. fp_remove_head k g = Some (blk g k i, g1) \<and> flip_parent k (blk g k i) g1 = Some g2 \<and>
      frees g2 (F(k := is)) n \<and> parity g2 (F(k := is)) n \<and> blk g2 = blk g"
proof -
  from fp_remove_head_frees [OF fr k F] obtain g1 where
    g1: "fp_remove_head k g = Some (blk g k i, g1)" "frees g1 (F(k := is)) n"
      "pg_map g1 = pg_map g" "blk g1 = blk g" by blast
  have "i < n * 2 ^ (7 - k)" using freesD(5) [OF fr k] F by simp
  moreover have "x \<in> set is \<longleftrightarrow> (x \<in> set (F k)) \<noteq> (x = i)" for x
    using freesD(4) [OF fr k] F by auto
  ultimately show ?thesis using flip_parent_rep [OF g1(2) par k _ g1(3)] g1 by auto
qed

lemma blk_insert [simp]: "blk (fp_insert_head k a g) = blk g"
  by (rule blk_cong) (simp add: fp_insert_head_def)

lemma map_insert [simp]: "pg_map (fp_insert_head k a g) = pg_map g"
  by (simp add: fp_insert_head_def)

lemma page_split1_rep:
  assumes fr: "frees g F n" and par: "parity g F n" and q: "q < 7" and F: "F (Suc q) = i # is"
  shows "\<exists>g'. page_split1 (Suc q) g = Some g' \<and> blk g' = blk g \<and>
      frees g' (F(Suc q := is, q := (2 * i + 1) # (2 * i) # F q)) n \<and>
      parity g' (F(Suc q := is, q := (2 * i + 1) # (2 * i) # F q)) n"
proof -
  let ?k = "Suc q" and ?F = "F(Suc q := is)"
  have k: "?k < 8" using q by simp
  from take_head [OF fr par k F] obtain g1 g2 where
    g1: "fp_remove_head ?k g = Some (blk g ?k i, g1)" and
    flip: "flip_parent ?k (blk g ?k i) g1 = Some g2" and
    g2: "frees g2 ?F n" "parity g2 ?F n" "blk g2 = blk g" by blast
  have iF: "i \<in> set (F ?k)" and i: "i < n * 2 ^ (6 - q)" using F freesD(5) [OF fr k] by auto
  note halves = halves_not_free [OF fr q iF]
  have bit: "\<not> pg_map g2 ?k i" using parityD [OF g2(2) q i] halves by simp
  have idx: "pagegroup_calculate_index g2 ?k (blk g ?k i) = Some i"
    using calculate_index_blk(1) [OF g2(1) k] i g2(3) by simp
  have pow: "2 ^ (7 - q) = 2 * (2 ^ (6 - q) :: nat)" using q by (simp flip: power_Suc)
  have lo: "blk g ?k i = blk g q (2 * i)" and hi: "blk g ?k i + 2 ^ q * 4096 = blk g q (2 * i + 1)"
    by (simp_all add: blk_def algebra_simps)
  have cl: "clear ?F q (2 * i)" "clear ?F q (2 * i + 1)"
    using clear_taken [OF fr k F] k clear_half [of ?F q "2 * i"] clear_half [of ?F q "2 * i + 1"] by simp_all
  let ?g3 = "fp_insert_head q (blk g q (2 * i)) g2" and ?F3 = "?F(q := 2 * i # ?F q)"
  have f3: "frees ?g3 ?F3 n"
    using frees_insert [OF g2(1) _ _ cl(1)] q i pow g2(3) by simp
  let ?g4 = "fp_insert_head q (blk g q (2 * i + 1)) ?g3" and ?F4 = "?F3(q := (2 * i + 1) # ?F3 q)"
  have f4: "frees ?g4 ?F4 n"
    using frees_insert [OF f3 _ _ clear_upd_same [OF cl(2)]] q i pow g2(3) by simp
  have "parity ?g4 (?F(q := (2 * i + 1) # (2 * i) # ?F q)) n"
    by (rule parity_pair [OF g2(2), where i = i]) (use halves in auto)
  moreover have "page_split1 ?k g = Some ?g4"
    using g1 flip idx bit k freesD(3) [OF fr k] F lo hi
    unfolding page_split1_def by (simp add: Let_def)
  ultimately show ?thesis using f4 g2(3) by (auto simp: fun_upd_twist)
qed


section \<open>Free pages\<close>

text \<open>The free pages of a group, as page offsets in it, and their number.\<close>

definition block_pages :: "nat \<Rightarrow> nat \<Rightarrow> nat set" where
  "block_pages k i = {i * 2 ^ k ..< (i + 1) * 2 ^ k}"

definition fpages :: "(nat \<Rightarrow> nat list) \<Rightarrow> nat set" where
  "fpages F = (\<Union>k < 8. \<Union>i \<in> set (F k). block_pages k i)"

definition fcount :: "(nat \<Rightarrow> nat list) \<Rightarrow> nat" where
  "fcount F = (\<Sum>k < 8. length (F k) * 2 ^ k)"

lemma block_pages_iff: "x \<in> block_pages k i \<longleftrightarrow> x div 2 ^ k = i"
proof
  assume "x \<in> block_pages k i"
  then show "x div 2 ^ k = i"
    by (intro div_nat_eqI) (auto simp: block_pages_def algebra_simps)
next
  assume "x div 2 ^ k = i"
  moreover have "2 ^ k * (x div 2 ^ k) \<le> x" by simp
  moreover have "x < 2 ^ k + 2 ^ k * (x div 2 ^ k)" by (rule dividend_less_times_div) simp
  ultimately show "x \<in> block_pages k i" by (auto simp: block_pages_def algebra_simps)
qed

lemma block_pages_split: "block_pages (Suc q) i = block_pages q (2 * i + 1) \<union> block_pages q (2 * i)"
  by (auto simp: block_pages_def algebra_simps)

lemma fpages_iff: "x \<in> fpages F \<longleftrightarrow> (\<exists>k < 8. x div 2 ^ k \<in> set (F k))"
  by (auto simp: fpages_def block_pages_iff)

lemma fpages_upd: "k < 8 \<Longrightarrow> fpages (F(k := xs)) = fpages (F(k := [])) \<union> (\<Union>i \<in> set xs. block_pages k i)"
  by (auto simp: fpages_iff block_pages_iff split: if_splits)

lemma fcount_upd:
  assumes "k < 8"
  shows "fcount (F(k := xs)) + length (F k) * 2 ^ k = fcount F + length xs * 2 ^ k"
proof -
  have "{..<8} = insert k ({..<8} - {k})" using assms by auto
  then have split: "(\<Sum>p < 8. f p) = f k + (\<Sum>p \<in> {..<8} - {k}. f p)" for f :: "nat \<Rightarrow> nat"
    by (metis finite_lessThan lessThan_iff assms sum.remove)
  have "(\<Sum>p \<in> {..<8} - {k}. length ((F(k := xs)) p) * 2 ^ p) = (\<Sum>p \<in> {..<8} - {k}. length (F p) * 2 ^ p)"
    by (rule sum.cong) auto
  then show ?thesis unfolding fcount_def split [of "\<lambda>p. length ((F(k := xs)) p) * 2 ^ p"]
      split [of "\<lambda>p. length (F p) * 2 ^ p"] by simp
qed

lemma split_pages:
  assumes "q < 7" and "F (Suc q) = i # is"
  shows "fpages (F(Suc q := is, q := (2 * i + 1) # (2 * i) # F q)) = fpages F"
    and "fcount (F(Suc q := is, q := (2 * i + 1) # (2 * i) # F q)) = fcount F"
proof -
  let ?F = "F(Suc q := is)" and ?xs = "(2 * i + 1) # (2 * i) # F q"
  have k: "Suc q < 8" "q < 8" using assms(1) by auto
  have F: "F = F(Suc q := i # is)" using assms(2) by (simp add: fun_upd_idem)
  have q: "?F = ?F(q := F q)" by (simp add: fun_upd_idem)
  have "fpages (?F(q := ?xs)) = fpages (?F(q := F q)) \<union> block_pages (Suc q) i"
    by (simp only: fpages_upd [OF k(2), of ?F ?xs] fpages_upd [OF k(2), of ?F "F q"] block_pages_split) auto
  also have "\<dots> = fpages (F(Suc q := i # is))"
    by (simp only: q [symmetric] fpages_upd [OF k(1), of F "is"] fpages_upd [OF k(1), of F "i # is"]) auto
  finally show "fpages (?F(q := ?xs)) = fpages F" using F by simp
  show "fcount (?F(q := ?xs)) = fcount F"
    using fcount_upd [OF k(2), of ?F ?xs] fcount_upd [OF k(1), of F "is"] assms(2) by simp
qed

lemma split_down_rep:
  assumes "frees g F n" and "parity g F n" and "q \<le> k" and "k < 8" and "F k \<noteq> []"
  shows "\<exists>g' F'. split_down k q g = Some g' \<and> blk g' = blk g \<and> frees g' F' n \<and> parity g' F' n \<and>
      F' q \<noteq> [] \<and> fpages F' = fpages F \<and> fcount F' = fcount F"
  using assms
proof (induction k arbitrary: g F)
  case 0
  then show ?case by (subst split_down.simps) auto
next
  case (Suc k)
  show ?case
  proof (cases "q = Suc k")
    case True
    with Suc.prems show ?thesis by (subst split_down.simps) auto
  next
    case False
    from Suc.prems(5) obtain i "is" where F: "F (Suc k) = i # is" by (cases "F (Suc k)") auto
    let ?F = "F(Suc k := is, k := (2 * i + 1) # (2 * i) # F k)"
    have k: "k < 7" using Suc.prems(4) by simp
    from page_split1_rep [OF Suc.prems(1,2) k F] obtain g1 where
      g1: "page_split1 (Suc k) g = Some g1" "blk g1 = blk g" "frees g1 ?F n" "parity g1 ?F n" by blast
    have "q \<le> k" "k < 8" "?F k \<noteq> []" using False Suc.prems(3,4) by auto
    from Suc.IH [OF g1(3,4) this] obtain g' F' where
      "split_down k q g1 = Some g'" "blk g' = blk g1" "frees g' F' n" "parity g' F' n"
      "F' q \<noteq> []" "fpages F' = fpages F" "fcount F' = fcount F"
      unfolding split_pages [where F = F, OF k F] by blast
    then show ?thesis
      using False Suc.prems(3) g1(1,2) by (subst split_down.simps) auto
  qed
qed


section \<open>Joining buddies\<close>

lemma find_unique:
  assumes "k < m" and "P k" and "\<And>j. j < m \<Longrightarrow> P j \<Longrightarrow> j = k"
  shows "List.find P [0 ..< m] = Some k"
proof (cases "List.find P [0 ..< m]")
  case None
  with assms(1,2) show ?thesis by (auto simp: find_None_iff)
next
  case (Some j)
  with assms(3) [of j] show ?thesis by (auto simp: find_Some_iff)
qed

lemma start_unique:
  assumes fr: "frees g F n" and k: "k < 8" "i \<in> set (F k)" and p: "p < 8" "j \<in> set (F p)"
    and eq: "blk g k i = blk g p j"
  shows "p = k"
proof -
  have *: False if q: "q < r" "r < 8" and x: "x \<in> set (F q)" "y \<in> set (F r)"
    and e: "x * 2 ^ q = y * 2 ^ r" for q r x y
  proof -
    have "(2 :: nat) ^ r = 2 ^ (r - q) * 2 ^ q" using q(1) by (simp flip: power_add)
    with e have "x = y * 2 ^ (r - q)" by simp
    then have "x div 2 ^ (r - q) = y" by simp
    with freesD(6) [OF fr q x(1)] x(2) show False by simp
  qed
  have "i * 2 ^ k = j * 2 ^ p" using eq by (simp add: blk_def)
  then show ?thesis
    using *[of k p i j] *[of p k j i] k p by (metis linorder_neqE_nat)
qed

lemma fp_remove_frees:
  assumes fr: "frees g F n" and k: "k < 8" and i: "i \<in> set (F k)"
  shows "\<exists>g'. fp_remove (blk g k i) g = Some g' \<and> frees g' (F(k := remove1 i (F k))) n \<and>
      pg_map g' = pg_map g \<and> blk g' = blk g"
proof -
  have inl: "blk g k i \<in> set (pg_freelist g k)" using freesD(3) [OF fr k] i by simp
  have "j = k" if j: "j < 8" "blk g k i \<in> set (pg_freelist g j)" for j
  proof -
    from j obtain x where x: "x \<in> set (F j)" "blk g k i = blk g j x" using freesD(3) [OF fr j(1)] by auto
    show ?thesis by (rule start_unique [OF fr k i j(1) x])
  qed
  with k inl have find: "List.find (\<lambda>p. blk g k i \<in> set (pg_freelist g p)) [0 ..< 8] = Some k"
    by (intro find_unique) auto
  let ?g = "g\<lparr>pg_freelist := (pg_freelist g)(k := map (blk g k) (remove1 i (F k)))\<rparr>"
  have "inj (blk g k)" by (simp add: inj_def)
  then have "remove1 (blk g k i) (pg_freelist g k) = map (blk g k) (remove1 i (F k))"
    using freesD(3) [OF fr k] by (simp add: remove1_map_inj)
  then have run: "fp_remove (blk g k i) g = Some ?g" using find by (simp add: fp_remove_def)
  have "frees ?g (F(k := remove1 i (F k))) n"
    by (rule frees_remove [OF fr k _ _ refl]) (use freesD(4) [OF fr k] set_remove1_subset in auto)
  with run show ?thesis by (auto intro: blk_cong)
qed

lemma buddy_of_blk:
  assumes "frees g F n"
  shows "buddy_of g k (blk g k i) = blk g k (if odd i then i - 1 else i + 1)"
proof -
  have "i * 2 ^ k * 4096 div 4096 div 2 ^ k = i" by simp
  then have "(blk g k i - pg_baseaddr g) div 4096 div 2 ^ k = i" by (simp add: blk_def)
  moreover have "odd i \<Longrightarrow> blk g k i - 2 ^ k * 4096 = blk g k (i - 1)"
    by (cases i) (simp_all add: blk_def algebra_simps)
  moreover have "blk g k i + 2 ^ k * 4096 = blk g k (i + 1)" by (simp add: blk_def algebra_simps)
  ultimately show ?thesis by (simp add: buddy_of_def)
qed

lemma half_neq: "y \<noteq> 2 * j \<Longrightarrow> y \<noteq> 2 * j + 1 \<Longrightarrow> y div 2 \<noteq> j" for y :: nat
  by presburger

lemma clear_joined:
  assumes fr: "frees g F n" and k: "k < 7" and j: "2 * j \<in> set (F k)" "2 * j + 1 \<in> set (F k)"
    and xs: "set xs = set (F k) - {2 * j, 2 * j + 1}"
  shows "clear (F(k := xs)) (Suc k) j"
proof (rule clearI)
  fix q x assume q: "q \<le> Suc k" and x: "x \<in> set ((F(k := xs)) q)"
  consider "q = Suc k" | "q = k" | "q < k" using q by linarith
  then show "x div 2 ^ (Suc k - q) \<noteq> j"
  proof cases
    case 1
    have "2 * j div 2 ^ (Suc k - k) \<notin> set (F (Suc k))"
      using freesD(6) [OF fr _ _ j(1), of "Suc k"] k by simp
    with 1 x show ?thesis by auto
  next
    case 2
    with x xs have "x \<noteq> 2 * j" "x \<noteq> 2 * j + 1" by auto
    then have "x div 2 \<noteq> j" by (rule half_neq)
    with 2 show ?thesis by simp
  next
    case 3
    with x have "x div 2 ^ (k - q) \<notin> set (F k)" using freesD(6) [OF fr 3, of x] k by simp
    then have "x div 2 ^ (k - q) \<noteq> 2 * j" "x div 2 ^ (k - q) \<noteq> 2 * j + 1" using j by auto
    then have "x div 2 ^ (k - q) div 2 \<noteq> j" by (rule half_neq)
    with 3 show ?thesis by (simp add: div_pow_down)
  qed
next
  fix p assume p: "Suc k < p" "p < 8"
  then have "2 * j div 2 ^ (p - k) \<notin> set (F p)" using freesD(6) [OF fr _ p(2) j(1)] by simp
  then show "j div 2 ^ (p - Suc k) \<notin> set ((F(k := xs)) p)"
    using p(1) by (simp add: div_pow_up [of k p])
qed


lemma fpages_cong: "(\<And>k. k < 8 \<Longrightarrow> set (F k) = set (F' k)) \<Longrightarrow> fpages F = fpages F'"
  by (simp add: fpages_def)

lemma join_pages:
  assumes k: "k < 7" and d: "distinct (F k)" and j: "2 * j \<in> set (F k)" "2 * j + 1 \<in> set (F k)"
    and xs: "distinct xs" "set xs = set (F k) - {2 * j, 2 * j + 1}"
  shows "fpages (F(k := xs, Suc k := j # F (Suc k))) = fpages F"
    and "fcount (F(k := xs, Suc k := j # F (Suc k))) = fcount F"
proof -
  let ?F = "F(k := xs, Suc k := j # F (Suc k))" and ?G = "F(k := (2 * j + 1) # (2 * j) # xs)"
  have G: "?F(Suc k := F (Suc k), k := (2 * j + 1) # (2 * j) # ?F k) = ?G" by (auto simp: fun_eq_iff)
  have "?F (Suc k) = j # F (Suc k)" by simp
  note sp = split_pages [where F = ?F, OF k this, unfolded G]
  have "set (?G p) = set (F p)" for p using xs(2) j by auto
  then have "fpages ?G = fpages F" by (intro fpages_cong)
  with sp(1) show "fpages ?F = fpages F" by simp
  have "length xs + 2 = length (F k)"
  proof -
    have "card (set (F k)) = card (insert (2 * j) (insert (2 * j + 1) (set xs)))"
      using xs(2) j by (intro arg_cong [where f = card]) auto
    also have "\<dots> = card (set xs) + 2" using xs(2) by simp
    finally show ?thesis using d xs(1) by (simp add: distinct_card)
  qed
  then have "fcount ?G = fcount F" using fcount_upd [of k F "(2 * j + 1) # (2 * j) # xs"] k by simp
  with sp(2) show "fcount ?F = fcount F" by simp
qed

lemma join_step:
  assumes fr: "frees g F n" and par: "parity g F n" and k: "k < 7" and i: "i \<in> set (F k)"
    and bit: "\<not> pg_map g (Suc k) (i div 2)"
  defines "j \<equiv> i div 2" and "b \<equiv> if odd i then i - 1 else i + 1"
  shows "\<exists>g1 g2 g3 xs. fp_remove (blk g k i) g = Some g1 \<and> fp_remove (blk g k b) g1 = Some g2 \<and>
      flip_parent (Suc k) (blk g (Suc k) j) (fp_insert_head (Suc k) (blk g (Suc k) j) g2) = Some g3 \<and>
      min (blk g k i) (blk g k b) = blk g (Suc k) j \<and> blk g3 = blk g \<and>
      frees g3 (F(k := xs, Suc k := j # F (Suc k))) n \<and>
      parity g3 (F(k := xs, Suc k := j # F (Suc k))) n \<and>
      fpages (F(k := xs, Suc k := j # F (Suc k))) = fpages F \<and>
      fcount (F(k := xs, Suc k := j # F (Suc k))) = fcount F"
proof -
  have k8: "k < 8" "Suc k < 8" using k by auto
  have pow: "2 ^ (7 - k) = 2 * (2 ^ (6 - k) :: nat)" using k by (simp flip: power_Suc)
  have j: "j < n * 2 ^ (6 - k)" using freesD(5) [OF fr k8(1) i] pow unfolding j_def by auto
  have ib: "i = 2 * j \<and> b = 2 * j + 1 \<or> i = 2 * j + 1 \<and> b = 2 * j" unfolding j_def b_def by auto
  have both: "2 * j \<in> set (F k)" "2 * j + 1 \<in> set (F k)"
    using parityD [OF par k j] bit i ib unfolding j_def by auto
  from fp_remove_frees [OF fr k8(1) i] obtain g1 where
    g1: "fp_remove (blk g k i) g = Some g1" "frees g1 (F(k := remove1 i (F k))) n"
      "pg_map g1 = pg_map g" "blk g1 = blk g" by blast
  have d: "distinct (F k)" using freesD(4) [OF fr k8(1)] .
  have "b \<in> set ((F(k := remove1 i (F k))) k)" using both ib d by auto
  from fp_remove_frees [OF g1(2) k8(1) this, unfolded g1(3,4) fun_upd_upd fun_upd_same] obtain g2 where
    g2: "fp_remove (blk g k b) g1 = Some g2" "frees g2 (F(k := remove1 b (remove1 i (F k)))) n"
      "pg_map g2 = pg_map g" "blk g2 = blk g" by blast
  define xs where "xs = remove1 b (remove1 i (F k))"
  have xs: "distinct xs" "set xs = set (F k) - {2 * j, 2 * j + 1}" using d ib by (auto simp: xs_def)
  have par2: "parity g2 (F(k := xs)) n"
    by (rule parity_pair [OF par g2(3), where i = j]) (use xs both in auto)
  have cl: "clear (F(k := xs)) (Suc k) j" using clear_joined [OF fr k both xs(2)] .
  let ?g = "fp_insert_head (Suc k) (blk g (Suc k) j) g2" and ?F = "F(k := xs, Suc k := j # F (Suc k))"
  have fr2: "frees ?g ?F n"
    using frees_insert [OF g2(2) [folded xs_def] k8(2) _ cl] j g2(4) by simp
  have "j \<notin> set (F (Suc k))" using clearD(1) [OF cl, of "Suc k" j] by auto
  then have tog: "x \<in> set (j # F (Suc k)) \<longleftrightarrow> (x \<in> set ((F(k := xs)) (Suc k))) \<noteq> (x = j)" for x by auto
  have "j < n * 2 ^ (7 - Suc k)" using j by simp
  from flip_parent_rep [where F = "F(k := xs)" and k = "Suc k", OF fr2 par2 k8(2) this _ tog] g2(4)
  obtain g3 where "flip_parent (Suc k) (blk g (Suc k) j) ?g = Some g3" "frees g3 ?F n" "parity g3 ?F n"
    "blk g3 = blk g" by auto
  moreover have "min (blk g k i) (blk g k b) = blk g (Suc k) j"
    using ib by (auto simp: blk_def algebra_simps min_def)
  ultimately show ?thesis
    using g1(1) g2(1) join_pages [where F = F, OF k d both xs] by blast
qed


lemma page_join_rep:
  assumes "frees g F n" and "parity g F n" and "k < 8" and "i \<in> set (F k)"
  shows "\<exists>g' F'. page_join k (blk g k i) g = Some g' \<and> blk g' = blk g \<and> frees g' F' n \<and>
      parity g' F' n \<and> fpages F' = fpages F \<and> fcount F' = fcount F"
  using assms
proof (induction "7 - k" arbitrary: k i g F)
  case 0
  then have "page_join k (blk g k i) g = Some g" by (subst page_join.simps) simp
  with 0 show ?case by blast
next
  case (Suc m)
  then have k: "k < 7" by simp
  have i: "i < n * 2 ^ (7 - k)" using freesD(5) [OF Suc.prems(1,3,4)] .
  have idx: "pagegroup_calculate_index g (k + 1) (blk g k i) = Some (i div 2)"
    using calculate_index_blk(2) [OF Suc.prems(1,3) i k] .
  have al: "(blk g k i - pg_baseaddr g) mod 2 ^ k = 0" by (simp add: blk_def)
  show ?case
  proof (cases "pg_map g (Suc k) (i div 2)")
    case True
    then have "page_join k (blk g k i) g = Some g" using k idx by (subst page_join.simps) simp
    with Suc.prems show ?thesis by blast
  next
    case False
    let ?j = "i div 2" and ?b = "if odd i then i - 1 else i + 1"
    from join_step [OF Suc.prems(1,2) k Suc.prems(4) False] obtain g1 g2 g3 xs where
      steps: "fp_remove (blk g k i) g = Some g1" "fp_remove (blk g k ?b) g1 = Some g2"
        "flip_parent (Suc k) (blk g (Suc k) ?j) (fp_insert_head (Suc k) (blk g (Suc k) ?j) g2) = Some g3"
        "min (blk g k i) (blk g k ?b) = blk g (Suc k) ?j" "blk g3 = blk g"
      and g3: "frees g3 (F(k := xs, Suc k := ?j # F (Suc k))) n"
        "parity g3 (F(k := xs, Suc k := ?j # F (Suc k))) n"
      and pages: "fpages (F(k := xs, Suc k := ?j # F (Suc k))) = fpages F"
        "fcount (F(k := xs, Suc k := ?j # F (Suc k))) = fcount F" by blast
    have "m = 7 - Suc k" "Suc k < 8" "?j \<in> set ((F(k := xs, Suc k := ?j # F (Suc k))) (Suc k))"
      using Suc.hyps(2) k by auto
    from Suc.hyps(1) [OF this(1) g3 this(2,3), unfolded pages steps(5)] obtain g' F' where
      g': "page_join (Suc k) (blk g (Suc k) ?j) g3 = Some g'" "blk g' = blk g" "frees g' F' n"
        "parity g' F' n" "fpages F' = fpages F" "fcount F' = fcount F" by blast
    have "page_join k (blk g k i) g = Some g'"
      using k idx False al steps g'(1) buddy_of_blk [OF Suc.prems(1), of k i]
      by (subst page_join.simps) (simp add: Let_def)
    with g' show ?thesis by blast
  qed
qed


section \<open>The allocator's invariant\<close>

text \<open>
  The free memory of a group, as byte addresses, and the number of its free pages; a group is
  sound when its free lists and bit maps represent some set of free blocks.  The allocator is sound
  when its groups are, their address ranges are disjoint, and the counter counts the free pages.
\<close>

definition free_addrs :: "pagegroup \<Rightarrow> nat set" where
  "free_addrs g = (\<Union>k < 8. \<Union>a \<in> set (pg_freelist g k). {a ..< a + 2 ^ k * PAGE_SIZE})"

definition group_count :: "pagegroup \<Rightarrow> nat" where
  "group_count g = (\<Sum>k < 8. length (pg_freelist g k) * 2 ^ k)"

definition group_inv :: "pagegroup \<Rightarrow> bool" where
  "group_inv g \<longleftrightarrow> (\<exists>F n. frees g F n \<and> parity g F n)"

definition group_range :: "pagegroup \<Rightarrow> nat set" where
  "group_range g = {pg_baseaddr g ..< pg_endaddr g}"

definition free_mem :: "pages \<Rightarrow> nat set" where
  "free_mem s = (\<Union>g \<in> set (pagegroup_list s). free_addrs g)"

definition valid_block :: "nat \<Rightarrow> pages \<Rightarrow> nat \<Rightarrow> bool" where
  "valid_block k s a \<longleftrightarrow> (\<exists>g \<in> set (pagegroup_list s). pg_baseaddr g \<le> a \<and> a < pg_endaddr g \<and>
     (a - pg_baseaddr g) mod (2 ^ k * PAGE_SIZE) = 0)"

definition pages_inv :: "pages \<Rightarrow> bool" where
  "pages_inv s \<longleftrightarrow> (\<forall>g \<in> set (pagegroup_list s). group_inv g) \<and>
     sorted_wrt (\<lambda>g h. group_range g \<inter> group_range h = {}) (pagegroup_list s) \<and>
     page_freecount s = sum_list (map group_count (pagegroup_list s)) \<and> page_freecount s < 2 ^ 32"

lemma block_addrs:
  assumes "pg_baseaddr g \<le> a"
  shows "a \<in> {blk g k i ..< blk g k i + 2 ^ k * 4096} \<longleftrightarrow> (a - pg_baseaddr g) div 4096 \<in> block_pages k i"
proof -
  have "(a - pg_baseaddr g) div 4096 \<in> block_pages k i \<longleftrightarrow>
      i * 2 ^ k \<le> (a - pg_baseaddr g) div 4096 \<and> (a - pg_baseaddr g) div 4096 < (i + 1) * 2 ^ k"
    by (simp add: block_pages_def)
  also have "\<dots> \<longleftrightarrow> i * 2 ^ k * 4096 \<le> a - pg_baseaddr g \<and> a - pg_baseaddr g < (i + 1) * 2 ^ k * 4096"
    by (simp add: less_eq_div_iff_mult_less_eq div_less_iff_less_mult)
  also have "\<dots> \<longleftrightarrow> a \<in> {blk g k i ..< blk g k i + 2 ^ k * 4096}"
    using assms by (auto simp: blk_def algebra_simps)
  finally show ?thesis ..
qed

lemma free_addrs_iff:
  assumes "frees g F n"
  shows "a \<in> free_addrs g \<longleftrightarrow> pg_baseaddr g \<le> a \<and> (a - pg_baseaddr g) div 4096 \<in> fpages F"
proof (cases "pg_baseaddr g \<le> a")
  case True
  have "a \<in> free_addrs g \<longleftrightarrow> (\<exists>k < 8. \<exists>i \<in> set (F k). a \<in> {blk g k i ..< blk g k i + 2 ^ k * 4096})"
    using freesD(3) [OF assms] by (auto simp: free_addrs_def)
  also have "\<dots> \<longleftrightarrow> (\<exists>k < 8. \<exists>i \<in> set (F k). (a - pg_baseaddr g) div 4096 \<in> block_pages k i)"
    by (simp only: block_addrs [OF True])
  finally show ?thesis using True by (auto simp: fpages_def)
next
  case False
  then have "a \<notin> {blk g k i ..< blk g k i + 2 ^ k * 4096}" for k i by (auto simp: blk_def)
  with False show ?thesis using freesD(3) [OF assms] by (auto simp: free_addrs_def)
qed

lemma free_addrs_range:
  assumes "frees g F n"
  shows "free_addrs g \<subseteq> group_range g"
proof
  fix a assume a: "a \<in> free_addrs g"
  then have le: "pg_baseaddr g \<le> a" and "(a - pg_baseaddr g) div 4096 \<in> fpages F"
    using free_addrs_iff [OF assms] by auto
  then obtain k where k: "k < 8" "(a - pg_baseaddr g) div 4096 div 2 ^ k \<in> set (F k)"
    by (auto simp: fpages_iff)
  then have "(a - pg_baseaddr g) div 4096 div 2 ^ k < n * 2 ^ (7 - k)" using freesD(5) [OF assms] by blast
  then have "(a - pg_baseaddr g) div 4096 < n * 2 ^ (7 - k) * 2 ^ k"
    by (simp add: div_less_iff_less_mult)
  also have "\<dots> = n * 2 ^ 7" using k(1) by (simp add: mult.assoc flip: power_add)
  finally have "a - pg_baseaddr g < n * 2 ^ 7 * 4096" by (simp add: div_less_iff_less_mult)
  then show "a \<in> group_range g" using le freesD(2) [OF assms] by (simp add: group_range_def) 
qed

lemma group_count_frees: "frees g F n \<Longrightarrow> group_count g = fcount F"
  using freesD(3) [of g F n] by (simp add: group_count_def fcount_def)

lemma free_addrs_same:
  assumes "frees g F n" and "frees g' F' n" and "blk g' = blk g" and "fpages F' = fpages F"
  shows "free_addrs g' = free_addrs g"
proof -
  have "blk g' 0 0 = blk g 0 0" using assms(3) by simp
  then have "pg_baseaddr g' = pg_baseaddr g" by (simp add: blk_def)
  then show ?thesis using free_addrs_iff [OF assms(1)] free_addrs_iff [OF assms(2)] assms(4) by auto
qed

lemma blk_base: "blk g' = blk g \<Longrightarrow> pg_baseaddr g' = pg_baseaddr g"
  by (metis blk_def add.right_neutral mult_0)

lemma blk_range:
  assumes "frees g F n" and "frees g' F' n" and "blk g' = blk g"
  shows "group_range g' = group_range g" "pg_endaddr g' = pg_endaddr g"
  using blk_base [OF assms(3)] freesD(2) [OF assms(1)] freesD(2) [OF assms(2)]
  by (simp_all add: group_range_def)


lemma div_pow_add: "x div 2 ^ p div 2 ^ q = x div 2 ^ (p + q)" for x :: nat
  by (simp add: power_add div_mult2_eq)

lemma clear_disjoint:
  assumes "clear F k i" and "k < 8"
  shows "fpages F \<inter> block_pages k i = {}"
proof -
  have "x div 2 ^ k \<noteq> i" if p: "p < 8" "x div 2 ^ p \<in> set (F p)" for x p
  proof (cases "p \<le> k")
    case True
    with clearD(1) [OF assms(1) True p(2)] show ?thesis by (simp add: div_pow_add)
  next
    case False
    then have "x div 2 ^ k div 2 ^ (p - k) = x div 2 ^ p" by (simp add: div_pow_add)
    with False clearD(2) [OF assms(1), of p] p show ?thesis by auto
  qed
  then show ?thesis unfolding set_eq_iff Int_iff fpages_iff block_pages_iff by blast
qed

lemma disjoint_clear:
  assumes "fpages F \<inter> block_pages k i = {}" and "k < 8"
  shows "clear F k i"
proof (rule clearI)
  fix q x assume q: "q \<le> k" "x \<in> set (F q)"
  have "x * 2 ^ q \<in> fpages F" using q assms(2) by (auto simp: fpages_iff intro!: exI [of _ q])
  then have "x * 2 ^ q div 2 ^ k \<noteq> i" using assms(1) by (auto simp: block_pages_iff)
  moreover have "x * 2 ^ q div 2 ^ k = x div 2 ^ (k - q)"
    using div_pow_add [of "x * 2 ^ q" q "k - q"] q(1) by simp
  ultimately show "x div 2 ^ (k - q) \<noteq> i" by simp
next
  fix p assume p: "k < p" "p < 8"
  have "i * 2 ^ k \<in> block_pages k i" by (simp add: block_pages_iff)
  then have "i * 2 ^ k \<notin> fpages F" using assms(1) by blast
  then have "i * 2 ^ k div 2 ^ p \<notin> set (F p)" using p(2) unfolding fpages_iff by blast
  moreover have "i * 2 ^ k div 2 ^ p = i div 2 ^ (p - k)"
    using div_pow_add [of "i * 2 ^ k" k "p - k"] p(1) by simp
  ultimately show "i div 2 ^ (p - k) \<notin> set (F p)" by simp
qed

lemma taken_pages:
  assumes "frees g F n" and "k < 8" and "F k = i # is"
  shows "fpages (F(k := is)) = fpages F - block_pages k i" and "block_pages k i \<subseteq> fpages F"
    and "fcount (F(k := is)) + 2 ^ k = fcount F"
proof -
  have F: "F = F(k := i # is)" using assms(3) by (simp add: fun_upd_idem)
  have "fpages F = fpages (F(k := is)) \<union> block_pages k i"
    by (subst F) (simp add: fpages_upd [OF assms(2), of F "i # is"] fpages_upd [OF assms(2), of F "is"] Un_ac)
  then show "fpages (F(k := is)) = fpages F - block_pages k i" "block_pages k i \<subseteq> fpages F"
    using clear_disjoint [OF clear_taken [OF assms] assms(2)] by auto
  show "fcount (F(k := is)) + 2 ^ k = fcount F"
    using fcount_upd [OF assms(2), of F "is"] assms(3) by simp
qed

text \<open>Allocating from a group with a free block of the order.\<close>

lemma group_take:
  assumes fr: "frees g F n" and par: "parity g F n" and k: "k < 8" and ne: "pg_freelist g k \<noteq> []"
  shows "\<exists>a g1 g2 i. fp_remove_head k g = Some (a, g1) \<and> flip_parent k a g1 = Some g2 \<and> group_inv g2 \<and>
      a = blk g k i \<and> i < n * 2 ^ (7 - k) \<and> blk g2 = blk g \<and> group_range g2 = group_range g \<and>
      {a ..< a + 2 ^ k * 4096} \<subseteq> free_addrs g \<and>
      free_addrs g2 = free_addrs g - {a ..< a + 2 ^ k * 4096} \<and> group_count g2 + 2 ^ k = group_count g"
proof -
  from ne freesD(3) [OF fr k] obtain i "is" where F: "F k = i # is" by (cases "F k") auto
  from take_head [OF fr par k F] obtain g1 g2 where
    run: "fp_remove_head k g = Some (blk g k i, g1)" "flip_parent k (blk g k i) g1 = Some g2"
    and g2: "frees g2 (F(k := is)) n" "parity g2 (F(k := is)) n" "blk g2 = blk g" by blast
  note pg = taken_pages [OF fr k F]
  let ?B = "{blk g k i ..< blk g k i + 2 ^ k * 4096}"
  have base: "pg_baseaddr g2 = pg_baseaddr g" using blk_base [OF g2(3)] .
  have B: "pg_baseaddr g \<le> a \<and> (a - pg_baseaddr g) div 4096 \<in> block_pages k i" if "a \<in> ?B" for a
    using that block_addrs [of g a k i] by (auto simp: blk_def)
  have "?B \<subseteq> free_addrs g" using B pg(2) free_addrs_iff [OF fr] by blast
  moreover have "free_addrs g2 = free_addrs g - ?B"
    unfolding set_eq_iff Diff_iff free_addrs_iff [OF fr] free_addrs_iff [OF g2(1)] base pg(1)
    using block_addrs [of g _ k i] B by blast
  moreover have "group_count g2 + 2 ^ k = group_count g"
    using pg(3) by (simp add: group_count_frees [OF fr] group_count_frees [OF g2(1)])
  moreover have "i < n * 2 ^ (7 - k)" using freesD(5) [OF fr k] F by simp
  ultimately show ?thesis
    using run g2 blk_range(1) [OF fr g2(1,3)] unfolding group_inv_def by blast
qed


text \<open>Freeing a block of a group that is not free.\<close>

lemma group_release:
  assumes fr: "frees g F n" and par: "parity g F n" and k: "k < 8" and i: "i < n * 2 ^ (7 - k)"
    and dis: "{blk g k i ..< blk g k i + 2 ^ k * 4096} \<inter> free_addrs g = {}"
  shows "\<exists>g1 g2. flip_parent k (blk g k i) (fp_insert_head k (blk g k i) g) = Some g1 \<and>
      (if k < 7 then page_join k (blk g k i) g1 else Some g1) = Some g2 \<and> group_inv g2 \<and>
      blk g2 = blk g \<and> group_range g2 = group_range g \<and>
      free_addrs g2 = free_addrs g \<union> {blk g k i ..< blk g k i + 2 ^ k * 4096} \<and>
      group_count g2 = group_count g + 2 ^ k"
proof -
  let ?B = "{blk g k i ..< blk g k i + 2 ^ k * 4096}" and ?F = "F(k := i # F k)"
  have mid: "pg_baseaddr g + x * 4096 \<in> ?B \<longleftrightarrow> x \<in> block_pages k i"
    "pg_baseaddr g + x * 4096 \<in> free_addrs g \<longleftrightarrow> x \<in> fpages F" for x
    using block_addrs [of g "pg_baseaddr g + x * 4096" k i] free_addrs_iff [OF fr, of "pg_baseaddr g + x * 4096"]
    by auto
  have "fpages F \<inter> block_pages k i = {}" using dis mid by blast
  then have cl: "clear F k i" using k by (rule disjoint_clear)
  have ins: "frees (fp_insert_head k (blk g k i) g) ?F n" using frees_insert [OF fr k i cl] .
  have "i \<notin> set (F k)" using clearD(1) [OF cl, of k i] by auto
  then have tog: "x \<in> set (i # F k) \<longleftrightarrow> (x \<in> set (F k)) \<noteq> (x = i)" for x by auto
  from flip_parent_rep [OF ins par k i _ tog] obtain g1 where
    g1: "flip_parent k (blk g k i) (fp_insert_head k (blk g k i) g) = Some g1" "frees g1 ?F n"
      "parity g1 ?F n" "blk g1 = blk g" by auto
  have "i \<in> set (?F k)" by simp
  from page_join_rep [OF g1(2,3) k this, unfolded g1(4)] g1(2-4) obtain g2 F' where
    g2: "(if k < 7 then page_join k (blk g k i) g1 else Some g1) = Some g2" "blk g2 = blk g"
      "frees g2 F' n" "parity g2 F' n" "fpages F' = fpages ?F" "fcount F' = fcount ?F"
    by metis
  have pages: "fpages ?F = fpages F \<union> block_pages k i"
    using fpages_upd [OF k, of F "i # F k"] fpages_upd [OF k, of F "F k"] by (simp add: Un_ac fun_upd_idem)
  have B: "pg_baseaddr g \<le> a \<and> (a - pg_baseaddr g) div 4096 \<in> block_pages k i \<longleftrightarrow> a \<in> ?B" for a
    using block_addrs [of g a k i] by (cases "pg_baseaddr g \<le> a") (auto simp: blk_def)
  have "free_addrs g2 = free_addrs g \<union> ?B"
    unfolding set_eq_iff Un_iff free_addrs_iff [OF fr] free_addrs_iff [OF g2(3)] blk_base [OF g2(2)] g2(5) pages
    using B by blast
  moreover have "group_count g2 = group_count g + 2 ^ k"
    using g2(6) fcount_upd [OF k, of F "i # F k"]
    by (simp add: group_count_frees [OF fr] group_count_frees [OF g2(3)])
  ultimately show ?thesis
    using g1(1) g2 blk_range(1) [OF fr g2(3,2)] unfolding group_inv_def by blast
qed

lemma group_split:
  assumes "group_inv g" and "q \<le> k" and "k < 8" and "pg_freelist g k \<noteq> []"
  shows "\<exists>g'. split_down k q g = Some g' \<and> group_inv g' \<and> pg_freelist g' q \<noteq> [] \<and> blk g' = blk g \<and>
      group_range g' = group_range g \<and> free_addrs g' = free_addrs g \<and> group_count g' = group_count g"
proof -
  from assms(1) obtain F n where fr: "frees g F n" "parity g F n" by (auto simp: group_inv_def)
  have "F k \<noteq> []" using assms(4) freesD(3) [OF fr(1) assms(3)] by simp
  from split_down_rep [OF fr assms(2,3) this] obtain g' F' where
    g': "split_down k q g = Some g'" "blk g' = blk g" "frees g' F' n" "parity g' F' n" "F' q \<noteq> []"
      "fpages F' = fpages F" "fcount F' = fcount F" by blast
  have "pg_freelist g' q \<noteq> []" using g'(5) freesD(3) [OF g'(3), of q] assms(2,3) by simp
  with g' show ?thesis
    using free_addrs_same [OF fr(1) g'(3,2,6)] blk_range(1) [OF fr(1) g'(3,2)]
      group_count_frees [OF fr(1)] group_count_frees [OF g'(3)] unfolding group_inv_def by metis
qed

end
