(* ===== verification/Page_System.thy ===== *)
theory Page_System
  imports Page "HOL-Library.Multiset"
begin

text \<open>
  The page allocator as its callers see it: what allocating and freeing do to the free memory of
  all groups together, the allocator interface as a locale with the facts its clients use, and the
  properties of the component.
\<close>

section \<open>Replacing one group\<close>

lemma free_mem_nth:
  "free_mem s = (\<Union>i < length (pagegroup_list s). free_addrs (pagegroup_list s ! i))"
  by (simp add: free_mem_def set_conv_nth) blast

lemma sum_list_upd:
  assumes "k < length xs"
  shows "sum_list (map f (xs[k := y])) + f (xs ! k) = sum_list (map f xs) + (f y :: nat)"
  using assms by (induction xs arbitrary: k) (auto simp: nth_Cons split: nat.splits)

lemma disjoint_mono: "A \<inter> C = {} \<Longrightarrow> B \<subseteq> C \<Longrightarrow> A \<inter> B = {}"
  by blast

lemma wrap_diff:
  fixes a b m :: nat
  assumes "a \<le> b" and "b < m"
  shows "(b + m - a) mod m = b - a"
proof -
  have "b + m - a = (b - a) + m" using assms(1) by simp
  then show ?thesis using assms(2) by (simp only: mod_add_self2) simp
qed

lemma pages_inv_group:
  assumes "pages_inv s" and "k < length (pagegroup_list s)"
  shows "group_inv (pagegroup_list s ! k)"
  using assms by (auto simp: pages_inv_def)

lemma free_addrs_group: "group_inv g \<Longrightarrow> free_addrs g \<subseteq> group_range g"
  by (auto simp: group_inv_def dest: free_addrs_range)

lemma pages_inv_disjoint:
  assumes "pages_inv s" and "i < length (pagegroup_list s)" and "k < length (pagegroup_list s)" and "i \<noteq> k"
  shows "group_range (pagegroup_list s ! i) \<inter> group_range (pagegroup_list s ! k) = {}"
proof (cases "i < k")
  case True
  with assms show ?thesis by (simp add: pages_inv_def sorted_wrt_iff_nth_less)
next
  case False
  with assms have "k < i" by simp
  with assms have "group_range (pagegroup_list s ! k) \<inter> group_range (pagegroup_list s ! i) = {}"
    by (simp add: pages_inv_def sorted_wrt_iff_nth_less)
  then show ?thesis by blast
qed

lemma pages_inv_replace:
  assumes inv: "pages_inv s" and k: "k < length (pagegroup_list s)" and g': "group_inv g'"
    "group_range g' = group_range (pagegroup_list s ! k)"
    and cnt: "c + group_count (pagegroup_list s ! k) = page_freecount s + group_count g'" "c < 2 ^ 32"
  shows "pages_inv (s\<lparr>pagegroup_list := (pagegroup_list s)[k := g'], page_freecount := c\<rparr>)"
proof -
  let ?l = "pagegroup_list s"
  have "\<forall>g \<in> set (?l[k := g']). group_inv g"
    using inv g'(1) set_update_subset_insert [of ?l k g'] by (auto simp: pages_inv_def)
  moreover have "sorted_wrt (\<lambda>g h. group_range g \<inter> group_range h = {}) (?l[k := g'])"
    unfolding sorted_wrt_iff_nth_less
  proof (intro allI impI)
    fix i j assume "i < j" "j < length (?l[k := g'])"
    then show "group_range (?l[k := g'] ! i) \<inter> group_range (?l[k := g'] ! j) = {}"
      using pages_inv_disjoint [OF inv, of i j] g'(2) k by (auto simp: nth_list_update)
  qed
  moreover have "c = sum_list (map group_count (?l[k := g']))"
    using cnt(1) inv sum_list_upd [OF k, of group_count g'] by (simp add: pages_inv_def)
  ultimately show ?thesis using cnt(2) by (simp add: pages_inv_def)
qed

lemma free_mem_replace:
  assumes inv: "pages_inv s" and k: "k < length (pagegroup_list s)" and B: "B \<subseteq> group_range (pagegroup_list s ! k)"
  shows "free_addrs g' = free_addrs (pagegroup_list s ! k) - B \<Longrightarrow>
      free_mem (s\<lparr>pagegroup_list := (pagegroup_list s)[k := g'], page_freecount := c\<rparr>) = free_mem s - B"
    and "free_addrs g' = free_addrs (pagegroup_list s ! k) \<union> B \<Longrightarrow>
      free_mem (s\<lparr>pagegroup_list := (pagegroup_list s)[k := g'], page_freecount := c\<rparr>) = free_mem s \<union> B"
proof -
  let ?l = "pagegroup_list s"
  have other: "free_addrs (?l ! i) \<inter> B = {}" if "i < length ?l" "i \<noteq> k" for i
  proof -
    from pages_inv_group [OF inv that(1)] obtain F n where "frees (?l ! i) F n" by (auto simp: group_inv_def)
    from free_addrs_range [OF this] pages_inv_disjoint [OF inv that(1) k that(2)] B show ?thesis by blast
  qed
  have split: "(\<Union>i < length ?l. f i) = f k \<union> (\<Union>i \<in> {..< length ?l} - {k}. f i)" for f :: "nat \<Rightarrow> nat set"
    using k by auto
  have upd: "(\<Union>i \<in> {..< length ?l} - {k}. free_addrs (?l[k := g'] ! i)) =
      (\<Union>i \<in> {..< length ?l} - {k}. free_addrs (?l ! i))" by auto
  show "free_addrs g' = free_addrs (?l ! k) - B \<Longrightarrow>
      free_mem (s\<lparr>pagegroup_list := ?l[k := g'], page_freecount := c\<rparr>) = free_mem s - B"
    unfolding free_mem_nth using other k by (simp add: split upd) blast
  show "free_addrs g' = free_addrs (?l ! k) \<union> B \<Longrightarrow>
      free_mem (s\<lparr>pagegroup_list := ?l[k := g'], page_freecount := c\<rparr>) = free_mem s \<union> B"
    unfolding free_mem_nth using k by (simp add: split upd) blast
qed


lemma Bex_set_nth: "(\<exists>x \<in> set xs. P x) \<longleftrightarrow> (\<exists>i < length xs. P (xs ! i))"
  by (metis in_set_conv_nth)

lemma valid_block_nth:
  "valid_block p s a \<longleftrightarrow> (\<exists>i < length (pagegroup_list s). let g = pagegroup_list s ! i in
     pg_baseaddr g \<le> a \<and> a < pg_endaddr g \<and> (a - pg_baseaddr g) mod (2 ^ p * 4096) = 0)"
  unfolding valid_block_def Let_def by (rule Bex_set_nth)

lemma valid_block_replace:
  assumes "k < length (pagegroup_list s)" and "blk g' = blk (pagegroup_list s ! k)"
    and "group_inv g'" and "group_range g' = group_range (pagegroup_list s ! k)"
    and "group_inv (pagegroup_list s ! k)"
  shows "valid_block p (s\<lparr>pagegroup_list := (pagegroup_list s)[k := g'], page_freecount := c\<rparr>) = valid_block p s"
proof -
  let ?g = "pagegroup_list s ! k"
  have base: "pg_baseaddr g' = pg_baseaddr ?g" using blk_base [OF assms(2)] .
  have "pg_baseaddr g' \<le> pg_endaddr g'" "pg_baseaddr ?g \<le> pg_endaddr ?g"
    using assms(3,5) by (auto simp: group_inv_def dest: freesD(2))
  moreover have "card (group_range g') = card (group_range ?g)" using assms(4) by simp
  ultimately have "pg_endaddr g' = pg_endaddr ?g" using base by (simp add: group_range_def)
  with base have "(pg_baseaddr ((pagegroup_list s)[k := g'] ! i), pg_endaddr ((pagegroup_list s)[k := g'] ! i)) =
      (pg_baseaddr (pagegroup_list s ! i), pg_endaddr (pagegroup_list s ! i))" for i
    using assms(1) by (cases "i = k") auto
  then show ?thesis unfolding valid_block_nth fun_eq_iff Let_def by simp
qed

section \<open>Allocating\<close>

lemma page_take_inv:
  assumes inv: "pages_inv s" and k: "k < 8" and j: "j < length (pagegroup_list s)"
    and ne: "pg_freelist (pagegroup_list s ! j) k \<noteq> []"
  shows "\<exists>a s'. page_take k j s = Some (Some a, s') \<and> pages_inv s' \<and>
      {a ..< a + 2 ^ k * 4096} \<subseteq> free_mem s \<and> free_mem s' = free_mem s - {a ..< a + 2 ^ k * 4096} \<and>
      page_freecount s = page_freecount s' + 2 ^ k \<and> valid_block k s a \<and>
      (\<forall>p. valid_block p s' = valid_block p s)"
proof -
  let ?g = "pagegroup_list s ! j"
  from pages_inv_group [OF inv j] obtain F n where fr: "frees ?g F n" "parity ?g F n"
    by (auto simp: group_inv_def)
  from group_take [OF fr k ne] obtain a g1 g2 i where
    run: "fp_remove_head k ?g = Some (a, g1)" "flip_parent k a g1 = Some g2" and
    g2: "group_inv g2" "a = blk ?g k i" "i < n * 2 ^ (7 - k)" "blk g2 = blk ?g" "group_range g2 = group_range ?g"
      "{a ..< a + 2 ^ k * 4096} \<subseteq> free_addrs ?g" "free_addrs g2 = free_addrs ?g - {a ..< a + 2 ^ k * 4096}"
      "group_count g2 + 2 ^ k = group_count ?g" by blast
  have "group_count ?g \<le> page_freecount s"
    using inv j member_le_sum_list [of "group_count ?g" "map group_count (pagegroup_list s)"]
    by (simp add: pages_inv_def)
  then have le: "2 ^ k \<le> page_freecount s" using g2(8) by simp
  define c where "c = (page_freecount s + 2 ^ 32 - 2 ^ k) mod 2 ^ 32"
  have "page_freecount s < 2 ^ 32" using inv by (simp add: pages_inv_def)
  then have "c = page_freecount s - 2 ^ k" unfolding c_def using le by (intro wrap_diff)
  then have c: "page_freecount s = c + 2 ^ k" "c < 2 ^ 32"
    using le \<open>page_freecount s < 2 ^ 32\<close> by auto
  let ?s = "s\<lparr>pagegroup_list := (pagegroup_list s)[j := g2], page_freecount := c\<rparr>"
  have "page_take k j s = Some (Some a, ?s)" using run by (simp add: page_take_def c_def)
  moreover have "pages_inv ?s"
    by (rule pages_inv_replace [OF inv j g2(1,5)]) (use c g2(8) in auto)
  moreover have B: "{a ..< a + 2 ^ k * 4096} \<subseteq> group_range ?g"
    using g2(6) free_addrs_range [OF fr(1)] by blast
  moreover have "free_mem ?s = free_mem s - {a ..< a + 2 ^ k * 4096}"
    using free_mem_replace(1) [OF inv j B g2(7)] .
  moreover have "{a ..< a + 2 ^ k * 4096} \<subseteq> free_mem s" using g2(6) j unfolding free_mem_nth by blast
  moreover have "valid_block k s a"
  proof -
    have "a \<in> group_range ?g" using B by auto
    moreover have "(a - pg_baseaddr ?g) mod (2 ^ k * 4096) = 0" by (simp add: g2(2) blk_def mult.assoc)
    ultimately show ?thesis using j unfolding valid_block_nth group_range_def Let_def by auto
  qed
  moreover have "\<forall>p. valid_block p ?s = valid_block p s"
    using valid_block_replace [OF j g2(4,1,5) pages_inv_group [OF inv j]] by blast
  ultimately show ?thesis using c(1) by auto
qed

lemma find_group_Some:
  assumes "find_group k s = Some j"
  shows "j < length (pagegroup_list s)" and "pg_freelist (pagegroup_list s ! j) k \<noteq> []"
  using assms by (auto simp: find_group_def Let_def find_Some_iff)

lemma find_group_None:
  assumes "find_group k s = None" and "g \<in> set (pagegroup_list s)"
  shows "pg_freelist g k = []"
  using assms by (auto simp: find_group_def Let_def find_None_iff in_set_conv_nth)

lemma page_split_orders_inv:
  assumes "pages_inv s" and "\<forall>p \<in> set ps. q < p \<and> p < 8"
  shows "(\<exists>j s'. page_split_orders ps q s = Some (Some j, s') \<and> pages_inv s' \<and>
        j < length (pagegroup_list s') \<and> pg_freelist (pagegroup_list s' ! j) q \<noteq> [] \<and>
        free_mem s' = free_mem s \<and> page_freecount s' = page_freecount s \<and>
        (\<forall>p. valid_block p s' = valid_block p s)) \<or>
      page_split_orders ps q s = Some (None, s) \<and> (\<forall>p \<in> set ps. \<forall>g \<in> set (pagegroup_list s). pg_freelist g p = [])"
  using assms
proof (induction ps)
  case Nil
  then show ?case by simp
next
  case (Cons p ps)
  show ?case
  proof (cases "find_group p s")
    case None
    then have step: "page_split_orders (p # ps) q s = page_split_orders ps q s" by simp
    have "\<forall>p \<in> set ps. q < p \<and> p < 8" using Cons.prems(2) by simp
    note IH = Cons.IH [OF Cons.prems(1) this]
    have "\<forall>g \<in> set (pagegroup_list s). pg_freelist g p = []" using find_group_None [OF None] by blast
    with IH show ?thesis unfolding step by (simp only: set_simps ball_simps) blast
  next
    case (Some j)
    note j = find_group_Some [OF Some]
    let ?g = "pagegroup_list s ! j"
    have "group_inv ?g" "q \<le> p" "p < 8" using Cons.prems pages_inv_group [OF _ j(1)] by auto
    from group_split [OF this j(2)] obtain g' where
      g': "split_down p q ?g = Some g'" "group_inv g'" "pg_freelist g' q \<noteq> []" "blk g' = blk ?g"
        "group_range g' = group_range ?g" "free_addrs g' = free_addrs ?g" "group_count g' = group_count ?g"
      by blast
    let ?s = "s\<lparr>pagegroup_list := (pagegroup_list s)[j := g']\<rparr>"
    let ?t = "s\<lparr>pagegroup_list := (pagegroup_list s)[j := g'], page_freecount := page_freecount s\<rparr>"
    have eq: "?t = ?s" by simp
    have "pages_inv ?t"
      by (rule pages_inv_replace [OF Cons.prems(1) j(1) g'(2,5)])
        (use g'(7) Cons.prems(1) in \<open>simp_all add: pages_inv_def\<close>)
    moreover have "free_mem ?t = free_mem s"
      using free_mem_replace(1) [OF Cons.prems(1) j(1), of "{}" g' "page_freecount s"] g'(6) by simp
    moreover have "\<forall>p. valid_block p ?t = valid_block p s"
      using valid_block_replace [OF j(1) g'(4,2,5) \<open>group_inv ?g\<close>] by blast
    ultimately have "pages_inv ?s" "free_mem ?s = free_mem s" "\<forall>p. valid_block p ?s = valid_block p s"
      unfolding eq by blast+
    moreover have "page_split_orders (p # ps) q s = Some (Some j, ?s)" using Some g'(1,3) by simp
    moreover have "j < length (pagegroup_list ?s)" "pg_freelist (pagegroup_list ?s ! j) q \<noteq> []"
      "page_freecount ?s = page_freecount s" using j(1) g'(3) by simp_all
    ultimately show ?thesis by blast
  qed
qed


text \<open>Allocating a block of \<open>2 ^ k\<close> pages, when one is to be had and when not.\<close>

definition no_block :: "nat \<Rightarrow> pages \<Rightarrow> bool" where
  "no_block k s \<longleftrightarrow> (\<forall>p \<in> {k ..< 8}. \<forall>g \<in> set (pagegroup_list s). pg_freelist g p = [])"

lemma page_alloc_order_inv:
  assumes inv: "pages_inv s" and k: "k < 8"
  shows "(\<exists>a s'. page_alloc_order reclaim k s = Some (Some a, s') \<and> pages_inv s' \<and>
        {a ..< a + 2 ^ k * 4096} \<subseteq> free_mem s \<and> free_mem s' = free_mem s - {a ..< a + 2 ^ k * 4096} \<and>
        page_freecount s = page_freecount s' + 2 ^ k \<and> valid_block k s a \<and>
        (\<forall>p. valid_block p s' = valid_block p s)) \<or>
      no_block k s \<and> page_alloc_order reclaim k s = map_option (Pair None) (reclaim s)"
proof (cases "find_group k s")
  case (Some j)
  note j = find_group_Some [OF Some]
  from page_take_inv [OF inv k j] Some show ?thesis by (simp add: page_alloc_order_def)
next
  case None
  have "\<forall>p \<in> set [k + 1 ..< 8]. k < p \<and> p < 8" by auto
  from page_split_orders_inv [OF inv this] show ?thesis
  proof (elim disjE exE conjE)
    fix j s1 assume s1: "page_split_orders [k + 1 ..< 8] k s = Some (Some j, s1)" "pages_inv s1"
      "j < length (pagegroup_list s1)" "pg_freelist (pagegroup_list s1 ! j) k \<noteq> []"
      "free_mem s1 = free_mem s" "page_freecount s1 = page_freecount s" "\<forall>p. valid_block p s1 = valid_block p s"
    have "page_split reclaim k s = Some (Some j, s1)" using s1(1) by (simp add: page_split_def)
    with None s1(4) have "page_alloc_order reclaim k s = page_take k j s1"
      by (simp add: page_alloc_order_def)
    with page_take_inv [OF s1(2) k s1(3,4)] s1(5-7) show ?thesis by auto
  next
    assume none: "page_split_orders [k + 1 ..< 8] k s = Some (None, s)"
      "\<forall>p \<in> set [k + 1 ..< 8]. \<forall>g \<in> set (pagegroup_list s). pg_freelist g p = []"
    have "no_block k s"
      unfolding no_block_def
    proof (intro ballI)
      fix p g assume "p \<in> {k ..< 8}" "g \<in> set (pagegroup_list s)"
      then show "pg_freelist g p = []"
        using none(2) find_group_None [OF None] by (cases "p = k") auto
    qed
    moreover have "page_split reclaim k s = map_option (Pair None) (reclaim s)"
      using none(1) by (cases "reclaim s") (simp_all add: page_split_def)
    ultimately show ?thesis
      using None by (cases "reclaim s") (auto simp: page_alloc_order_def)
  qed
qed

section \<open>Freeing\<close>

lemma page_free_order_inv:
  assumes inv: "pages_inv s" and k: "k < 8" and v: "valid_block k s a"
    and dis: "{a ..< a + 2 ^ k * 4096} \<inter> free_mem s = {}"
    and room: "page_freecount s + 2 ^ k < 2 ^ 32"
  shows "\<exists>s'. page_free_order a k s = Some s' \<and> pages_inv s' \<and>
      free_mem s' = free_mem s \<union> {a ..< a + 2 ^ k * 4096} \<and>
      page_freecount s' = page_freecount s + 2 ^ k \<and> (\<forall>p. valid_block p s' = valid_block p s)"
proof -
  let ?l = "pagegroup_list s"
  from v obtain j where j: "j < length ?l" "pg_baseaddr (?l ! j) \<le> a" "a < pg_endaddr (?l ! j)"
    "(a - pg_baseaddr (?l ! j)) mod (2 ^ k * 4096) = 0"
    unfolding valid_block_nth Let_def by (elim exE conjE) (rule that)
  let ?g = "?l ! j"
  have uniq: "i = j" if "i < length ?l" "pg_baseaddr (?l ! i) \<le> a \<and> a < pg_endaddr (?l ! i)" for i
  proof -
    have "a \<in> group_range (?l ! i)" "a \<in> group_range (?l ! j)" using that(2) j(2,3) by (simp_all add: group_range_def)
    then show ?thesis using pages_inv_disjoint [OF inv that(1) j(1)] by blast
  qed
  have grp: "pagegroup_from_address a s = Some j"
    unfolding pagegroup_from_address_def Let_def by (rule find_unique) (use j uniq in blast)+
  from pages_inv_group [OF inv j(1)] obtain F n where fr: "frees ?g F n" "parity ?g F n"
    by (auto simp: group_inv_def)
  define i where "i = (a - pg_baseaddr ?g) div (2 ^ k * 4096)"
  have off: "a - pg_baseaddr ?g = i * (2 ^ k * 4096)"
    using div_mult_mod_eq [of "a - pg_baseaddr ?g" "2 ^ k * 4096"] unfolding j(4) i_def by (simp only: add_0_right)
  then have a: "a = blk ?g k i" using j(2) by (simp add: blk_def mult.assoc)
  have "i * (2 ^ k * 4096) < n * 2 ^ 7 * 4096" using off j(2,3) freesD(2) [OF fr(1)] by simp
  moreover have "n * 2 ^ 7 * 4096 = n * 2 ^ (7 - k) * (2 ^ k * 4096)"
    using k by (simp add: mult.assoc flip: power_add)
  ultimately have i: "i < n * 2 ^ (7 - k)" by (simp only: mult_less_cancel2)
  have "free_addrs ?g \<subseteq> free_mem s" unfolding free_mem_def by (rule UN_upper) (rule nth_mem [OF j(1)])
  with dis have "{a ..< a + 2 ^ k * 4096} \<inter> free_addrs ?g = {}" by (rule disjoint_mono)
  from group_release [OF fr k i, folded a, OF this] obtain g1 g2 where
    run: "flip_parent k a (fp_insert_head k a ?g) = Some g1"
      "(if k < 7 then page_join k a g1 else Some g1) = Some g2" and
    g2: "group_inv g2" "blk g2 = blk ?g" "group_range g2 = group_range ?g"
      "free_addrs g2 = free_addrs ?g \<union> {a ..< a + 2 ^ k * 4096}" "group_count g2 = group_count ?g + 2 ^ k"
    by blast
  define c where "c = (page_freecount s + 2 ^ k) mod 2 ^ 32"
  have c: "c = page_freecount s + 2 ^ k" using room by (simp add: c_def)
  let ?s = "s\<lparr>pagegroup_list := ?l[j := g2], page_freecount := c\<rparr>"
  have "page_free_order a k s = Some ?s" using grp run by (simp add: page_free_order_def c_def)
  moreover have "pages_inv ?s"
    by (rule pages_inv_replace [OF inv j(1) g2(1,3)]) (use c g2(5) room in simp_all)
  moreover have B: "{a ..< a + 2 ^ k * 4096} \<subseteq> group_range ?g"
    using free_addrs_group [OF g2(1)] unfolding g2(3,4) by (rule Un_subset_iff [THEN iffD1, THEN conjunct2])
  moreover have "free_mem ?s = free_mem s \<union> {a ..< a + 2 ^ k * 4096}"
    using free_mem_replace(2) [OF inv j(1) B g2(4)] .
  moreover have "\<forall>p. valid_block p ?s = valid_block p s"
    using valid_block_replace [OF j(1) g2(2,1,3) pages_inv_group [OF inv j(1)]] by blast
  moreover have "page_freecount ?s = page_freecount s + 2 ^ k" by (simp add: c)
  ultimately show ?thesis by blast
qed


section \<open>Adding a range of memory\<close>

lemma small_blocks_none:
  assumes "\<forall>k \<in> set ks. even (m div 2 ^ k)"
  shows "small_blocks m e ks = (e, \<lambda>_. [])"
  using assms by (induction ks) (auto simp: fun_upd_idem_iff)

lemma large_blocks_eq:
  "large_blocks c (c + n * (128 * 4096)) fl = rev (map (\<lambda>i. c + i * (128 * 4096)) [0 ..< n]) @ fl"
proof (induction n arbitrary: c fl)
  case 0
  then show ?case by (simp add: large_blocks.simps)
next
  case (Suc n)
  have "large_blocks c (c + Suc n * (128 * 4096)) fl =
      large_blocks (c + 128 * 4096) (c + 128 * 4096 + n * (128 * 4096)) (c # fl)"
    by (subst large_blocks.simps) (simp add: algebra_simps)
  also have "\<dots> = rev (map (\<lambda>i. c + 128 * 4096 + i * (128 * 4096)) [0 ..< n]) @ c # fl"
    by (rule Suc.IH)
  also have "\<dots> = rev (c # map (\<lambda>i. c + 128 * 4096 + i * (128 * 4096)) [0 ..< n]) @ fl" by simp
  also have "c # map (\<lambda>i. c + 128 * 4096 + i * (128 * 4096)) [0 ..< n] =
      map (\<lambda>i. c + i * (128 * 4096)) [0 ..< Suc n]"
    by (rule nth_equalityI) (auto simp: nth_Cons split: nat.splits simp del: upt_Suc)
  finally show ?case .
qed

text \<open>A group whose free lists hold all its blocks of the largest order.\<close>

lemma whole_group:
  assumes "pg_baseaddr g mod 4096 = 0" and "pg_endaddr g = pg_baseaddr g + n * (128 * 4096)"
    and "pg_freelist g = (\<lambda>_. [])(7 := rev (map (\<lambda>i. pg_baseaddr g + i * (128 * 4096)) [0 ..< n]))"
    and "pg_map g = (\<lambda>_ _. False)"
  shows "group_inv g" and "free_addrs g = group_range g" and "group_count g = n * 128"
proof -
  define F :: "nat \<Rightarrow> nat list" where "F = (\<lambda>_. [])(7 := rev [0 ..< n])"
  have fl: "pg_freelist g k = map (blk g k) (F k)" if "k < 8" for k
    using assms(3) by (auto simp: F_def blk_def rev_map)
  have fr: "frees g F n"
    by (rule freesI) (use assms(1,2) fl in \<open>auto simp: F_def split: if_splits\<close>)
  moreover have "parity g F n" using assms(4) by (simp add: parity_def F_def)
  ultimately show "group_inv g" by (auto simp: group_inv_def)
  have "group_range g \<subseteq> free_addrs g"
  proof
    fix a assume a: "a \<in> group_range g"
    let ?o = "(a - pg_baseaddr g) div 4096"
    have "?o div 128 < n" using a assms(2) by (auto simp: group_range_def div_less_iff_less_mult)
    then have "?o div 2 ^ 7 \<in> set (F 7)" by (simp add: F_def)
    then have "?o \<in> fpages F" unfolding fpages_iff by (intro exI [of _ 7]) simp
    then show "a \<in> free_addrs g" using a by (simp add: free_addrs_iff [OF fr] group_range_def)
  qed
  with free_addrs_range [OF fr] show "free_addrs g = group_range g" by blast
  have "{..< 8 :: nat} = {0, 1, 2, 3, 4, 5, 6, 7}" by auto
  then show "group_count g = n * 128" by (simp add: group_count_def assms(3))
qed


lemma pagegroup_create_whole:
  assumes run: "pagegroup_create start stop = Some g" and al: "start mod 4096 = 0" and lt: "start < 2 ^ 32"
    and ne: "pg_baseaddr g \<le> pg_endaddr g" and whole: "(pg_endaddr g - pg_baseaddr g) mod (128 * 4096) = 0"
  shows "pg_baseaddr g = start" and "group_inv g" and "free_addrs g = group_range g"
    and "group_count g = (pg_endaddr g - pg_baseaddr g) div 4096"
proof -
  define e where "e = PAGE_ALIGN_DOWN (usub (usub stop 112) (map_space (usub stop start div 4096) [1, 2, 3, 4, 5, 6, 7]))"
  define m where "m = usub e start div 4096"
  obtain e2 fl where sb: "small_blocks m e [0, 1, 2, 3, 4, 5, 6] = (e2, fl)" by fastforce
  have g: "g = \<lparr>pg_freelist = fl(7 := large_blocks start e2 []), pg_map = (\<lambda>_ _. False),
      pg_baseaddr = start, pg_endaddr = e\<rparr>"
    using run sb unfolding pagegroup_create_def Let_def e_def [symmetric] m_def [symmetric]
    by auto
  show base: "pg_baseaddr g = start" by (simp add: g)
  have "e < 2 ^ 32" unfolding e_def PAGE_ALIGN_DOWN_def usub_def
    by (rule le_less_trans [OF div_times_less_eq_dividend]) simp
  moreover have le: "start \<le> e" using ne by (simp add: g)
  ultimately have m: "m = (e - start) div 4096" by (simp add: m_def usub_def wrap_diff)
  define n where "n = (e - start) div (128 * 4096)"
  have span: "e - start = n * (128 * 4096)" using whole div_mult_mod_eq [of "e - start" "128 * 4096"]
    by (simp add: g n_def)
  then have "m = n * 128" by (simp add: m)
  then have "small_blocks m e [0, 1, 2, 3, 4, 5, 6] = (e, \<lambda>_. [])"
    by (intro small_blocks_none) (auto simp: div_mult_swap elim!: evenE)
  with sb have sb': "e2 = e" "fl = (\<lambda>_. [])" by auto
  have e: "e = start + n * (128 * 4096)" using span le by simp
  have "pg_freelist g = (\<lambda>_. [])(7 := rev (map (\<lambda>i. pg_baseaddr g + i * (128 * 4096)) [0 ..< n]))"
    using large_blocks_eq [of start n "[]"] by (simp add: g sb' e)
  note whole_group [OF _ _ this]
  then show "group_inv g" "free_addrs g = group_range g"
    "group_count g = (pg_endaddr g - pg_baseaddr g) div 4096"
    using al e by (simp_all add: g)
qed


lemma pages_inv_append:
  assumes "pages_inv s" and "group_inv g" and "\<forall>h \<in> set (pagegroup_list s). group_range h \<inter> group_range g = {}"
    and "page_freecount s + group_count g < 2 ^ 32"
  shows "pages_inv (s\<lparr>pagegroup_list := pagegroup_list s @ [g],
      page_freecount := page_freecount s + group_count g\<rparr>)"
  using assms by (auto simp: pages_inv_def sorted_wrt_append)

lemma pages_inv_init: "pages_inv page_init"
  by (simp add: pages_inv_def page_init_def)

section \<open>The allocator as an interface\<close>

text \<open>Several allocations and several releases in a row.\<close>

fun allocs :: "('s \<Rightarrow> ('b option \<times> 's) option) \<Rightarrow> nat \<Rightarrow> 's \<Rightarrow> ('b list \<times> 's) option" where
  "allocs alloc 0 s = Some ([], s)"
| "allocs alloc (Suc n) s = do {
     (r, s1) \<leftarrow> alloc s; b \<leftarrow> r; (bs, s2) \<leftarrow> allocs alloc n s1; Some (b # bs, s2)
   }"

fun releases :: "('b \<Rightarrow> 's \<Rightarrow> 's option) \<Rightarrow> 'b list \<Rightarrow> 's \<Rightarrow> 's option" where
  "releases release [] s = Some s"
| "releases release (b # bs) s = do { s1 \<leftarrow> release b s; releases release bs s1 }"

text \<open>
  What a user of memory blocks relies on: a block that is handed out was free and is not any more,
  a block that is given back is free again, and nothing else changes.
\<close>

locale block_allocator =
  fixes inv :: "'s \<Rightarrow> bool" and mem :: "'s \<Rightarrow> 'a set" and cnt :: "'s \<Rightarrow> nat"
    and valid :: "'s \<Rightarrow> 'b \<Rightarrow> bool" and block :: "'b \<Rightarrow> 'a set" and size cap :: nat
    and alloc :: "'s \<Rightarrow> ('b option \<times> 's) option" and release :: "'b \<Rightarrow> 's \<Rightarrow> 's option"
  assumes block_ne: "block b \<noteq> {}"
    and cnt_cap: "inv s \<Longrightarrow> cnt s < cap"
    and alloc_laws: "inv s \<Longrightarrow> alloc s = Some (Some b, s') \<Longrightarrow>
      inv s' \<and> block b \<subseteq> mem s \<and> mem s' = mem s - block b \<and> cnt s = cnt s' + size \<and>
      valid s b \<and> valid s' = valid s"
    and release_laws: "inv s \<Longrightarrow> valid s b \<Longrightarrow> block b \<inter> mem s = {} \<Longrightarrow> cnt s + size < cap \<Longrightarrow>
      \<exists>s'. release b s = Some s' \<and> inv s' \<and> mem s' = mem s \<union> block b \<and> cnt s' = cnt s + size \<and>
        valid s' = valid s"
begin

lemma allocs_ok:
  assumes "inv s" and "allocs alloc n s = Some (bs, s')"
  shows "inv s' \<and> (\<forall>b \<in> set bs. block b \<subseteq> mem s \<and> valid s b) \<and> mem s' = mem s - (\<Union>b \<in> set bs. block b) \<and>
    cnt s = cnt s' + length bs * size \<and> valid s' = valid s \<and> length bs = n \<and> distinct bs \<and>
    pairwise (\<lambda>a b. block a \<inter> block b = {}) (set bs)"
  using assms
proof (induction n arbitrary: s bs)
  case 0
  then show ?case by simp
next
  case (Suc n)
  from Suc.prems(2) obtain b s1 bs1 where run: "alloc s = Some (Some b, s1)" "allocs alloc n s1 = Some (bs1, s')"
    "bs = b # bs1" by (auto simp: bind_eq_Some_conv)
  note law = alloc_laws [OF Suc.prems(1) run(1)]
  then have "inv s1" by simp
  note IH = Suc.IH [OF this run(2)]
  have "block c \<inter> block b = {}" if "c \<in> set bs1" for c using IH law that by blast
  moreover from this have "b \<notin> set bs1" using block_ne [of b] by blast
  ultimately show ?case using IH law run(3) by (auto simp: pairwise_insert)
qed

lemma releases_ok:
  assumes "inv s" and "\<forall>b \<in> set bs. valid s b \<and> block b \<inter> mem s = {}" and "distinct bs"
    and "pairwise (\<lambda>a b. block a \<inter> block b = {}) (set bs)" and "cnt s + length bs * size < cap"
  shows "\<exists>s'. releases release bs s = Some s' \<and> inv s' \<and> mem s' = mem s \<union> (\<Union>b \<in> set bs. block b) \<and>
    cnt s' = cnt s + length bs * size"
  using assms
proof (induction bs arbitrary: s)
  case Nil
  then show ?case by simp
next
  case (Cons b bs)
  have "cnt s + size < cap" using Cons.prems(5) by simp
  with release_laws [OF Cons.prems(1), of b] Cons.prems(2) obtain s1 where
    s1: "release b s = Some s1" "inv s1" "mem s1 = mem s \<union> block b" "cnt s1 = cnt s + size" "valid s1 = valid s"
    by auto
  have dis: "\<forall>c \<in> set bs. valid s1 c \<and> block c \<inter> mem s1 = {}"
  proof
    fix c assume c: "c \<in> set bs"
    then have "c \<noteq> b" using Cons.prems(3) by auto
    then have "block c \<inter> block b = {}" using Cons.prems(4) c by (auto simp: pairwise_insert)
    then show "valid s1 c \<and> block c \<inter> mem s1 = {}" using Cons.prems(2) c s1(3,5) by auto
  qed
  have "distinct bs" "pairwise (\<lambda>a b. block a \<inter> block b = {}) (set bs)" "cnt s1 + length bs * size < cap"
    using Cons.prems(3-5) s1(4) by (auto simp: pairwise_insert)
  from Cons.IH [OF s1(2) dis this] s1 show ?case by auto
qed

text \<open>Blocks handed out one after the other do not overlap, and giving them back in any order restores the free memory.\<close>

lemma alloc_release:
  assumes "inv s" and run: "allocs alloc n s = Some (bs, s')" and cs: "mset cs = mset bs"
  shows "pairwise (\<lambda>a b. block a \<inter> block b = {}) (set bs) \<and> distinct bs \<and>
    (\<exists>s2. releases release cs s' = Some s2 \<and> inv s2 \<and> mem s2 = mem s \<and> cnt s2 = cnt s)"
proof -
  note ok = allocs_ok [OF assms(1) run]
  have set: "set cs = set bs" using cs by (rule mset_eq_setD)
  moreover have "distinct cs" using ok cs by (metis mset_eq_imp_distinct_iff)
  moreover have "length cs = length bs" using cs by (rule mset_eq_length)
  moreover have "cnt s' + length bs * size < cap" using ok cnt_cap [OF assms(1)] by simp
  ultimately have "\<exists>s2. releases release cs s' = Some s2 \<and> inv s2 \<and> mem s2 = mem s' \<union> (\<Union>b \<in> set bs. block b) \<and>
      cnt s2 = cnt s' + length bs * size"
    using releases_ok [of s' cs] ok by auto
  moreover have "mem s' \<union> (\<Union>b \<in> set bs. block b) = mem s" using ok by blast
  ultimately show ?thesis using ok by auto
qed

end

text \<open>The page allocator at each order is such an allocator.\<close>

interpretation pageblk: block_allocator pages_inv free_mem page_freecount "valid_block (min 7 k)"
  "\<lambda>a. {a ..< a + 2 ^ min 7 k * 4096}" "2 ^ min 7 k" "2 ^ 32" "page_alloc_order reclaim (min 7 k)"
  "\<lambda>a. page_free_order a (min 7 k)" for k reclaim
proof
  fix s s' a
  assume inv: "pages_inv s"
  then show "page_freecount s < 2 ^ 32" by (simp add: pages_inv_def)
  have k: "min 7 k < 8" by simp
  show "pages_inv s' \<and> {a ..< a + 2 ^ min 7 k * 4096} \<subseteq> free_mem s \<and>
      free_mem s' = free_mem s - {a ..< a + 2 ^ min 7 k * 4096} \<and> page_freecount s = page_freecount s' + 2 ^ min 7 k \<and>
      valid_block (min 7 k) s a \<and> valid_block (min 7 k) s' = valid_block (min 7 k) s"
    if "page_alloc_order reclaim (min 7 k) s = Some (Some a, s')"
    using page_alloc_order_inv [OF inv k, of reclaim] that by (cases "reclaim s") auto
  show "\<exists>s'. page_free_order a (min 7 k) s = Some s' \<and> pages_inv s' \<and>
      free_mem s' = free_mem s \<union> {a ..< a + 2 ^ min 7 k * 4096} \<and>
      page_freecount s' = page_freecount s + 2 ^ min 7 k \<and> valid_block (min 7 k) s' = valid_block (min 7 k) s"
    if "valid_block (min 7 k) s a" "{a ..< a + 2 ^ min 7 k * 4096} \<inter> free_mem s = {}"
      "page_freecount s + 2 ^ min 7 k < 2 ^ 32"
    using page_free_order_inv [OF inv k that] by auto
qed simp


section \<open>Properties\<close>

text \<open>
  C9: page\_add\_range turns a range whose usable pages are a multiple of the largest block (128
  pages) into free memory: the allocator's invariant holds afterwards, exactly the addresses of the
  new group become free, and the counter grows by their number of pages.
\<close>

theorem page_add_range_sound:
  assumes "pages_inv s" and "pagegroup_create (PAGE_ALIGN_DOWN start) (PAGE_ALIGN_DOWN stop) = Some g"
    and "start < 2 ^ 32" and "pg_baseaddr g < pg_endaddr g"
    and "(pg_endaddr g - pg_baseaddr g) mod (128 * 4096) = 0"
    and "\<forall>h \<in> set (pagegroup_list s). group_range h \<inter> group_range g = {}"
    and "page_freecount s + (pg_endaddr g - pg_baseaddr g) div 4096 < 2 ^ 32"
  shows "\<exists>s'. page_add_range start stop s = Some s' \<and> pages_inv s' \<and> free_mem s' = free_mem s \<union> group_range g \<and>
    page_freecount s' = page_freecount s + (pg_endaddr g - pg_baseaddr g) div 4096"
proof -
  have "PAGE_ALIGN_DOWN start mod 4096 = 0" by (simp add: PAGE_ALIGN_DOWN_def)
  moreover have "PAGE_ALIGN_DOWN start < 2 ^ 32" unfolding PAGE_ALIGN_DOWN_def
    using div_times_less_eq_dividend assms(3) by (rule le_less_trans)
  ultimately have g: "group_inv g" "free_addrs g = group_range g"
    "group_count g = (pg_endaddr g - pg_baseaddr g) div 4096"
    using pagegroup_create_whole [OF assms(2)] assms(4,5) by simp_all
  let ?s = "s\<lparr>pagegroup_list := pagegroup_list s @ [g], page_freecount := page_freecount s + group_count g\<rparr>"
  have "page_add_range start stop s = Some ?s"
    using assms(2,4,7) by (simp add: page_add_range_def g(3))
  moreover have "pages_inv ?s" using assms g by (intro pages_inv_append) auto
  moreover have "free_mem ?s = free_mem s \<union> group_range g" by (auto simp: free_mem_def g(2))
  ultimately show ?thesis using g(3) by auto
qed

text \<open>A range of 129 pages: 128 pages of memory, and the group's own data in the last page.\<close>

definition pages_129 :: pages where
  "pages_129 = \<lparr>pagegroup_list = [\<lparr>pg_freelist = (\<lambda>_. [])(7 := [4194304]), pg_map = (\<lambda>_ _. False),
     pg_baseaddr = 4194304, pg_endaddr = 4718592\<rparr>], page_freecount = 128\<rparr>"

lemma pagegroup_create_129:
  "pagegroup_create 4194304 4722688 = Some (pagegroup_list pages_129 ! 0)"
proof -
  have e: "PAGE_ALIGN_DOWN (usub (usub 4722688 112) (map_space (usub 4722688 4194304 div 4096) [1, 2, 3, 4, 5, 6, 7])) = 4718592"
    by (simp add: usub_def map_bytes_def PAGE_ALIGN_DOWN_def)
  have sb: "small_blocks (usub 4718592 4194304 div 4096) 4718592 [0, 1, 2, 3, 4, 5, 6] = (4718592, \<lambda>_. [])"
    by (rule small_blocks_none) (simp add: usub_def)
  have lb: "large_blocks 4194304 4718592 [] = [4194304]" by (simp add: large_blocks.simps)
  show ?thesis
    unfolding pagegroup_create_def Let_def e sb prod.case lb by (simp add: usub_def pages_129_def)
qed

lemma pages_129_align: "PAGE_ALIGN_DOWN 4194304 = 4194304" "PAGE_ALIGN_DOWN 4722688 = 4722688"
  by (simp_all add: PAGE_ALIGN_DOWN_def)

lemma page_add_range_129: "page_add_range 4194304 4722688 page_init = Some pages_129"
  using pagegroup_create_129 by (simp add: page_add_range_def pages_129_align page_init_def pages_129_def)

lemma pages_129_inv: "pages_inv pages_129"
proof -
  have "group_inv (pagegroup_list pages_129 ! 0)"
    by (rule pagegroup_create_whole(2) [OF pagegroup_create_129]) (simp_all add: pages_129_def)
  moreover have "group_count (pagegroup_list pages_129 ! 0) = 128"
    using pagegroup_create_whole(4) [OF pagegroup_create_129] by (simp add: pages_129_def)
  ultimately show ?thesis by (simp add: pages_inv_def pages_129_def)
qed

theorem page_add_range_sound_witness:
  "\<exists>s'. page_add_range 4194304 4722688 page_init = Some s' \<and> pages_inv s' \<and>
    free_mem s' = {4194304 ..< 4718592} \<and> page_freecount s' = 128"
  using page_add_range_sound [of page_init 4194304 4722688 "pagegroup_list pages_129 ! 0"]
    pagegroup_create_129 pages_inv_init
  by (simp add: pages_129_align) (simp add: page_init_def pages_129_def group_range_def free_mem_def)

text \<open>
  C7: Allocating a block of order \<open>k\<close> either returns an aligned block of \<open>2 ^ k\<close> pages that was
  free, removes exactly that block from the free memory and \<open>2 ^ k\<close> from the counter and keeps the
  invariant, or no free block of order \<open>k\<close> or more exists in any group, and the result is NULL after
  the slab allocators were asked to give memory back.
\<close>

theorem page_alloc_order_exact:
  assumes "pages_inv s" and "k < 8"
  shows "(\<exists>a s'. page_alloc_order reclaim k s = Some (Some a, s') \<and> pages_inv s' \<and> valid_block k s a \<and>
        {a ..< a + 2 ^ k * 4096} \<subseteq> free_mem s \<and> free_mem s' = free_mem s - {a ..< a + 2 ^ k * 4096} \<and>
        page_freecount s = page_freecount s' + 2 ^ k) \<or>
      (\<forall>p \<in> {k ..< 8}. \<forall>g \<in> set (pagegroup_list s). pg_freelist g p = []) \<and>
        page_alloc_order reclaim k s = map_option (Pair None) (reclaim s)"
  using page_alloc_order_inv [OF assms, of reclaim] unfolding no_block_def by blast

theorem page_alloc_order_exact_witness:
  "\<exists>a s'. page_alloc_order Some 3 pages_129 = Some (Some a, s') \<and> pages_inv s' \<and> valid_block 3 pages_129 a \<and>
    {a ..< a + 8 * 4096} \<subseteq> free_mem pages_129 \<and> free_mem s' = free_mem pages_129 - {a ..< a + 8 * 4096} \<and>
    page_freecount s' = 120"
proof -
  have "\<not> (\<forall>p \<in> {3 ..< 8}. \<forall>g \<in> set (pagegroup_list pages_129). pg_freelist g p = [])"
    by (simp add: pages_129_def)
  moreover have "page_freecount pages_129 = 128" by (simp add: pages_129_def)
  ultimately show ?thesis
    using page_alloc_order_exact [OF pages_129_inv, of 3 Some] by auto
qed



lemmas page_eval = find_group_def page_split_def page_take_def page_alloc_order_def split_down.simps page_split1_def
  flip_parent_def pagegroup_calculate_index_def bit_flip_def fp_insert_head_def fp_remove_head_def upt_conv_Cons

lemma pages_129_allocs:
  "map_option fst (allocs (page_alloc_order Some 0) (Suc (Suc 0)) pages_129) = Some [4714496, 4710400]"
  by (simp add: page_eval pages_129_def)



text \<open>The order chosen for a number of pages.\<close>

lemma order_for_Some:
  assumes "order_for n = Some k" and "n < 2 ^ 31"
  shows "k < 8" and "n \<le> 2 ^ k" and "\<forall>j < k. 2 ^ j < n"
  using assms by (auto simp: order_for_def find_Some_iff simp flip: of_nat_power of_nat_less_iff of_nat_le_iff)

lemma order_for_None: "n < 2 ^ 31 \<Longrightarrow> order_for n = None \<longleftrightarrow> 128 < n"
proof -
  assume n: "n < 2 ^ 31"
  have "order_for n = None \<longleftrightarrow> (\<forall>k \<in> {0 ..< 8 :: nat}. 2 ^ k < int n)"
    using n by (auto simp: order_for_def find_None_iff not_le)
  also have "\<dots> \<longleftrightarrow> 128 < n" by (simp add: atLeastLessThan_nat_numeral) auto
  finally show ?thesis .
qed


lemma pages_129_alloc3: "map_option fst (page_alloc_n Some 3 pages_129) = Some (Some 4702208)"
proof -
  have "order_for 3 = Some (Suc (Suc 0))" by (simp add: order_for_def upt_conv_Cons)
  then show ?thesis by (simp add: page_alloc_n_def page_eval pages_129_def)
qed


definition pages_2 :: pages where
  "pages_2 = \<lparr>pagegroup_list = [\<lparr>pg_freelist = (\<lambda>_. [])(0 := [1048576]), pg_map = (\<lambda>_ _. False),
     pg_baseaddr = 1048576, pg_endaddr = 1052672\<rparr>], page_freecount = 1\<rparr>"

lemma page_add_range_2: "page_add_range 1048576 1056768 page_init = Some pages_2"
proof -
  have e: "PAGE_ALIGN_DOWN (usub (usub 1056768 112) (map_space (usub 1056768 1048576 div 4096) [1, 2, 3, 4, 5, 6, 7])) = 1052672"
    by (simp add: usub_def map_bytes_def PAGE_ALIGN_DOWN_def)
  have "small_blocks 1 (Suc 0 * 1048576) [1, 2, 3, 4, 5, 6] = (1048576, \<lambda>_. [])"
    by (subst small_blocks_none) simp_all
  then have sb: "small_blocks (usub 1052672 1048576 div 4096) 1052672 [0, 1, 2, 3, 4, 5, 6] =
      (1048576, (\<lambda>_. [])(0 := [1048576]))"
    by (subst small_blocks.simps) (simp add: usub_def del: small_blocks.simps)
  have lb: "large_blocks 1048576 1048576 [] = []" by (simp add: large_blocks.simps)
  have "pagegroup_create 1048576 1056768 = Some (pagegroup_list pages_2 ! 0)"
    unfolding pagegroup_create_def Let_def e sb prod.case lb by (simp add: usub_def pages_2_def fun_eq_iff)
  then show ?thesis by (simp add: page_add_range_def PAGE_ALIGN_DOWN_def page_init_def pages_2_def)
qed


end
