(* ===== verification/Virtterm.thy ===== *)
theory Virtterm
  imports Kstring
begin

text \<open>
  The screen and the virtual terminals, drivers/tty/screen.c and drivers/tty/virtterm.c.  The state holds the
  three terminals with their circular scroll buffers, the current terminal, the video memory, the
  position the CRT controller shows the cursor at, and the interrupt priority level.  A function
  pointer registered as a callback is a number, and what calling it does is an argument of the
  keyboard handler.
\<close>

unbundle bit_operations_syntax

abbreviation (input) DISPLAY_WIDTH :: int where "DISPLAY_WIDTH \<equiv> 80"
abbreviation (input) DISPLAY_HEIGHT :: int where "DISPLAY_HEIGHT \<equiv> 25"
abbreviation (input) DISPLAY_SIZE :: int where "DISPLAY_SIZE \<equiv> 2000"
abbreviation (input) SCROLL_BUFSIZE :: int where "SCROLL_BUFSIZE \<equiv> 10000"
abbreviation (input) NTERMS :: int where "NTERMS \<equiv> 3"

record virtterm =
  vt_head :: int
  vt_tail :: int
  vt_top :: int
  vt_cursor :: int
  vt_buf :: "byte list"
  vt_tempbuf :: "byte list"
  ttd_callback :: "nat option"
  ttd_callback_arg :: nat

record vterms =
  vt_terms :: "virtterm list"
  vt_curterm :: "nat option"
  videoram :: "16 word list"
  crt_cursor :: "16 word"
  ipl :: byte

section \<open>The screen\<close>

text \<open>A cell is the attribute in the upper byte and the character; a character is a signed char.\<close>

definition vcell :: "byte \<Rightarrow> 16 word" where
  "vcell c = push_bit 8 0x0F OR scast c"

definition screen_move_cursor :: "byte \<Rightarrow> byte \<Rightarrow> vterms \<Rightarrow> vterms" where
  "screen_move_cursor x y s =
    (let pos = word_of_int (uint y * DISPLAY_WIDTH + uint x)
     in s\<lparr>crt_cursor := push_bit 8 (drop_bit 8 pos) OR (pos AND 0xff)\<rparr>)"

definition screen_putchar :: "byte \<Rightarrow> byte \<Rightarrow> byte \<Rightarrow> vterms \<Rightarrow> vterms option" where
  "screen_putchar c x y s =
    (let i = nat (uint y * DISPLAY_WIDTH + uint x) in do {
       kassert (i < length (videoram s));
       Some (s\<lparr>videoram := (videoram s)[i := vcell c]\<rparr>)
     })"

definition screen_putchar_attrib :: "byte \<Rightarrow> byte \<Rightarrow> byte \<Rightarrow> byte \<Rightarrow> vterms \<Rightarrow> vterms option" where
  "screen_putchar_attrib c x y attrib s =
    (let i = nat (uint y * DISPLAY_WIDTH + uint x) in do {
       kassert (i < length (videoram s));
       Some (s\<lparr>videoram := (videoram s)[i := push_bit 8 (ucast attrib) OR scast c]\<rparr>)
     })"

definition screen_putbuf :: "byte list \<Rightarrow> vterms \<Rightarrow> vterms option" where
  "screen_putbuf buf s = do {
     kassert (2000 \<le> length buf \<and> 2000 \<le> length (videoram s));
     Some (s\<lparr>videoram := map vcell (take 2000 buf) @ drop 2000 (videoram s)\<rparr>)
   }"

definition screen_putbuf_attrib :: "16 word list \<Rightarrow> vterms \<Rightarrow> vterms option" where
  "screen_putbuf_attrib buf s = do {
     kassert (2000 \<le> length buf \<and> 2000 \<le> length (videoram s));
     Some (s\<lparr>videoram := take 2000 buf @ drop 2000 (videoram s)\<rparr>)
   }"

definition screen_clear :: "vterms \<Rightarrow> vterms option" where
  "screen_clear s = do {
     kassert (2000 \<le> length (videoram s));
     Some (s\<lparr>videoram := replicate 2000 (push_bit 8 0x0F OR 0x20) @ drop 2000 (videoram s)\<rparr>)
   }"

section \<open>Positions in the circular buffer\<close>

definition circ_dist :: "int \<Rightarrow> int \<Rightarrow> int" where
  "circ_dist to from = crem (to - from + SCROLL_BUFSIZE) SCROLL_BUFSIZE"

definition next_row :: "int \<Rightarrow> int" where
  "next_row i = crem ((cdiv i DISPLAY_WIDTH + 1) * DISPLAY_WIDTH) SCROLL_BUFSIZE"

definition buf_add :: "int \<Rightarrow> int \<Rightarrow> int" where
  "buf_add ptr amt = crem (ptr + amt + SCROLL_BUFSIZE) SCROLL_BUFSIZE"

text \<open>The pointer \<open>buf + i\<close>.\<close>

definition buf_at :: "byte list \<Rightarrow> int \<Rightarrow> byte list option" where
  "buf_at buf i = (if 0 \<le> i \<and> i \<le> int (length buf) then Some (drop (nat i) buf) else None)"

section \<open>Redrawing\<close>

definition vt_cur :: "vterms \<Rightarrow> virtterm option" where
  "vt_cur s = do { k \<leftarrow> vt_curterm s; kassert (k < length (vt_terms s)); Some (vt_terms s ! k) }"

definition vt_cur_update :: "virtterm \<Rightarrow> vterms \<Rightarrow> vterms" where
  "vt_cur_update vt s =
    (case vt_curterm s of None \<Rightarrow> s | Some k \<Rightarrow> s\<lparr>vt_terms := (vt_terms s)[k := vt]\<rparr>)"

definition vt_cursor_redraw :: "vterms \<Rightarrow> vterms option" where
  "vt_cursor_redraw s = do {
     vt \<leftarrow> vt_cur s;
     let rel_cursor = circ_dist (vt_cursor vt) (vt_top vt);
     Some (screen_move_cursor (word_of_int (crem rel_cursor DISPLAY_WIDTH)) (word_of_int (cdiv rel_cursor DISPLAY_WIDTH)) s)
   }"

text \<open>What vt\_redraw puts into the temporary buffer.\<close>

definition vt_fill_tempbuf :: "virtterm \<Rightarrow> byte list option" where
  "vt_fill_tempbuf vt = do {
     t \<leftarrow> memset (vt_tempbuf vt) 0 2000;
     src \<leftarrow> buf_at (vt_buf vt) (vt_top vt);
     (if vt_top vt \<le> vt_tail vt then
        (if vt_tail vt - vt_top vt \<le> DISPLAY_SIZE then memcpy t src (nat (vt_tail vt - vt_top vt))
         else memcpy t src 2000)
      else do {
        let first_part_size = SCROLL_BUFSIZE - vt_top vt;
        (if first_part_size \<ge> DISPLAY_SIZE then memcpy t src 2000
         else do {
           t1 \<leftarrow> memcpy t src (nat first_part_size);
           t2 \<leftarrow> buf_at t1 first_part_size;
           r \<leftarrow> memcpy t2 (vt_buf vt)
                  (nat (if first_part_size + vt_tail vt \<le> DISPLAY_SIZE then vt_tail vt
                        else DISPLAY_SIZE - first_part_size));
           Some (take (nat first_part_size) t1 @ r)
         })
      })
   }"

definition vt_redraw :: "vterms \<Rightarrow> vterms option" where
  "vt_redraw s = do {
     vt \<leftarrow> vt_cur s;
     t \<leftarrow> vt_fill_tempbuf vt;
     s1 \<leftarrow> screen_putbuf t (vt_cur_update (vt\<lparr>vt_tempbuf := t\<rparr>) s);
     vt_cursor_redraw s1
   }"

section \<open>Characters\<close>

text \<open>The part of vt\_handle\_char behind the label \<open>handle_tail\<close>.\<close>

definition vt_advance_tail :: "int \<Rightarrow> virtterm \<Rightarrow> virtterm option" where
  "vt_advance_tail new_cursor vt =
    (if circ_dist new_cursor (vt_cursor vt) \<ge> circ_dist (vt_tail vt) (vt_cursor vt) then
       let new_tail = next_row new_cursor;
           vt1 = (if circ_dist (vt_tail vt) (vt_head vt) \<ge> circ_dist (vt_tail vt) new_tail
                  then vt\<lparr>vt_head := next_row new_tail\<rparr> else vt)
       in do {
         p \<leftarrow> buf_at (vt_buf vt) (vt_tail vt);
         buf \<leftarrow> (if vt_tail vt \<le> new_tail then do {
                  q \<leftarrow> memset p 0 (nat (new_tail - vt_tail vt));
                  Some (take (nat (vt_tail vt)) (vt_buf vt) @ q)
                } else do {
                  q \<leftarrow> memset p 0 (nat (SCROLL_BUFSIZE - vt_tail vt));
                  memset (take (nat (vt_tail vt)) (vt_buf vt) @ q) 0 (nat new_tail)
                });
         Some (vt1\<lparr>vt_buf := buf, vt_tail := new_tail\<rparr>)
       }
     else Some vt)"

definition vt_handle_char :: "byte \<Rightarrow> virtterm \<Rightarrow> (bool \<times> virtterm) option" where
  "vt_handle_char c vt =
    (if c = 8 then
       Some (False, vt\<lparr>vt_cursor := (if vt_cursor vt \<noteq> vt_head vt then buf_add (vt_cursor vt) (- 1) else vt_cursor vt)\<rparr>)
     else if c = 13 then
       Some (False, vt\<lparr>vt_cursor := cdiv (vt_cursor vt) DISPLAY_WIDTH * DISPLAY_WIDTH\<rparr>)
     else if c = 10 then do {
       let new_cursor = next_row (vt_cursor vt);
       vt1 \<leftarrow> vt_advance_tail new_cursor vt;
       Some (False, vt1\<lparr>vt_cursor := new_cursor\<rparr>)
     } else do {
       kassert (0 \<le> vt_cursor vt \<and> vt_cursor vt < int (length (vt_buf vt)));
       let new_cursor = buf_add (vt_cursor vt) 1;
       vt1 \<leftarrow> vt_advance_tail new_cursor (vt\<lparr>vt_buf := (vt_buf vt)[nat (vt_cursor vt) := c]\<rparr>);
       Some (True, vt1\<lparr>vt_cursor := new_cursor\<rparr>)
     })"

definition vt_move_top :: "virtterm \<Rightarrow> virtterm" where
  "vt_move_top vt =
    (if circ_dist (vt_cursor vt) (vt_top vt) \<ge> DISPLAY_SIZE
     then vt\<lparr>vt_top := buf_add (next_row (vt_cursor vt)) (- DISPLAY_SIZE)\<rparr> else vt)"

definition vt_provide_char :: "nat \<Rightarrow> byte \<Rightarrow> vterms \<Rightarrow> vterms option" where
  "vt_provide_char k c s = do {
     kassert (k < length (vt_terms s));
     let vt = vt_terms s ! k;
     let old_cursor = vt_cursor vt;
     let old_top = vt_top vt;
     (can_write_char, vt1) \<leftarrow> vt_handle_char c (vt_move_top vt);
     let s1 = s\<lparr>vt_terms := (vt_terms s)[k := vt1]\<rparr>;
     (if vt_curterm s = Some k then
        (if old_top = vt_top vt1 then do {
           s2 \<leftarrow> (if can_write_char then
                    let rel_cursor = circ_dist old_cursor (vt_top vt1)
                    in screen_putchar c (word_of_int (crem rel_cursor DISPLAY_WIDTH))
                         (word_of_int (cdiv rel_cursor DISPLAY_WIDTH)) s1
                  else Some s1);
           vt_cursor_redraw s2
         } else vt_redraw s1)
      else Some s1)
   }"

section \<open>The other operations\<close>

definition vt_init_term :: virtterm where
  "vt_init_term = \<lparr>vt_head = 0, vt_tail = DISPLAY_WIDTH, vt_top = 0, vt_cursor = 0,
     vt_buf = replicate 10000 0, vt_tempbuf = replicate 2000 0, ttd_callback = None, ttd_callback_arg = 0\<rparr>"

text \<open>The static terminals are zero before; \<open>keyboard_register_handler\<close> is modelled with the keyboard.\<close>

definition vt_init :: "vterms \<Rightarrow> vterms option" where
  "vt_init s = vt_redraw (s\<lparr>vt_terms := replicate 3 vt_init_term, vt_curterm := Some 0\<rparr>)"

definition vt_num_terminals :: int where
  "vt_num_terminals = NTERMS"

definition vt_get_tty_driver :: "int \<Rightarrow> nat option option" where
  "vt_get_tty_driver i = (if i \<ge> NTERMS then Some None else do { kassert (0 \<le> i); Some (Some (nat i)) })"

definition vt_scroll :: "int \<Rightarrow> bool \<Rightarrow> vterms \<Rightarrow> vterms option" where
  "vt_scroll lines scroll_up s = do {
     vt \<leftarrow> vt_cur s;
     let top =
       (if scroll_up then
          (if circ_dist (vt_top vt) (vt_head vt) < lines * DISPLAY_WIDTH then vt_head vt
           else buf_add (vt_top vt) (- lines * DISPLAY_WIDTH))
        else
          (if circ_dist (vt_tail vt) (vt_top vt) < (lines + 1) * DISPLAY_WIDTH
           then buf_add (vt_tail vt) (- DISPLAY_WIDTH)
           else buf_add (vt_top vt) (lines * DISPLAY_WIDTH)));
     vt_redraw (vt_cur_update (vt\<lparr>vt_top := top\<rparr>) s)
   }"

definition vt_switch :: "int \<Rightarrow> vterms \<Rightarrow> (int \<times> vterms) option" where
  "vt_switch term s =
    (if term < 0 \<or> term \<ge> NTERMS then Some (- 1, s)
     else do { s1 \<leftarrow> vt_redraw (s\<lparr>vt_curterm := Some (nat term)\<rparr>); Some (0, s1) })"

fun vt_provide_string :: "nat \<Rightarrow> byte list \<Rightarrow> vterms \<Rightarrow> vterms option" where
  "vt_provide_string k [] s = Some s"
| "vt_provide_string k (c # cs) s = do { s1 \<leftarrow> vt_provide_char k c s; vt_provide_string k cs s1 }"

definition shutdown_str :: "byte list" where
  "shutdown_str = map (word_of_nat \<circ> of_char)
     (''                   It is now safe to turn off your computer'')"

definition vt_print_shutdown :: "vterms \<Rightarrow> vterms option" where
  "vt_print_shutdown s =
    (case vt_curterm s of
       None \<Rightarrow> Some s
     | Some k \<Rightarrow> vt_provide_string k (replicate 20 10 @ shutdown_str @ replicate 14 10) s)"

definition vt_register_callback_handler :: "nat \<Rightarrow> nat option \<Rightarrow> nat \<Rightarrow> vterms \<Rightarrow> (nat option \<times> vterms) option" where
  "vt_register_callback_handler k callback arg s = do {
     kassert (k < length (vt_terms s));
     let vt = vt_terms s ! k;
     Some (ttd_callback vt,
       s\<lparr>vt_terms := (vt_terms s)[k := vt\<lparr>ttd_callback := callback, ttd_callback_arg := arg\<rparr>]\<rparr>)
   }"

definition vt_unregister_callback_handler :: "nat \<Rightarrow> vterms \<Rightarrow> (nat option \<times> vterms) option" where
  "vt_unregister_callback_handler k s = do {
     kassert (k < length (vt_terms s));
     let vt = vt_terms s ! k;
     Some (ttd_callback vt, s\<lparr>vt_terms := (vt_terms s)[k := vt\<lparr>ttd_callback := None\<rparr>]\<rparr>)
   }"

abbreviation (input) INTR_KEYBOARD :: byte where "INTR_KEYBOARD \<equiv> 0xe0"

definition vt_block_io :: "vterms \<Rightarrow> byte \<times> vterms" where
  "vt_block_io s = (ipl s, s\<lparr>ipl := INTR_KEYBOARD\<rparr>)"

definition vt_unblock_io :: "byte \<Rightarrow> vterms \<Rightarrow> vterms option" where
  "vt_unblock_io data s = do { kassert (ipl s = INTR_KEYBOARD); Some (s\<lparr>ipl := data\<rparr>) }"

definition vt_keyboard_handler :: "(nat \<Rightarrow> nat \<Rightarrow> byte \<Rightarrow> vterms \<Rightarrow> vterms option) \<Rightarrow> byte \<Rightarrow> vterms \<Rightarrow> vterms option" where
  "vt_keyboard_handler call c s =
    (case vt_curterm s of
       None \<Rightarrow> Some s
     | Some k \<Rightarrow> do {
         vt \<leftarrow> vt_cur s;
         (case ttd_callback vt of None \<Rightarrow> Some s | Some f \<Rightarrow> call f (ttd_callback_arg vt) c s)
       })"


section \<open>Arithmetic of the circular buffer\<close>

text \<open>A position of the buffer, and one at the start of a row.\<close>

definition in_buf :: "int \<Rightarrow> bool" where
  "in_buf i \<longleftrightarrow> 0 \<le> i \<and> i < 10000"

definition at_row :: "int \<Rightarrow> bool" where
  "at_row i \<longleftrightarrow> in_buf i \<and> i mod 80 = 0"

lemma in_buf_zero [simp]: "in_buf 0"
  by (simp add: in_buf_def)

lemma at_row_in [simp]: "at_row i \<Longrightarrow> in_buf i"
  by (simp add: at_row_def)

lemma at_rowE:
  assumes "at_row i"
  obtains r where "i = 80 * r" and "0 \<le> r" and "r < 125"
proof
  have i: "0 \<le> i" "i < 10000" "i mod 80 = 0" using assms by (simp_all add: at_row_def in_buf_def)
  show "i = 80 * (i div 80)" using i(3) mult_div_mod_eq [of 80 i] by simp
  show "0 \<le> i div 80" using i(1) by simp
  show "i div 80 < 125" using i(2) by simp
qed

lemma at_row_mult: "0 \<le> r \<Longrightarrow> r < 125 \<Longrightarrow> at_row (80 * r)"
  by (simp add: at_row_def in_buf_def)

lemma circ_dist_eq:
  assumes "in_buf a" and "in_buf b"
  shows "circ_dist a b = (if b \<le> a then a - b else a - b + 10000)"
proof (cases "b \<le> a")
  case True
  have "(a - b + 10000) mod 10000 = a - b"
    unfolding mod_add_self2 by (rule mod_pos_pos_trivial) (use assms True in \<open>simp_all add: in_buf_def\<close>)
  then show ?thesis using True assms by (simp add: circ_dist_def in_buf_def)
next
  case False
  have "(a - b + 10000) mod 10000 = a - b + 10000"
    by (rule mod_pos_pos_trivial) (use assms False in \<open>simp_all add: in_buf_def\<close>)
  then show ?thesis using False assms by (simp add: circ_dist_def in_buf_def)
qed

lemma circ_dist_range:
  assumes "in_buf a" and "in_buf b"
  shows "0 \<le> circ_dist a b" and "circ_dist a b < 10000"
  using assms by (auto simp: circ_dist_eq in_buf_def)

lemma row_split: "80 * (i div 80) \<le> (i :: int)" "i < 80 * (i div 80) + 80"
  using mult_div_mod_eq [of 80 i] pos_mod_bound [of 80 i] pos_mod_sign [of 80 i] by linarith+

lemma row_range:
  assumes "in_buf i"
  shows "0 \<le> i div 80" and "i div 80 \<le> 124"
  using assms row_split [of i] by (simp_all add: in_buf_def)

lemma next_row_eq:
  assumes "in_buf i"
  shows "next_row i = (if i div 80 = 124 then 0 else 80 * (i div 80) + 80)"
proof -
  have r: "0 \<le> i div 80" "i div 80 \<le> 124" "0 \<le> i"
    using assms row_range [OF assms] by (simp_all add: in_buf_def)
  then have "next_row i = (80 * (i div 80) + 80) mod 10000"
    by (simp add: next_row_def algebra_simps)
  also have "\<dots> = (if i div 80 = 124 then 0 else 80 * (i div 80) + 80)"
    using r by (cases "i div 80 = 124") simp_all
  finally show ?thesis .
qed

lemma next_row_row:
  assumes "in_buf i"
  shows "at_row (next_row i)"
proof -
  show ?thesis using row_range [OF assms] at_row_mult [of "i div 80 + 1"] at_row_mult [of 0]
    by (auto simp: next_row_eq [OF assms] algebra_simps)
qed

lemma buf_add_in:
  assumes "in_buf p" and "- 10000 \<le> amt" and "amt \<le> 10000"
  shows "buf_add p amt = (if p + amt < 0 then p + amt + 10000 else if p + amt < 10000 then p + amt
    else if p + amt < 20000 then p + amt - 10000 else 0)"
proof -
  have p: "0 \<le> p + amt + 10000" "0 \<le> p" "p < 10000" using assms by (simp_all add: in_buf_def)
  then have e: "buf_add p amt = (p + amt + 10000) mod 10000" by (simp add: buf_add_def)
  consider "p + amt < 0" | "0 \<le> p + amt" "p + amt < 10000" | "10000 \<le> p + amt" by linarith
  then show ?thesis
  proof cases
    case 1
    have "(p + amt + 10000) mod 10000 = p + amt + 10000" by (rule mod_pos_pos_trivial) (use 1 p in linarith)+
    then show ?thesis unfolding e using 1 by simp
  next
    case 2
    then show ?thesis unfolding e mod_add_self2 by simp
  next
    case 3
    have "(p + amt) mod 10000 = (p + amt - 10000) mod 10000" using mod_add_self2 [of "p + amt - 10000" 10000] by simp
    also have "\<dots> = p + amt - 10000" by (rule mod_pos_pos_trivial) (use 3 p assms in linarith)+
    finally show ?thesis unfolding e mod_add_self2 using 3 p assms by simp
  qed
qed


section \<open>The invariant of a terminal\<close>

text \<open>
  Head, tail and top are at rows, and the cursor lies before the tail as seen from the head.
\<close>

definition vt_inv :: "virtterm \<Rightarrow> bool" where
  "vt_inv vt \<longleftrightarrow> at_row (vt_head vt) \<and> at_row (vt_tail vt) \<and> at_row (vt_top vt) \<and> in_buf (vt_cursor vt) \<and>
     circ_dist (vt_cursor vt) (vt_head vt) < circ_dist (vt_tail vt) (vt_head vt) \<and>
     length (vt_buf vt) = 10000 \<and> length (vt_tempbuf vt) = 2000"

lemma vt_invD:
  assumes "vt_inv vt"
  shows "at_row (vt_head vt)" "at_row (vt_tail vt)" "at_row (vt_top vt)" "in_buf (vt_cursor vt)"
    "circ_dist (vt_cursor vt) (vt_head vt) < circ_dist (vt_tail vt) (vt_head vt)"
    "length (vt_buf vt) = 10000" "length (vt_tempbuf vt) = 2000" "vt_cursor vt \<noteq> vt_tail vt"
  using assms by (auto simp: vt_inv_def)

text \<open>The cursor advances by one position or to the next row, and so never beyond the tail.\<close>

definition advances :: "int \<Rightarrow> int \<Rightarrow> bool" where
  "advances new_cursor cursor \<longleftrightarrow> new_cursor = buf_add cursor 1 \<or> new_cursor = next_row cursor"

lemma next_row_dist:
  assumes "in_buf i"
  shows "circ_dist (next_row i) i = 80 * (i div 80) + 80 - i"
proof -
  have "in_buf (next_row i)" using next_row_row [OF assms] by simp
  then show ?thesis using assms row_split [of i] row_range [OF assms] unfolding circ_dist_eq [OF \<open>in_buf (next_row i)\<close> assms]
    by (auto simp: next_row_eq in_buf_def)
qed

lemma inc_dist: "in_buf i \<Longrightarrow> circ_dist (buf_add i 1) i = 1" "in_buf i \<Longrightarrow> in_buf (buf_add i 1)"
proof -
  assume i: "in_buf i"
  have e: "buf_add i 1 = (if i < 9999 then i + 1 else 0)" using i by (auto simp: buf_add_in in_buf_def)
  show b: "in_buf (buf_add i 1)" unfolding e using i by (simp add: in_buf_def)
  show "circ_dist (buf_add i 1) i = 1" unfolding circ_dist_eq [OF b i] unfolding e using i by (auto simp: in_buf_def)
qed

lemma circ_dist_inj: "in_buf a \<Longrightarrow> in_buf b \<Longrightarrow> in_buf c \<Longrightarrow> circ_dist a c = circ_dist b c \<Longrightarrow> a = b"
  by (auto simp: circ_dist_eq in_buf_def split: if_splits)

lemma row_dist:
  assumes "at_row t" and "in_buf c" and "t \<noteq> c"
  shows "80 * (c div 80) + 80 - c \<le> circ_dist t c"
proof -
  obtain r where r: "t = 80 * r" "0 \<le> r" "r < 125" using assms(1) by (rule at_rowE)
  have q: "80 * (c div 80) \<le> c" "c < 80 * (c div 80) + 80" "c div 80 \<le> 124" using row_split row_range [OF assms(2)] by simp_all
  show ?thesis
  proof (cases "c \<le> t")
    case True
    then have "80 * (c div 80) < 80 * r" using assms(3) q r(1) by linarith
    then have "c div 80 + 1 \<le> r" by simp
    then show ?thesis using True r assms(1,2) by (simp add: circ_dist_eq)
  next
    case False
    then show ?thesis using r q assms(1,2) by (simp add: circ_dist_eq)
  qed
qed

lemma advances_in: "in_buf c \<Longrightarrow> advances n c \<Longrightarrow> in_buf n"
  using next_row_row [of c] inc_dist(2) [of c] by (auto simp: advances_def)

lemma advances_tail:
  assumes "vt_inv vt" and "advances n (vt_cursor vt)"
  shows "circ_dist n (vt_cursor vt) \<ge> circ_dist (vt_tail vt) (vt_cursor vt) \<longleftrightarrow> n = vt_tail vt"
proof -
  let ?c = "vt_cursor vt" and ?t = "vt_tail vt"
  note inv = vt_invD [OF assms(1)]
  have n: "in_buf n" using advances_in [OF inv(4) assms(2)] .
  have dt: "80 * (?c div 80) + 80 - ?c \<le> circ_dist ?t ?c" using row_dist [OF inv(2,4)] inv(8) by simp
  have one: "1 \<le> circ_dist ?t ?c" using dt row_split [of ?c] by linarith
  have "circ_dist n ?c \<le> circ_dist ?t ?c"
    using assms(2) dt one next_row_dist [OF inv(4)] inc_dist(1) [OF inv(4)] by (auto simp: advances_def)
  then have "circ_dist n ?c \<ge> circ_dist ?t ?c \<longleftrightarrow> circ_dist n ?c = circ_dist ?t ?c" by linarith
  also have "\<dots> \<longleftrightarrow> n = ?t" using circ_dist_inj [OF n _ inv(4)] inv(2) by auto
  finally show ?thesis .
qed


text \<open>Clearing the row at the tail, which is what the two memset calls do in both cases.\<close>

definition clear_row :: "int \<Rightarrow> byte list \<Rightarrow> byte list" where
  "clear_row t buf = take (nat t) buf @ replicate 80 0 @ drop (nat t + 80) buf"

lemma next_row_tail:
  assumes "at_row t"
  shows "next_row t = (if t = 9920 then 0 else t + 80)"
proof -
  obtain r where r: "t = 80 * r" "0 \<le> r" "r < 125" using assms by (rule at_rowE)
  then show ?thesis using assms by (simp add: next_row_eq)
qed

lemma row_fits: "at_row t \<Longrightarrow> 0 \<le> t \<and> t + 80 \<le> 10000"
  by (erule at_rowE) simp

lemma tail_full:
  assumes "at_row t" and "at_row h"
  shows "circ_dist t h \<ge> circ_dist t (next_row t) \<longleftrightarrow> h = next_row t"
proof -
  obtain a where a: "t = 80 * a" "0 \<le> a" "a < 125" using assms(1) by (rule at_rowE)
  obtain b where b: "h = 80 * b" "0 \<le> b" "b < 125" using assms(2) by (rule at_rowE)
  have n: "at_row (next_row t)" using next_row_row assms(1) by simp
  have nr: "next_row t = (if a = 124 then 0 else 80 * a + 80)" using next_row_tail [OF assms(1)] a by simp
  note dist = circ_dist_eq [OF at_row_in [OF assms(1)] at_row_in [OF assms(2)]]
    circ_dist_eq [OF at_row_in [OF assms(1)] at_row_in [OF n]]
  show ?thesis unfolding dist unfolding nr unfolding a(1) b(1) using a(2,3) b(2,3) by auto
qed

lemma vt_advance_tail_eq:
  assumes inv: "vt_inv vt" and adv: "advances n (vt_cursor vt)"
  shows "vt_advance_tail n vt = Some (if n = vt_tail vt
    then vt\<lparr>vt_head := if vt_head vt = next_row (vt_tail vt) then next_row (next_row (vt_tail vt)) else vt_head vt,
            vt_buf := clear_row (vt_tail vt) (vt_buf vt), vt_tail := next_row (vt_tail vt)\<rparr>
    else vt)"
proof (cases "n = vt_tail vt")
  case False
  then show ?thesis using advances_tail [OF inv adv] by (simp add: vt_advance_tail_def)
next
  case True
  let ?t = "vt_tail vt"
  note d = vt_invD [OF inv]
  have t: "0 \<le> ?t" "?t + 80 \<le> 10000" "?t \<le> 10000" using row_fits [OF d(2)] by auto
  have at: "buf_at (vt_buf vt) ?t = Some (drop (nat ?t) (vt_buf vt))" using t d(6) by (simp add: buf_at_def)
  have m: "memset (drop (nat ?t) (vt_buf vt)) 0 80 = Some (replicate 80 0 @ drop (nat ?t + 80) (vt_buf vt))"
    using t d(6) by (subst memset_eq) (auto simp: ac_simps)
  have "circ_dist n (vt_cursor vt) \<ge> circ_dist ?t (vt_cursor vt)" using advances_tail [OF inv adv] True by simp
  moreover have "circ_dist ?t (vt_head vt) \<ge> circ_dist ?t (next_row ?t) \<longleftrightarrow> vt_head vt = next_row ?t"
    by (rule tail_full [OF d(2,1)])
  moreover have "(if ?t \<le> next_row ?t then do {
           q \<leftarrow> memset (drop (nat ?t) (vt_buf vt)) 0 (nat (next_row ?t - ?t));
           Some (take (nat ?t) (vt_buf vt) @ q)
         } else do {
           q \<leftarrow> memset (drop (nat ?t) (vt_buf vt)) 0 (nat (10000 - ?t));
           memset (take (nat ?t) (vt_buf vt) @ q) 0 (nat (next_row ?t))
         }) = Some (clear_row ?t (vt_buf vt))"
    using m t by (auto simp: next_row_tail [OF d(2)] clear_row_def)
  ultimately show ?thesis using True at by (simp add: vt_advance_tail_def Let_def cong: if_cong)
qed


lemma circ_dist_trans:
  assumes "in_buf a" "in_buf b" "in_buf c"
  shows "circ_dist a b + circ_dist b c = circ_dist a c \<or> circ_dist a b + circ_dist b c = circ_dist a c + 10000"
  unfolding circ_dist_eq [OF assms(1,2)] circ_dist_eq [OF assms(2,3)] circ_dist_eq [OF assms(1,3)]
  by (cases "b \<le> a"; cases "c \<le> b"; cases "c \<le> a"; simp only: if_True if_False simp_thms; linarith)

lemma between_advance:
  assumes "in_buf n" "in_buf c" "in_buf t" "in_buf h"
    and "circ_dist c h < circ_dist t h" and "circ_dist n c < circ_dist t c"
  shows "circ_dist n h < circ_dist t h"
  using circ_dist_trans [OF assms(3,2,4)] circ_dist_trans [OF assms(1,2,4)] assms(5,6)
    circ_dist_range [OF assms(3,2)] circ_dist_range [OF assms(1,4)] circ_dist_range [OF assms(3,4)] by linarith

lemma between_new_tail:
  assumes t: "at_row t" and h: "at_row h"
    and h': "h' = (if h = next_row t then next_row (next_row t) else h)"
  shows "circ_dist t h' < circ_dist (next_row t) h'" and "at_row h'"
proof -
  have n: "at_row (next_row t)" using next_row_row t by simp
  then show ah: "at_row h'" using next_row_row h h' by simp
  obtain a where a: "t = 80 * a" "0 \<le> a" "a < 125" using t by (rule at_rowE)
  obtain b where b: "h = 80 * b" "0 \<le> b" "b < 125" using h by (rule at_rowE)
  have nr: "next_row t = (if a = 124 then 0 else 80 * a + 80)" using next_row_tail [OF t] a by simp
  have nn: "next_row (next_row t) = (if a = 123 then 0 else if a = 124 then 80 else 80 * a + 160)"
    using next_row_tail [OF n] nr by simp
  show "circ_dist t h' < circ_dist (next_row t) h'"
    unfolding circ_dist_eq [OF at_row_in [OF t] at_row_in [OF ah]] circ_dist_eq [OF at_row_in [OF n] at_row_in [OF ah]]
    unfolding h' nn unfolding nr unfolding a(1) b(1) using a(2,3) b(2,3) by auto
qed

lemma vt_inv_advance:
  assumes inv: "vt_inv vt" and adv: "advances n (vt_cursor vt)"
  shows "\<exists>vt1. vt_advance_tail n vt = Some vt1 \<and> vt_inv (vt1\<lparr>vt_cursor := n\<rparr>) \<and> vt_top vt1 = vt_top vt"
proof -
  note d = vt_invD [OF inv]
  note eq = vt_advance_tail_eq [OF inv adv]
  have n: "in_buf n" using advances_in [OF d(4) adv] .
  show ?thesis
  proof (cases "n = vt_tail vt")
    case True
    have "length (clear_row (vt_tail vt) (vt_buf vt)) = 10000"
      using row_fits [OF d(2)] d(6) by (auto simp: clear_row_def)
    then show ?thesis
      unfolding eq using True n d between_new_tail [OF d(2,1) refl] next_row_row by (simp add: vt_inv_def)
  next
    case False
    then have "circ_dist n (vt_cursor vt) < circ_dist (vt_tail vt) (vt_cursor vt)"
      using advances_tail [OF inv adv] by linarith
    then show ?thesis
      unfolding eq using False n d between_advance [OF n d(4) _ _ d(5)] by (simp add: vt_inv_def)
  qed
qed

lemma dec_dist:
  assumes "in_buf c" and "in_buf h" and "c \<noteq> h"
  shows "in_buf (buf_add c (- 1))" and "circ_dist (buf_add c (- 1)) h < circ_dist c h"
proof -
  have e: "buf_add c (- 1) = (if c = 0 then 9999 else c - 1)" using assms(1) by (auto simp: buf_add_in in_buf_def)
  show b: "in_buf (buf_add c (- 1))" unfolding e using assms(1) by (auto simp: in_buf_def)
  show "circ_dist (buf_add c (- 1)) h < circ_dist c h"
    unfolding circ_dist_eq [OF b assms(2)] circ_dist_eq [OF assms(1,2)] unfolding e using assms by (auto simp: in_buf_def)
qed

lemma row_start_dist:
  assumes "in_buf c" and "at_row h"
  shows "in_buf (80 * (c div 80))" and "circ_dist (80 * (c div 80)) h \<le> circ_dist c h"
proof -
  note r = row_split [of c] row_range [OF assms(1)]
  show b: "in_buf (80 * (c div 80))" using r assms(1) by (auto simp: in_buf_def)
  obtain a where a: "h = 80 * a" using assms(2) by (rule at_rowE)
  have "h \<le> 80 * (c div 80)" if "h \<le> c"
  proof -
    have "80 * a < 80 * (c div 80) + 80" using that r(2) unfolding a by (rule le_less_trans)
    also have "\<dots> = 80 * (c div 80 + 1)" by simp
    finally have "a < c div 80 + 1" by (simp only: mult_less_cancel_left_pos)
    then show ?thesis unfolding a by simp
  qed
  then have "h \<le> 80 * (c div 80) \<longleftrightarrow> h \<le> c" using r(1) by linarith
  then show "circ_dist (80 * (c div 80)) h \<le> circ_dist c h"
    unfolding circ_dist_eq [OF b at_row_in [OF assms(2)]] circ_dist_eq [OF assms(1) at_row_in [OF assms(2)]]
    using r by simp
qed

lemma vt_handle_char_inv:
  assumes inv: "vt_inv vt"
  shows "\<exists>w vt'. vt_handle_char c vt = Some (w, vt') \<and> vt_inv vt' \<and> vt_top vt' = vt_top vt"
proof -
  note d = vt_invD [OF inv]
  have cur: "0 \<le> vt_cursor vt" "vt_cursor vt < 10000" using d(4) by (simp_all add: in_buf_def)
  consider "c = 8" | "c = 13" | "c = 10" | "c \<noteq> 8" "c \<noteq> 13" "c \<noteq> 10" by blast
  then show ?thesis
  proof cases
    case 1
    then show ?thesis using inv dec_dist [OF d(4), of "vt_head vt"] d by (auto simp: vt_handle_char_def vt_inv_def)
  next
    case 2
    then show ?thesis using row_start_dist [OF d(4,1)] d cur by (auto simp: vt_handle_char_def vt_inv_def mult.commute)
  next
    case 3
    have "advances (next_row (vt_cursor vt)) (vt_cursor vt)" by (simp add: advances_def)
    from vt_inv_advance [OF inv this] 3 show ?thesis by (auto simp: vt_handle_char_def)
  next
    case 4
    let ?v = "vt\<lparr>vt_buf := (vt_buf vt)[nat (vt_cursor vt) := c]\<rparr>"
    have "vt_inv ?v" using inv by (simp add: vt_inv_def)
    moreover have "advances (buf_add (vt_cursor ?v) 1) (vt_cursor ?v)" by (simp add: advances_def)
    ultimately show ?thesis using vt_inv_advance [of ?v "buf_add (vt_cursor ?v) 1"] 4 cur d(6)
      by (auto simp: vt_handle_char_def)
  qed
qed


section \<open>What redrawing shows\<close>

text \<open>
  Cell \<open>i\<close> of the screen shows the \<open>i\<close>-th character from the top of the terminal if that is before
  the tail, and is empty otherwise.
\<close>

definition shown :: "virtterm \<Rightarrow> nat \<Rightarrow> byte" where
  "shown vt i =
    (if int i < circ_dist (vt_tail vt) (vt_top vt) then vt_buf vt ! nat ((vt_top vt + int i) mod 10000) else 0)"

lemma memcpy_blank:
  assumes "m \<le> n" and "m \<le> length src" and "\<forall>i < m. f i = src ! i" and "\<forall>i. m \<le> i \<and> i < n \<longrightarrow> f i = 0"
  shows "memcpy (replicate n 0) src m = Some (map f [0 ..< n])"
proof -
  have "take m src @ drop m (replicate n 0) = map f [0 ..< n]"
    by (rule nth_equalityI) (use assms in \<open>auto simp: nth_append\<close>)
  then show ?thesis using assms(1,2) by (simp add: memcpy_eq)
qed

lemma shown_below:
  assumes "in_buf (vt_top vt)" and "int i < circ_dist (vt_tail vt) (vt_top vt)" and "vt_top vt + int i < 10000"
    and "length (vt_buf vt) = 10000"
  shows "shown vt i = drop (nat (vt_top vt)) (vt_buf vt) ! i"
proof -
  have "(vt_top vt + int i) mod 10000 = vt_top vt + int i"
    by (rule mod_pos_pos_trivial) (use assms in \<open>simp_all add: in_buf_def\<close>)
  then show ?thesis using assms by (simp add: shown_def in_buf_def nat_add_distrib)
qed

lemma shown_wrapped:
  assumes "in_buf (vt_top vt)" and "int i < circ_dist (vt_tail vt) (vt_top vt)"
    and "10000 \<le> vt_top vt + int i" and "i < 2000"
  shows "shown vt i = vt_buf vt ! nat (vt_top vt + int i - 10000)"
proof -
  have "(vt_top vt + int i) mod 10000 = (vt_top vt + int i - 10000) mod 10000"
    using mod_add_self2 [of "vt_top vt + int i - 10000" 10000] by simp
  also have "\<dots> = vt_top vt + int i - 10000"
    by (rule mod_pos_pos_trivial) (use assms in \<open>simp_all add: in_buf_def\<close>)
  finally show ?thesis using assms by (simp add: shown_def)
qed


lemma fill_straight:
  assumes inv: "vt_inv vt" and m: "m \<le> 2000" "vt_top vt + int m \<le> 10000"
    and d: "int m \<le> circ_dist (vt_tail vt) (vt_top vt)" "m < 2000 \<longrightarrow> int m = circ_dist (vt_tail vt) (vt_top vt)"
  shows "memcpy (replicate 2000 0) (drop (nat (vt_top vt)) (vt_buf vt)) m = Some (map (shown vt) [0 ..< 2000])"
proof (rule memcpy_blank)
  note v = vt_invD [OF inv]
  have top: "0 \<le> vt_top vt" "vt_top vt < 10000" using v(3) by (simp_all add: at_row_def in_buf_def)
  show "m \<le> 2000" by (rule m(1))
  show "m \<le> length (drop (nat (vt_top vt)) (vt_buf vt))" using m(2) v(6) top by simp
  show "\<forall>i < m. shown vt i = drop (nat (vt_top vt)) (vt_buf vt) ! i"
  proof (intro allI impI)
    fix i assume "i < m"
    then show "shown vt i = drop (nat (vt_top vt)) (vt_buf vt) ! i"
      by (intro shown_below) (use m(2) d(1) v in auto)
  qed
  show "\<forall>i. m \<le> i \<and> i < 2000 \<longrightarrow> shown vt i = 0" using d(2) by (auto simp: shown_def)
qed

lemma fill_wrapped:
  assumes inv: "vt_inv vt" and wrap: "vt_tail vt < vt_top vt" and f: "f = 10000 - vt_top vt" "f < 2000"
    and m: "m = nat (if f + vt_tail vt \<le> 2000 then vt_tail vt else 2000 - f)"
  shows "memcpy (replicate 2000 0) (drop (nat (vt_top vt)) (vt_buf vt)) (nat f) =
      Some (drop (nat (vt_top vt)) (vt_buf vt) @ replicate (2000 - nat f) 0)"
    and "memcpy (replicate (2000 - nat f) 0) (vt_buf vt) m = Some (map (\<lambda>i. shown vt (nat f + i)) [0 ..< 2000 - nat f])"
    and "drop (nat (vt_top vt)) (vt_buf vt) @ map (\<lambda>i. shown vt (nat f + i)) [0 ..< 2000 - nat f] =
      map (shown vt) [0 ..< 2000]"
    and "length (drop (nat (vt_top vt)) (vt_buf vt)) = nat f"
proof -
  note v = vt_invD [OF inv]
  have top: "0 \<le> vt_top vt" "vt_top vt < 10000" using v(3) by (simp_all add: at_row_def in_buf_def)
  have tail: "0 \<le> vt_tail vt" "vt_tail vt < 10000" using v(2) by (simp_all add: at_row_def in_buf_def)
  have dist: "circ_dist (vt_tail vt) (vt_top vt) = vt_tail vt + f" using wrap v by (simp add: circ_dist_eq f(1))
  show len: "length (drop (nat (vt_top vt)) (vt_buf vt)) = nat f" using v(6) top f by simp
  then show "memcpy (replicate 2000 0) (drop (nat (vt_top vt)) (vt_buf vt)) (nat f) =
      Some (drop (nat (vt_top vt)) (vt_buf vt) @ replicate (2000 - nat f) 0)"
    using f(2) by (subst memcpy_eq) auto
  show "memcpy (replicate (2000 - nat f) 0) (vt_buf vt) m = Some (map (\<lambda>i. shown vt (nat f + i)) [0 ..< 2000 - nat f])"
  proof (rule memcpy_blank)
    show "m \<le> 2000 - nat f" using m f top by auto
    show "m \<le> length (vt_buf vt)" using m v(6) tail f top by auto
    show "\<forall>i < m. shown vt (nat f + i) = vt_buf vt ! i"
    proof (intro allI impI)
      fix i assume i: "i < m"
      have "shown vt (nat f + i) = vt_buf vt ! nat (vt_top vt + int (nat f + i) - 10000)"
        by (rule shown_wrapped) (use i m f top v(3) dist in \<open>auto split: if_splits\<close>)
      also have "nat (vt_top vt + int (nat f + i) - 10000) = i" using f top by simp
      finally show "shown vt (nat f + i) = vt_buf vt ! i" .
    qed
    show "\<forall>i. m \<le> i \<and> i < 2000 - nat f \<longrightarrow> shown vt (nat f + i) = 0"
      using m f top tail by (auto simp: shown_def dist split: if_splits)
  qed
  show "drop (nat (vt_top vt)) (vt_buf vt) @ map (\<lambda>i. shown vt (nat f + i)) [0 ..< 2000 - nat f] =
      map (shown vt) [0 ..< 2000]"
  proof (rule nth_equalityI)
    show "length (drop (nat (vt_top vt)) (vt_buf vt) @ map (\<lambda>i. shown vt (nat f + i)) [0 ..< 2000 - nat f]) =
        length (map (shown vt) [0 ..< 2000])" unfolding length_append len using f(2) by simp
    fix i assume "i < length (drop (nat (vt_top vt)) (vt_buf vt) @ map (\<lambda>i. shown vt (nat f + i)) [0 ..< 2000 - nat f])"
    then have i: "i < 2000" unfolding length_append len using f(2) by simp
    have lo: "shown vt i = drop (nat (vt_top vt)) (vt_buf vt) ! i" if "i < nat f"
      by (rule shown_below) (use that f top tail dist v in auto)
    show "(drop (nat (vt_top vt)) (vt_buf vt) @ map (\<lambda>i. shown vt (nat f + i)) [0 ..< 2000 - nat f]) ! i =
        map (shown vt) [0 ..< 2000] ! i"
      unfolding nth_append len using i lo by auto
  qed
qed


lemma vt_fill_tempbuf_eq:
  assumes inv: "vt_inv vt"
  shows "vt_fill_tempbuf vt = Some (map (shown vt) [0 ..< 2000])"
proof -
  note v = vt_invD [OF inv]
  have top: "0 \<le> vt_top vt" "vt_top vt < 10000" using v(3) by (simp_all add: at_row_def in_buf_def)
  have tail: "0 \<le> vt_tail vt" "vt_tail vt < 10000" using v(2) by (simp_all add: at_row_def in_buf_def)
  have ms: "memset (vt_tempbuf vt) 0 2000 = Some (replicate 2000 0)" using v(7) by (simp add: memset_eq)
  have at: "buf_at (vt_buf vt) (vt_top vt) = Some (drop (nat (vt_top vt)) (vt_buf vt))" using top v(6) by (simp add: buf_at_def)
  let ?src = "drop (nat (vt_top vt)) (vt_buf vt)"
  show ?thesis
  proof (cases "vt_top vt \<le> vt_tail vt")
    case True
    then have dist: "circ_dist (vt_tail vt) (vt_top vt) = vt_tail vt - vt_top vt" using v by (simp add: circ_dist_eq)
    show ?thesis
    proof (cases "vt_tail vt - vt_top vt \<le> 2000")
      case short: True
      have "memcpy (replicate 2000 0) ?src (nat (vt_tail vt - vt_top vt)) = Some (map (shown vt) [0 ..< 2000])"
        by (rule fill_straight [OF inv]) (use short True dist tail in auto)
      then show ?thesis using ms at True short by (simp add: vt_fill_tempbuf_def)
    next
      case False
      have "memcpy (replicate 2000 0) ?src 2000 = Some (map (shown vt) [0 ..< 2000])"
        by (rule fill_straight [OF inv]) (use False True dist tail in auto)
      then show ?thesis using ms at True False by (simp add: vt_fill_tempbuf_def)
    qed
  next
    case False
    then have wrap: "vt_tail vt < vt_top vt" by simp
    have dist: "circ_dist (vt_tail vt) (vt_top vt) = vt_tail vt - vt_top vt + 10000" using v False by (simp add: circ_dist_eq)
    show ?thesis
    proof (cases "10000 - vt_top vt \<ge> 2000")
      case True
      have "memcpy (replicate 2000 0) ?src 2000 = Some (map (shown vt) [0 ..< 2000])"
        by (rule fill_straight [OF inv]) (use True dist tail in auto)
      then show ?thesis using ms at True False by (simp add: vt_fill_tempbuf_def)
    next
      case short: False
      define f where "f = 10000 - vt_top vt"
      have f: "f < 2000" using short by (simp add: f_def)
      note w = fill_wrapped [OF inv wrap f_def f refl]
      have "buf_at (?src @ replicate (2000 - nat f) 0) f = Some (replicate (2000 - nat f) 0)"
        using w(4) top by (simp add: buf_at_def f_def)
      moreover have "take (nat f) (?src @ replicate (2000 - nat f) 0) = ?src" using w(4) by simp
      ultimately show ?thesis
        using ms at False short w(1-3) by (simp add: vt_fill_tempbuf_def Let_def flip: f_def)
    qed
  qed
qed

text \<open>The screen is in step with the current terminal: its cells show the terminal and the cursor is at its place.\<close>

definition rel_cursor :: "virtterm \<Rightarrow> int" where
  "rel_cursor vt = circ_dist (vt_cursor vt) (vt_top vt)"

definition in_step :: "vterms \<Rightarrow> bool" where
  "in_step s \<longleftrightarrow> (\<exists>k. vt_curterm s = Some k \<and> k < length (vt_terms s) \<and>
     2000 \<le> length (videoram s) \<and> take 2000 (videoram s) = map (vcell \<circ> shown (vt_terms s ! k)) [0 ..< 2000] \<and>
     crt_cursor s = word_of_int (rel_cursor (vt_terms s ! k)))"

lemma crt_split: "push_bit 8 (drop_bit 8 p) OR (p AND 0xff) = (p :: 16 word)"
proof -
  have m: "(0xff :: 16 word) = mask 8" by (simp add: mask_eq_exp_minus_1)
  show ?thesis unfolding m by (auto intro!: bit_word_eqI simp: bit_simps)
qed

lemma cell_index:
  assumes "0 \<le> d" and "d < 10000"
  shows "uint (word_of_int (cdiv d 80) :: byte) * 80 + uint (word_of_int (crem d 80) :: byte) = d"
proof -
  have "0 \<le> d div 80" "d div 80 < 256" "0 \<le> d mod 80" "d mod 80 < 256"
    using assms pos_mod_bound [of 80 d] row_range [of d] by (simp_all add: in_buf_def)
  then have "(d div 80) mod 256 * 80 + (d mod 80) mod 256 = d div 80 * 80 + d mod 80" by simp
  then show ?thesis using assms by (simp add: uint_word_of_int)
qed


lemma vt_cur_Some: "vt_curterm s = Some k \<Longrightarrow> k < length (vt_terms s) \<Longrightarrow> vt_cur s = Some (vt_terms s ! k)"
  by (simp add: vt_cur_def)

lemma screen_move_cursor_eq:
  assumes "0 \<le> d" and "d < 10000"
  shows "screen_move_cursor (word_of_int (crem d 80)) (word_of_int (cdiv d 80)) s = s\<lparr>crt_cursor := word_of_int d\<rparr>"
  unfolding screen_move_cursor_def Let_def crt_split cell_index [OF assms] ..

lemma vt_cursor_redraw_eq:
  assumes "vt_curterm s = Some k" and "k < length (vt_terms s)" and "vt_inv (vt_terms s ! k)"
  shows "vt_cursor_redraw s = Some (s\<lparr>crt_cursor := word_of_int (rel_cursor (vt_terms s ! k))\<rparr>)"
proof -
  let ?vt = "vt_terms s ! k"
  note v = vt_invD [OF assms(3)]
  have "0 \<le> rel_cursor ?vt" "rel_cursor ?vt < 10000" using circ_dist_range v by (simp_all add: rel_cursor_def)
  then show ?thesis
    using screen_move_cursor_eq [of "rel_cursor ?vt" s]
    unfolding vt_cursor_redraw_def vt_cur_Some [OF assms(1,2)] by (simp flip: rel_cursor_def)
qed

lemma shown_tempbuf [simp]: "shown (vt\<lparr>vt_tempbuf := t\<rparr>) = shown vt"
  by (simp add: shown_def fun_eq_iff)

lemma rel_cursor_tempbuf [simp]: "rel_cursor (vt\<lparr>vt_tempbuf := t\<rparr>) = rel_cursor vt"
  by (simp add: rel_cursor_def)

text \<open>Redrawing brings the screen in step.\<close>

lemma vt_redraw_in_step:
  assumes k: "vt_curterm s = Some k" "k < length (vt_terms s)" and inv: "\<forall>vt \<in> set (vt_terms s). vt_inv vt"
    and vram: "2000 \<le> length (videoram s)"
  shows "\<exists>s'. vt_redraw s = Some s' \<and> in_step s' \<and> (\<forall>vt \<in> set (vt_terms s'). vt_inv vt) \<and>
    vt_curterm s' = Some k \<and> length (vt_terms s') = length (vt_terms s) \<and> length (videoram s') = length (videoram s) \<and>
    (\<forall>i < length (vt_terms s). shown (vt_terms s' ! i) = shown (vt_terms s ! i))"
proof -
  define vt where "vt = vt_terms s ! k"
  define t where "t = map (shown vt) [0 ..< 2000]"
  have "vt \<in> set (vt_terms s)" using k(2) by (simp add: vt_def)
  then have v: "vt_inv vt" using inv by blast
  have len: "length t = 2000" by (simp add: t_def)
  then have v': "vt_inv (vt\<lparr>vt_tempbuf := t\<rparr>)" using v by (simp add: vt_inv_def)
  define s1 where "s1 = s\<lparr>vt_terms := (vt_terms s)[k := vt\<lparr>vt_tempbuf := t\<rparr>],
      videoram := map vcell t @ drop 2000 (videoram s)\<rparr>"
  have s1: "vt_curterm s1 = Some k" "k < length (vt_terms s1)" "vt_terms s1 ! k = vt\<lparr>vt_tempbuf := t\<rparr>"
    "2000 \<le> length (videoram s1)" "take 2000 (videoram s1) = map (vcell \<circ> shown vt) [0 ..< 2000]"
    using k len by (simp_all add: s1_def t_def)
  have "vt_redraw s = vt_cursor_redraw s1"
    using vt_fill_tempbuf_eq [OF v] vt_cur_Some [OF k] k vram len
    by (simp add: vt_redraw_def screen_putbuf_def vt_cur_update_def s1_def flip: vt_def t_def)
  then have "vt_redraw s = Some (s1\<lparr>crt_cursor := word_of_int (rel_cursor vt)\<rparr>)"
    using vt_cursor_redraw_eq [OF s1(1,2)] s1(3) v' by simp
  moreover have "in_step (s1\<lparr>crt_cursor := word_of_int (rel_cursor vt)\<rparr>)" using s1 by (simp add: in_step_def)
  moreover have "\<forall>vt \<in> set (vt_terms s1). vt_inv vt"
    using inv v' set_update_subset_insert [of "vt_terms s" k] by (auto simp: s1_def)
  moreover have "length (videoram s1) = length (videoram s)" "length (vt_terms s1) = length (vt_terms s)"
    using vram len by (simp_all add: s1_def)
  moreover have "\<forall>i < length (vt_terms s). shown (vt_terms s1 ! i) = shown (vt_terms s ! i)"
  proof (intro allI impI)
    fix i assume "i < length (vt_terms s)"
    then show "shown (vt_terms s1 ! i) = shown (vt_terms s ! i)" by (cases "i = k") (simp_all add: s1_def vt_def)
  qed
  ultimately show ?thesis using s1(1) by auto
qed


section \<open>Putting a character keeps the screen in step\<close>

text \<open>The position of cell \<open>i\<close>, by its distance from the top.\<close>

lemma cell_pos:
  assumes "in_buf tp" and "i < 10000"
  shows "in_buf ((tp + int i) mod 10000)" and "circ_dist ((tp + int i) mod 10000) tp = int i"
proof -
  show b: "in_buf ((tp + int i) mod 10000)" by (simp add: in_buf_def)
  show "circ_dist ((tp + int i) mod 10000) tp = int i"
  proof (cases "tp + int i < 10000")
    case True
    then have "(tp + int i) mod 10000 = tp + int i" using assms by (intro mod_pos_pos_trivial) (simp_all add: in_buf_def)
    then show ?thesis using circ_dist_eq [OF b assms(1)] by simp
  next
    case False
    have "(tp + int i) mod 10000 = (tp + int i - 10000) mod 10000"
      using mod_add_self2 [of "tp + int i - 10000" 10000] by simp
    also have "\<dots> = tp + int i - 10000"
      by (rule mod_pos_pos_trivial) (use assms False in \<open>simp_all add: in_buf_def\<close>)
    finally show ?thesis using circ_dist_eq [OF b assms(1)] assms by simp
  qed
qed

lemma clear_row_nth:
  assumes "at_row t" and "in_buf p" and "length buf = 10000"
  shows "clear_row t buf ! nat p = (if circ_dist p t < 80 then 0 else buf ! nat p)"
proof -
  have t: "0 \<le> t" "t + 80 \<le> 10000" using row_fits [OF assms(1)] by simp_all
  have p: "0 \<le> p" "p < 10000" using assms(2) by (simp_all add: in_buf_def)
  have "circ_dist p t < 80 \<longleftrightarrow> t \<le> p \<and> p < t + 80" using t p circ_dist_eq [OF assms(2)] assms(1) by auto
  moreover have "clear_row t buf ! nat p = (if t \<le> p \<and> p < t + 80 then 0 else buf ! nat p)"
    using t p assms(3) by (auto simp: clear_row_def nth_append nat_less_iff nat_diff_distrib simp flip: nat_add_distrib)
  ultimately show ?thesis by simp
qed

lemma tail_near:
  assumes inv: "vt_inv vt" and adv: "advances (vt_tail vt) (vt_cursor vt)" and vis: "rel_cursor vt < 2000"
  shows "circ_dist (vt_tail vt) (vt_top vt) = circ_dist (vt_tail vt) (vt_cursor vt) + rel_cursor vt"
    and "1 \<le> circ_dist (vt_tail vt) (vt_cursor vt)" and "circ_dist (vt_tail vt) (vt_cursor vt) \<le> 80"
    and "circ_dist (next_row (vt_tail vt)) (vt_top vt) = circ_dist (vt_tail vt) (vt_top vt) + 80"
proof -
  note v = vt_invD [OF inv]
  note rows = at_row_in [OF v(2)] at_row_in [OF v(3)]
  show near: "1 \<le> circ_dist (vt_tail vt) (vt_cursor vt)" "circ_dist (vt_tail vt) (vt_cursor vt) \<le> 80"
  proof -
    have "circ_dist (vt_tail vt) (vt_cursor vt) = 1 \<or>
        circ_dist (vt_tail vt) (vt_cursor vt) = 80 * (vt_cursor vt div 80) + 80 - vt_cursor vt"
      using adv inc_dist(1) [OF v(4)] next_row_dist [OF v(4)] unfolding advances_def by metis
    with row_split [of "vt_cursor vt"] show "1 \<le> circ_dist (vt_tail vt) (vt_cursor vt)"
      "circ_dist (vt_tail vt) (vt_cursor vt) \<le> 80" by linarith+
  qed
  show top: "circ_dist (vt_tail vt) (vt_top vt) = circ_dist (vt_tail vt) (vt_cursor vt) + rel_cursor vt"
    using circ_dist_trans [OF rows(1) v(4) rows(2)] near vis circ_dist_range [OF rows]
    unfolding rel_cursor_def by linarith
  have n: "in_buf (next_row (vt_tail vt))" using next_row_row [OF rows(1)] by simp
  have "circ_dist (next_row (vt_tail vt)) (vt_tail vt) = 80"
    using next_row_dist [OF rows(1)] v(2) mult_div_mod_eq [of 80 "vt_tail vt"] unfolding at_row_def by linarith
  then show "circ_dist (next_row (vt_tail vt)) (vt_top vt) = circ_dist (vt_tail vt) (vt_top vt) + 80"
    using circ_dist_trans [OF n rows] near vis top circ_dist_range [OF n rows(2)] by linarith
qed

lemma shown_new_tail:
  assumes inv: "vt_inv vt" and adv: "advances (vt_tail vt) (vt_cursor vt)" and vis: "rel_cursor vt < 2000" and i: "i < 2000"
  shows "shown (vt\<lparr>vt_head := h, vt_buf := clear_row (vt_tail vt) (vt_buf vt), vt_tail := next_row (vt_tail vt)\<rparr>) i = shown vt i"
proof -
  note v = vt_invD [OF inv]
  note rows = at_row_in [OF v(2)] at_row_in [OF v(3)]
  note near = tail_near [OF inv adv vis]
  define p where "p = (vt_top vt + int i) mod 10000"
  let ?d = "circ_dist (vt_tail vt) (vt_top vt)"
  have p: "in_buf p" "circ_dist p (vt_top vt) = int i" using cell_pos [OF rows(2), of i] i by (simp_all add: p_def)
  have "circ_dist p (vt_tail vt) < 80 \<longleftrightarrow> ?d \<le> int i" if "int i < ?d + 80"
    using circ_dist_trans [OF p(1) rows] p(2) circ_dist_range [OF p(1) rows(1)] near vis that by linarith
  then show ?thesis using clear_row_nth [OF v(2) p(1) v(6)] near(4) unfolding shown_def by (simp flip: p_def)
qed

lemma shown_put:
  assumes inv: "vt_inv vt" and vis: "rel_cursor vt < 2000" "rel_cursor vt < circ_dist (vt_tail vt) (vt_top vt)" and i: "i < 2000"
  shows "shown (vt\<lparr>vt_buf := (vt_buf vt)[nat (vt_cursor vt) := c]\<rparr>) i = (if i = nat (rel_cursor vt) then c else shown vt i)"
proof -
  note v = vt_invD [OF inv]
  note top = at_row_in [OF v(3)]
  define p where "p = (vt_top vt + int i) mod 10000"
  have p: "in_buf p" "circ_dist p (vt_top vt) = int i" using cell_pos [OF top, of i] i by (simp_all add: p_def)
  have rel: "0 \<le> rel_cursor vt" using circ_dist_range [OF v(4) top] by (simp add: rel_cursor_def)
  have "p = vt_cursor vt \<longleftrightarrow> int i = rel_cursor vt"
    using p(2) circ_dist_inj [OF p(1) v(4) top] by (auto simp: rel_cursor_def)
  moreover have "nat p = nat (vt_cursor vt) \<longleftrightarrow> p = vt_cursor vt" using p(1) v(4) by (auto simp: in_buf_def)
  moreover have "nat (vt_cursor vt) < length (vt_buf vt)" using v(4,6) by (simp add: in_buf_def nat_less_iff)
  moreover have "i = nat (rel_cursor vt) \<longleftrightarrow> int i = rel_cursor vt" using rel by linarith
  moreover have "shown (vt\<lparr>vt_buf := b\<rparr>) i = (if int i < circ_dist (vt_tail vt) (vt_top vt) then b ! nat p else 0)" for b
    by (simp add: shown_def p_def)
  moreover have "shown vt i = (if int i < circ_dist (vt_tail vt) (vt_top vt) then vt_buf vt ! nat p else 0)"
    by (simp add: shown_def p_def)
  ultimately show ?thesis using vis(2) by (cases "int i = rel_cursor vt") (simp_all add: nth_list_update)
qed


lemma vt_move_top_inv:
  assumes inv: "vt_inv vt"
  shows "vt_inv (vt_move_top vt)" and "rel_cursor (vt_move_top vt) < 2000"
    and "vt_top (vt_move_top vt) = vt_top vt \<Longrightarrow> vt_move_top vt = vt"
proof -
  note v = vt_invD [OF inv]
  let ?n = "next_row (vt_cursor vt)"
  have n: "at_row ?n" "in_buf ?n" using next_row_row [OF v(4)] by simp_all
  obtain a where a: "?n = 80 * a" "0 \<le> a" "a < 125" using n(1) by (rule at_rowE)
  have e: "buf_add ?n (- 2000) = (if a < 25 then 80 * (a + 100) else 80 * (a - 25))"
    using buf_add_in [OF n(2), of "- 2000"] a by auto
  have row: "at_row (buf_add ?n (- 2000))" unfolding e using a at_row_mult [of "a + 100"] at_row_mult [of "a - 25"] by simp
  have "circ_dist ?n (buf_add ?n (- 2000)) = 2000"
    unfolding circ_dist_eq [OF n(2) at_row_in [OF row]] unfolding e unfolding a(1) using a(2,3) by simp
  then have near: "circ_dist (vt_cursor vt) (buf_add ?n (- 2000)) < 2000"
    using circ_dist_trans [OF n(2) v(4) at_row_in [OF row]] next_row_dist [OF v(4)] row_split [of "vt_cursor vt"]
      circ_dist_range [OF v(4) at_row_in [OF row]] by linarith
  show "vt_inv (vt_move_top vt)" using inv row by (simp add: vt_move_top_def vt_inv_def)
  show "rel_cursor (vt_move_top vt) < 2000" using near by (simp add: vt_move_top_def rel_cursor_def)
  show "vt_top (vt_move_top vt) = vt_top vt \<Longrightarrow> vt_move_top vt = vt"
    using near by (auto simp: vt_move_top_def)
qed

text \<open>What handling a character changes on the screen: one cell, if a character was put.\<close>

lemma shown_handle_char:
  assumes inv: "vt_inv vt" and vis: "rel_cursor vt < 2000" "rel_cursor vt < circ_dist (vt_tail vt) (vt_top vt)"
    and run: "vt_handle_char c vt = Some (w, vt1)" and i: "i < 2000"
  shows "shown vt1 i = (if w \<and> i = nat (rel_cursor vt) then c else shown vt i)"
proof -
  note v = vt_invD [OF inv]
  have sh: "shown (u\<lparr>vt_cursor := x\<rparr>) = shown u" for u x by (simp add: shown_def fun_eq_iff)
  have adv: "shown vt2 i = shown u i" if "vt_inv u" "advances n (vt_cursor u)" "rel_cursor u < 2000"
      "vt_advance_tail n u = Some vt2" for u n vt2
  proof (cases "n = vt_tail u")
    case True
    have "vt2 = u\<lparr>vt_head := if vt_head u = next_row (vt_tail u) then next_row (next_row (vt_tail u)) else vt_head u,
        vt_buf := clear_row (vt_tail u) (vt_buf u), vt_tail := next_row (vt_tail u)\<rparr>"
      using vt_advance_tail_eq [OF that(1,2)] that(4) unfolding True by (simp only: if_True refl option.inject)
    then show ?thesis using shown_new_tail [OF that(1) _ that(3) i] that(2) unfolding True by (simp only:)
  qed (use vt_advance_tail_eq [OF that(1,2)] that(4) in simp)
  consider "c = 8" | "c = 13" | "c = 10" | "c \<noteq> 8" "c \<noteq> 13" "c \<noteq> 10" by blast
  then show ?thesis
  proof cases
    case 3
    then obtain vt2 where vt2: "vt_advance_tail (next_row (vt_cursor vt)) vt = Some vt2"
      "w = False" "vt1 = vt2\<lparr>vt_cursor := next_row (vt_cursor vt)\<rparr>"
      using run by (auto simp: vt_handle_char_def bind_eq_Some_conv Let_def)
    have "shown vt2 i = shown vt i" by (rule adv [OF inv _ vis(1) vt2(1)]) (simp add: advances_def)
    then show ?thesis using vt2 by (simp add: sh)
  next
    case 4
    let ?u = "vt\<lparr>vt_buf := (vt_buf vt)[nat (vt_cursor vt) := c]\<rparr>"
    from 4 obtain vt2 where vt2: "vt_advance_tail (buf_add (vt_cursor vt) 1) ?u = Some vt2"
      "w = True" "vt1 = vt2\<lparr>vt_cursor := buf_add (vt_cursor vt) 1\<rparr>"
      using run by (auto simp: vt_handle_char_def bind_eq_Some_conv Let_def)
    have "vt_inv ?u" "rel_cursor ?u < 2000" using inv vis(1) by (simp_all add: vt_inv_def rel_cursor_def)
    then have "shown vt2 i = shown ?u i" by (intro adv [OF _ _ _ vt2(1)]) (simp_all add: advances_def)
    then show ?thesis using shown_put [OF inv vis i] vt2 by (simp add: sh)
  qed (use run in \<open>auto simp: vt_handle_char_def sh\<close>)
qed


definition vts_inv :: "vterms \<Rightarrow> bool" where
  "vts_inv s \<longleftrightarrow> (\<forall>vt \<in> set (vt_terms s). vt_inv vt)"

text \<open>The cursor is before the tail on its screen, if it is on the screen at all.\<close>

definition cursor_visible :: "virtterm \<Rightarrow> bool" where
  "cursor_visible vt \<longleftrightarrow> (rel_cursor vt < 2000 \<longrightarrow> rel_cursor vt < circ_dist (vt_tail vt) (vt_top vt))"

lemma putchar_step:
  assumes vram: "2000 \<le> length ram" "take 2000 ram = map (vcell \<circ> shown vt) [0 ..< 2000]" and r: "r < 2000"
    and sh: "\<And>i. i < 2000 \<Longrightarrow> shown vt1 i = (if i = r then c else shown vt i)"
  shows "take 2000 (ram[r := vcell c]) = map (vcell \<circ> shown vt1) [0 ..< 2000]"
proof (rule nth_equalityI)
  show "length (take 2000 (ram[r := vcell c])) = length (map (vcell \<circ> shown vt1) [0 ..< 2000])" using vram(1) by simp
  fix i assume "i < length (take 2000 (ram[r := vcell c]))"
  then have i: "i < 2000" by simp
  have "ram ! i = vcell (shown vt i)"
    using arg_cong [OF vram(2), of "\<lambda>l. l ! i"] i by simp
  then show "take 2000 (ram[r := vcell c]) ! i = map (vcell \<circ> shown vt1) [0 ..< 2000] ! i"
    using i sh [OF i] vram(1) by (simp add: nth_list_update)
qed

lemma vt_provide_char_current:
  assumes step: "in_step s" and inv: "vts_inv s" and k: "vt_curterm s = Some k" "k < length (vt_terms s)"
    and vis: "cursor_visible (vt_terms s ! k)"
  shows "\<exists>s'. vt_provide_char k c s = Some s' \<and> in_step s' \<and> vts_inv s' \<and> vt_curterm s' = Some k \<and>
    length (vt_terms s') = length (vt_terms s)"
proof -
  define vt where "vt = vt_terms s ! k"
  have v: "vt_inv vt" using inv k(2) by (simp add: vts_inv_def vt_def)
  note mv = vt_move_top_inv [OF v]
  from vt_handle_char_inv [OF mv(1)] obtain w vt1 where h: "vt_handle_char c (vt_move_top vt) = Some (w, vt1)"
    "vt_inv vt1" "vt_top vt1 = vt_top (vt_move_top vt)" by blast
  define s1 where "s1 = s\<lparr>vt_terms := (vt_terms s)[k := vt1]\<rparr>"
  have s1: "vt_curterm s1 = Some k" "k < length (vt_terms s1)" "vt_terms s1 ! k = vt1" "videoram s1 = videoram s"
    "length (vt_terms s1) = length (vt_terms s)" using k by (simp_all add: s1_def)
  have inv1: "\<forall>vt \<in> set (vt_terms s1). vt_inv vt"
    using inv h(2) set_update_subset_insert [of "vt_terms s" k vt1] by (auto simp: vts_inv_def s1_def)
  have vram: "2000 \<le> length (videoram s)" "take 2000 (videoram s) = map (vcell \<circ> shown vt) [0 ..< 2000]"
    using step k by (auto simp: in_step_def vt_def)
  show ?thesis
  proof (cases "vt_top vt = vt_top vt1")
    case False
    then have "vt_provide_char k c s = vt_redraw s1"
      using h(1) k by (simp add: vt_provide_char_def s1_def flip: vt_def)
    moreover have "2000 \<le> length (videoram s1)" unfolding s1(4) by (rule vram(1))
    ultimately show ?thesis using vt_redraw_in_step [OF s1(1,2) inv1] s1(5) unfolding vts_inv_def by metis
  next
    case True
    have same: "vt_move_top vt = vt" by (rule mv(3)) (rule trans [OF h(3) [symmetric] True [symmetric]])
    have rel: "rel_cursor vt < 2000" "0 \<le> rel_cursor vt"
      using mv(2) circ_dist_range vt_invD(3,4) [OF v] by (simp_all add: same rel_cursor_def)
    note sh = shown_handle_char [OF v rel(1) _ h(1) [unfolded same]]
    define ram where "ram = (if w then (videoram s)[nat (rel_cursor vt) := vcell c] else videoram s)"
    have ram: "take 2000 ram = map (vcell \<circ> shown vt1) [0 ..< 2000]"
    proof (cases w)
      case True
      then show ?thesis unfolding ram_def if_P [OF True]
        using vis rel by (intro putchar_step [OF vram]) (auto simp: sh cursor_visible_def simp flip: vt_def)
    next
      case False
      have "map (vcell \<circ> shown vt1) [0 ..< 2000] = map (vcell \<circ> shown vt) [0 ..< 2000]"
        using vis rel False by (intro map_cong) (auto simp: sh cursor_visible_def simp flip: vt_def)
      then show ?thesis using False vram by (simp add: ram_def)
    qed
    let ?s2 = "s1\<lparr>videoram := ram\<rparr>"
    have idx: "uint (word_of_int (cdiv (rel_cursor vt) 80) :: byte) * 80 +
        uint (word_of_int (crem (rel_cursor vt) 80) :: byte) = rel_cursor vt"
      by (rule cell_index) (use rel in simp_all)
    have put: "(if w then screen_putchar c (word_of_int (crem (rel_cursor vt) 80)) (word_of_int (cdiv (rel_cursor vt) 80)) s1
        else Some s1) = Some ?s2"
      unfolding screen_putchar_def idx Let_def using rel vram(1) s1(4) by (simp add: ram_def kassert_bind_True nat_less_iff)
    have "vt_provide_char k c s = vt_cursor_redraw ?s2"
      using put [unfolded rel_cursor_def True] True h(1) k
      by (cases w) (simp_all add: vt_provide_char_def Let_def flip: vt_def s1_def)
    also have "\<dots> = Some (?s2\<lparr>crt_cursor := word_of_int (rel_cursor vt1)\<rparr>)"
      using vt_cursor_redraw_eq [of ?s2 k] s1 h(2) by simp
    finally have "vt_provide_char k c s = Some (?s2\<lparr>crt_cursor := word_of_int (rel_cursor vt1)\<rparr>)" .
    moreover have "in_step (?s2\<lparr>crt_cursor := word_of_int (rel_cursor vt1)\<rparr>)"
      using s1 ram vram(1) by (auto simp: in_step_def ram_def)
    ultimately show ?thesis using s1 inv1 by (auto simp: vts_inv_def)
  qed
qed


lemma vt_provide_char_other:
  assumes step: "in_step s" and inv: "vts_inv s" and k: "vt_curterm s \<noteq> Some k" "k < length (vt_terms s)"
  shows "\<exists>s'. vt_provide_char k c s = Some s' \<and> in_step s' \<and> vts_inv s' \<and> vt_curterm s' = vt_curterm s \<and>
    length (vt_terms s') = length (vt_terms s)"
proof -
  have v: "vt_inv (vt_terms s ! k)" using inv k(2) by (simp add: vts_inv_def)
  from vt_handle_char_inv [OF vt_move_top_inv(1) [OF v]] obtain w vt1 where
    h: "vt_handle_char c (vt_move_top (vt_terms s ! k)) = Some (w, vt1)" "vt_inv vt1" by blast
  let ?s = "s\<lparr>vt_terms := (vt_terms s)[k := vt1]\<rparr>"
  have "vt_provide_char k c s = Some ?s" using h(1) k by (simp add: vt_provide_char_def)
  moreover have "in_step ?s" using step k(1) by (auto simp: in_step_def)
  moreover have "vts_inv ?s" using inv h(2) set_update_subset_insert [of "vt_terms s" k vt1] by (auto simp: vts_inv_def)
  ultimately show ?thesis by auto
qed

section \<open>Properties\<close>


lemma vt_init_term_inv: "vt_inv vt_init_term"
  by (simp add: vt_inv_def vt_init_term_def at_row_def in_buf_def circ_dist_def)

lemma vt_init_shown: "shown vt_init_term i = 0"
proof -
  have "circ_dist 80 0 = 80" by (simp add: circ_dist_def)
  then show ?thesis by (simp add: shown_def vt_init_term_def)
qed

definition fresh_terms :: vterms where
  "fresh_terms = \<lparr>vt_terms = replicate 3 vt_init_term, vt_curterm = Some 0, videoram = replicate 2000 (vcell 0),
     crt_cursor = 0, ipl = 0\<rparr>"

lemma fresh_terms_ok: "in_step fresh_terms" "vts_inv fresh_terms" "cursor_visible (vt_terms fresh_terms ! 1)"
    "cursor_visible (vt_terms fresh_terms ! 0)" "length (vt_terms fresh_terms) = 3"
proof -
  have one: "replicate 3 vt_init_term ! 0 = vt_init_term" "replicate 3 vt_init_term ! 1 = vt_init_term" by simp_all
  have rel: "rel_cursor vt_init_term = 0" by (simp add: rel_cursor_def vt_init_term_def circ_dist_def)
  have "map (vcell \<circ> shown vt_init_term) [0 ..< 2000] = replicate 2000 (vcell 0)"
    by (simp add: comp_def vt_init_shown map_replicate_const)
  then show "in_step fresh_terms" using rel one by (simp add: in_step_def fresh_terms_def)
  show "vts_inv fresh_terms" by (simp add: vts_inv_def fresh_terms_def vt_init_term_inv)
  show "length (vt_terms fresh_terms) = 3" by (simp add: fresh_terms_def)
  have "cursor_visible vt_init_term" unfolding cursor_visible_def rel by (simp add: vt_init_term_def circ_dist_def)
  then show "cursor_visible (vt_terms fresh_terms ! 1)" "cursor_visible (vt_terms fresh_terms ! 0)"
    using one by (simp_all add: fresh_terms_def)
qed


text \<open>
  C17: Redrawing reads and writes within the scroll buffer, the temporary buffer and the video
  memory, and afterwards cell \<open>i\<close> of the screen shows the \<open>i\<close>-th character from the top of the current terminal,
  across the wraparound of the buffer, and is empty behind the tail.
\<close>

theorem vt_redraw_shows:
  assumes "vt_curterm s = Some k" and "k < length (vt_terms s)" and "vts_inv s" and "2000 \<le> length (videoram s)"
  shows "\<exists>s'. vt_redraw s = Some s' \<and>
    take 2000 (videoram s') = map (\<lambda>i. vcell (shown (vt_terms s ! k) i)) [0 ..< 2000] \<and> vts_inv s'"
proof -
  obtain s' where s': "vt_redraw s = Some s'" "in_step s'" "vts_inv s'" "vt_curterm s' = Some k"
    "shown (vt_terms s' ! k) = shown (vt_terms s ! k)"
    using vt_redraw_in_step [OF assms(1,2) _ assms(4)] assms(2,3) unfolding vts_inv_def by blast
  from s'(2,4) have "take 2000 (videoram s') = map (vcell \<circ> shown (vt_terms s' ! k)) [0 ..< 2000]"
    by (auto simp: in_step_def)
  then show ?thesis using s'(1,3) unfolding s'(5) comp_def by blast
qed

theorem vt_redraw_shows_witness:
  "\<exists>s'. vt_redraw fresh_terms = Some s' \<and> vts_inv s' \<and>
    take 2000 (videoram s') = map (\<lambda>i. vcell (shown (vt_terms fresh_terms ! 0) i)) [0 ..< 2000]"
proof -
  have "vt_curterm fresh_terms = Some 0" "2000 \<le> length (videoram fresh_terms)" by (simp_all add: fresh_terms_def)
  then show ?thesis using vt_redraw_shows [OF _ _ fresh_terms_ok(2), of 0] fresh_terms_ok(5) by auto
qed

end
