(* ===== verification/Devices.thy ===== *)
theory Devices
  imports Kprelude
begin

unbundle bit_operations_syntax

text \<open>
  The tables of byte and block devices, drivers/bytedev.c and drivers/blockdev.c, and the memory devices of
  drivers/memdevs.c.  A device is its identifier, whether it has an operations table, and an object the
  device driver owns; a table is the list of registered devices in order.
\<close>

record 'o dev =
  dev_id :: nat
  dev_ops :: bool
  dev_obj :: 'o

abbreviation (input) NULL_DEVID :: nat where "NULL_DEVID \<equiv> 0"

definition MKDEVID :: "nat \<Rightarrow> nat \<Rightarrow> nat" where
  "MKDEVID major minor = (major * 256 OR minor) mod 2 ^ 32"

definition bytedev_register :: "'o dev option \<Rightarrow> 'o dev list \<Rightarrow> int \<times> 'o dev list" where
  "bytedev_register dev bytedevs =
    (case dev of
       None \<Rightarrow> (- 1, bytedevs)
     | Some d \<Rightarrow>
         (if dev_id d = NULL_DEVID \<or> \<not> dev_ops d then (- 1, bytedevs)
          else if \<exists>cd \<in> set bytedevs. dev_id d = dev_id cd then (- 1, bytedevs)
          else (0, bytedevs @ [d])))"

fun bytedev_lookup :: "nat \<Rightarrow> 'o dev list \<Rightarrow> 'o dev option option" where
  "bytedev_lookup i [] = Some None"
| "bytedev_lookup i (cd # cds) = do {
     kassert (dev_id cd \<noteq> NULL_DEVID);
     (if i = dev_id cd then Some (Some cd) else bytedev_lookup i cds)
   }"

text \<open>Registering a block device also initialises its memory object, the argument \<open>mmobj_init\<close>.\<close>

definition blockdev_register :: "('o \<Rightarrow> 'o) \<Rightarrow> 'o dev option \<Rightarrow> 'o dev list \<Rightarrow> int \<times> 'o dev list" where
  "blockdev_register mmobj_init dev blockdevs =
    (case dev of
       None \<Rightarrow> (- 1, blockdevs)
     | Some d \<Rightarrow>
         (if dev_id d = NULL_DEVID \<or> \<not> dev_ops d then (- 1, blockdevs)
          else if \<exists>bd \<in> set blockdevs. dev_id d = dev_id bd then (- 1, blockdevs)
          else (0, blockdevs @ [d\<lparr>dev_obj := mmobj_init (dev_obj d)\<rparr>])))"

fun blockdev_lookup :: "nat \<Rightarrow> 'o dev list \<Rightarrow> 'o dev option" where
  "blockdev_lookup i [] = None"
| "blockdev_lookup i (bd # bds) = (if i = dev_id bd then Some bd else blockdev_lookup i bds)"

definition null_read :: int where "null_read = - ENOMEM"
definition null_write :: int where "null_write = - ENOMEM"
definition zero_read :: int where "zero_read = 0"

section \<open>The contract of a device table\<close>

text \<open>Several registrations in a row, whatever each of them returns.\<close>

fun registers :: "('o dev option \<Rightarrow> 'o dev list \<Rightarrow> int \<times> 'o dev list) \<Rightarrow> 'o dev option list \<Rightarrow> 'o dev list \<Rightarrow> 'o dev list" where
  "registers register [] ds = ds"
| "registers register (d # devs) ds = registers register devs (snd (register d ds))"

locale device_table =
  fixes register :: "'o dev option \<Rightarrow> 'o dev list \<Rightarrow> int \<times> 'o dev list"
    and lookup :: "nat \<Rightarrow> 'o dev list \<Rightarrow> 'o dev option option"
    and tinv :: "'o dev list \<Rightarrow> bool"
  assumes tinv_empty: "tinv []"
    and register_inv: "tinv ds \<Longrightarrow> tinv (snd (register dev ds))"
    and register_null: "register None ds = (- 1, ds)"
    and register_cases: "fst (register (Some d) ds) = 0 \<or> register (Some d) ds = (- 1, ds)"
    and register_iff: "tinv ds \<Longrightarrow> fst (register (Some d) ds) = 0 \<longleftrightarrow>
      dev_id d \<noteq> 0 \<and> dev_ops d \<and> lookup (dev_id d) ds = Some None"
    and lookup_new: "tinv ds \<Longrightarrow> fst (register (Some d) ds) = 0 \<Longrightarrow>
      \<exists>d'. lookup (dev_id d) (snd (register (Some d) ds)) = Some (Some d') \<and> dev_id d' = dev_id d"
    and lookup_old: "tinv ds \<Longrightarrow> fst (register (Some d) ds) = 0 \<Longrightarrow> i \<noteq> dev_id d \<Longrightarrow>
      lookup i (snd (register (Some d) ds)) = lookup i ds"
begin

lemma register_keeps:
  assumes "tinv ds" and "lookup i ds = Some (Some d)"
  shows "lookup i (snd (register dev ds)) = Some (Some d)"
proof (cases dev)
  case None
  then show ?thesis using assms(2) by (simp add: register_null)
next
  case (Some e)
  from register_cases [of e ds] show ?thesis
  proof
    assume ok: "fst (register (Some e) ds) = 0"
    then have "i \<noteq> dev_id e" using register_iff [OF assms(1), of e] assms(2) by auto
    then show ?thesis using lookup_old [OF assms(1) ok] Some assms(2) by simp
  qed (use Some assms(2) in simp)
qed

lemma registers_keep:
  "tinv ds \<Longrightarrow> lookup i ds = Some (Some d) \<Longrightarrow> lookup i (registers register devs ds) = Some (Some d)"
  by (induction devs arbitrary: ds) (auto intro: register_keeps register_inv)

text \<open>A device that was registered is found from then on, and a second one with its identifier is refused.\<close>

lemma registered_stays:
  assumes "tinv ds" and "fst (register (Some d) ds) = 0"
  shows "\<exists>d'. dev_id d' = dev_id d \<and> lookup (dev_id d) (registers register devs (snd (register (Some d) ds))) = Some (Some d') \<and>
    (dev_id e = dev_id d \<longrightarrow> fst (register (Some e) (registers register devs (snd (register (Some d) ds)))) = - 1)"
proof -
  have inv: "tinv (registers register devs ds')" if "tinv ds'" for ds'
    using that by (induction devs arbitrary: ds') (auto intro: register_inv)
  obtain d' where d': "lookup (dev_id d) (snd (register (Some d) ds)) = Some (Some d')" "dev_id d' = dev_id d"
    using lookup_new [OF assms] by blast
  let ?t = "registers register devs (snd (register (Some d) ds))"
  have l: "lookup (dev_id d) ?t = Some (Some d')" using registers_keep [OF register_inv [OF assms(1)] d'(1)] .
  have "fst (register (Some e) ?t) = - 1" if "dev_id e = dev_id d"
    using register_iff [OF inv [OF register_inv [OF assms(1)]], where d = e] l that register_cases [of e ?t] by auto
  then show ?thesis using l d'(2) by blast
qed

end

section \<open>Both tables are such tables\<close>

definition dev_table_ok :: "'o dev list \<Rightarrow> bool" where
  "dev_table_ok ds \<longleftrightarrow> distinct (map dev_id ds) \<and> (\<forall>d \<in> set ds. dev_id d \<noteq> 0 \<and> dev_ops d)"

lemma bytedev_lookup_find:
  "dev_table_ok ds \<Longrightarrow> bytedev_lookup i ds = Some (List.find (\<lambda>d. dev_id d = i) ds)"
  by (induction ds) (auto simp: dev_table_ok_def)

lemma blockdev_lookup_find: "blockdev_lookup i ds = List.find (\<lambda>d. dev_id d = i) ds"
  by (induction ds) auto

lemma find_snoc: "List.find P (xs @ [x]) = (case List.find P xs of None \<Rightarrow> if P x then Some x else None | r \<Rightarrow> r)"
  by (induction xs) auto

lemma find_id_None: "List.find (\<lambda>d. dev_id d = i) ds = None \<longleftrightarrow> (\<forall>d \<in> set ds. i \<noteq> dev_id d)"
  by (auto simp: find_None_iff)

lemma dev_table_snoc:
  "dev_table_ok ds \<Longrightarrow> dev_id d \<noteq> 0 \<Longrightarrow> dev_ops d \<Longrightarrow> \<forall>e \<in> set ds. dev_id d \<noteq> dev_id e \<Longrightarrow> dev_table_ok (ds @ [d])"
  by (auto simp: dev_table_ok_def)

lemma bytedev_register_ok: "dev_table_ok ds \<Longrightarrow> dev_table_ok (snd (bytedev_register dev ds))"
  by (auto simp: bytedev_register_def dev_table_snoc split: option.splits)

lemma blockdev_register_ok: "dev_table_ok ds \<Longrightarrow> dev_table_ok (snd (blockdev_register f dev ds))"
  by (auto simp: blockdev_register_def intro!: dev_table_snoc split: option.splits)

interpretation bytedevs: device_table bytedev_register bytedev_lookup dev_table_ok
proof
  show "dev_table_ok []" by (simp add: dev_table_ok_def)
  fix ds :: "'o dev list" and dev d i
  assume ok: "dev_table_ok ds"
  note ok' = bytedev_register_ok [OF ok]
  show "dev_table_ok (snd (bytedev_register dev ds))" by (rule ok')
  show "fst (bytedev_register (Some d) ds) = 0 \<longleftrightarrow> dev_id d \<noteq> 0 \<and> dev_ops d \<and> bytedev_lookup (dev_id d) ds = Some None"
    using ok by (auto simp: bytedev_register_def bytedev_lookup_find find_id_None)
  assume reg: "fst (bytedev_register (Some d) ds) = 0"
  then have new: "snd (bytedev_register (Some d) ds) = ds @ [d]" "\<forall>e \<in> set ds. dev_id d \<noteq> dev_id e"
    by (auto simp: bytedev_register_def split: if_splits)
  then have look: "bytedev_lookup j (snd (bytedev_register (Some d) ds)) = Some (List.find (\<lambda>d. dev_id d = j) (ds @ [d]))" for j
    using bytedev_lookup_find [OF bytedev_register_ok [OF ok, of "Some d"]] by simp
  have "List.find (\<lambda>e. dev_id e = dev_id d) ds = None" using new(2) by (simp add: find_id_None)
  then show "\<exists>d'. bytedev_lookup (dev_id d) (snd (bytedev_register (Some d) ds)) = Some (Some d') \<and> dev_id d' = dev_id d"
    unfolding look by (simp add: find_snoc)
  show "i \<noteq> dev_id d \<Longrightarrow> bytedev_lookup i (snd (bytedev_register (Some d) ds)) = bytedev_lookup i ds"
    unfolding look bytedev_lookup_find [OF ok] by (simp add: find_snoc split: option.splits)
qed (auto simp: bytedev_register_def)

interpretation blockdevs: device_table "blockdev_register f" "\<lambda>i ds. Some (blockdev_lookup i ds)" dev_table_ok for f
proof
  show "dev_table_ok []" by (simp add: dev_table_ok_def)
  fix ds :: "'a dev list" and dev d i
  assume ok: "dev_table_ok ds"
  show "dev_table_ok (snd (blockdev_register f dev ds))" by (rule blockdev_register_ok [OF ok])
  show "fst (blockdev_register f (Some d) ds) = 0 \<longleftrightarrow>
      dev_id d \<noteq> 0 \<and> dev_ops d \<and> Some (blockdev_lookup (dev_id d) ds) = Some None"
    by (auto simp: blockdev_register_def blockdev_lookup_find find_id_None)
  assume reg: "fst (blockdev_register f (Some d) ds) = 0"
  let ?d = "d\<lparr>dev_obj := f (dev_obj d)\<rparr>"
  have new: "snd (blockdev_register f (Some d) ds) = ds @ [?d]" "\<forall>e \<in> set ds. dev_id d \<noteq> dev_id e"
    using reg by (auto simp: blockdev_register_def split: if_splits)
  have "List.find (\<lambda>e. dev_id e = dev_id d) ds = None" using new(2) by (simp add: find_id_None)
  then show "\<exists>d'. Some (blockdev_lookup (dev_id d) (snd (blockdev_register f (Some d) ds))) = Some (Some d') \<and> dev_id d' = dev_id d"
    unfolding blockdev_lookup_find new(1) by (simp add: find_snoc)
  show "i \<noteq> dev_id d \<Longrightarrow> Some (blockdev_lookup i (snd (blockdev_register f (Some d) ds))) = Some (blockdev_lookup i ds)"
    unfolding blockdev_lookup_find new(1) by (simp add: find_snoc split: option.splits)
qed (auto simp: blockdev_register_def)



end
