(* ===== verification/Keyboard.thy ===== *)
theory Keyboard
  imports Virtterm Devices
begin

text \<open>
  The keyboard driver, drivers/tty/keyboard.c, on top of the virtual terminals, and the terminal devices of
  drivers/tty/tty.c and n\_tty.c, whose operations are not yet implemented in the program.  The state adds the
  modifier mask and whether the terminal system has registered its character handler.
\<close>

record kbd =
  kb_vt :: vterms
  curmask :: "32 word"
  keyboard_handler :: bool

abbreviation (input) SHIFT_MASK :: "32 word" where "SHIFT_MASK \<equiv> 1"
abbreviation (input) CTRL_MASK :: "32 word" where "CTRL_MASK \<equiv> 2"
abbreviation (input) ESC_MASK :: "32 word" where "ESC_MASK \<equiv> 4"

definition bytes :: "string \<Rightarrow> byte list" where
  "bytes s = map (word_of_nat \<circ> of_char) s"

definition normal_scancodes :: "byte list" where
  "normal_scancodes = [0, 27] @ bytes ''1234567890-='' @ [8, 9] @ bytes ''qwertyuiop[]'' @ [10, 0] @
     bytes ''asdfghjkl;'' @ [39, 96, 0, 92] @ bytes ''zxcvbnm,./'' @ [0, 0, 0, 32]"

definition shift_scancodes :: "byte list" where
  "shift_scancodes = [0, 27] @ bytes ''!@#$%^&*()_+'' @ [8, 9] @ bytes ''QWERTYUIOP{}'' @ [10, 0] @
     bytes ''ASDFGHJKL:'' @ [34, 126, 0, 124] @ bytes ''ZXCVBNM<>?'' @ [0, 0, 0, 32]"

text \<open>The character of a key, from the tables, under the modifiers; \<open>0xff\<close> is \<open>NO_CHAR\<close>.\<close>

definition key_char :: "byte \<Rightarrow> 32 word \<Rightarrow> byte" where
  "key_char sc msk =
    (if sc > 0x39 then 0xff
     else if msk AND CTRL_MASK \<noteq> 0 then
       (let c = shift_scancodes ! unat sc in if 0x40 \<le> c \<and> c < 0x60 then c - 0x40 else 0xff)
     else if msk AND SHIFT_MASK \<noteq> 0 then shift_scancodes ! unat sc
     else normal_scancodes ! unat sc)"

definition keyboard_intr_handler ::
    "(nat \<Rightarrow> nat \<Rightarrow> byte \<Rightarrow> vterms \<Rightarrow> vterms option) \<Rightarrow> byte \<Rightarrow> kbd \<Rightarrow> kbd option" where
  "keyboard_intr_handler call port s =
    (let break_code = port AND 0x80; sc = port AND NOT 0x80 in do {
       (c, s1) \<leftarrow>
         (if break_code \<noteq> 0 then
            (if sc = 0x2a \<or> sc = 0x36 then Some (0xff, s\<lparr>curmask := curmask s AND NOT SHIFT_MASK\<rparr>)
             else if sc = 0x1d then Some (0xff, s\<lparr>curmask := curmask s AND NOT CTRL_MASK\<rparr>)
             else Some (0xff, s))
          else if sc = 0x2a \<or> sc = 0x36 then Some (0xff, s\<lparr>curmask := curmask s OR SHIFT_MASK\<rparr>)
          else if sc = 0x1d then Some (0xff, s\<lparr>curmask := curmask s OR CTRL_MASK\<rparr>)
          else if curmask s AND ESC_MASK \<noteq> 0 then Some (0xff, s\<lparr>curmask := curmask s AND NOT ESC_MASK\<rparr>)
          else if sc = 0xe0 \<or> sc = 0xe1 then Some (0xff, s\<lparr>curmask := curmask s OR ESC_MASK\<rparr>)
          else if 0x3b \<le> sc \<and> sc \<le> 0x44 then
            do { (_, vt) \<leftarrow> vt_switch (uint sc - 0x3b) (kb_vt s); Some (0xff, s\<lparr>kb_vt := vt\<rparr>) }
          else if curmask s AND CTRL_MASK \<noteq> 0 \<and> sc = 0x1c then
            do { vt \<leftarrow> vt_scroll 25 False (kb_vt s); Some (0xff, s\<lparr>kb_vt := vt\<rparr>) }
          else if curmask s AND CTRL_MASK \<noteq> 0 \<and> sc = 0x0e then
            do { vt \<leftarrow> vt_scroll 25 True (kb_vt s); Some (0xff, s\<lparr>kb_vt := vt\<rparr>) }
          else Some (key_char sc (curmask s), s));
       (if c \<noteq> 0xff \<and> keyboard_handler s1
        then do { vt \<leftarrow> vt_keyboard_handler call c (kb_vt s1); Some (s1\<lparr>kb_vt := vt\<rparr>) }
        else Some s1)
     })"

definition keyboard_register_handler :: "bool \<Rightarrow> kbd \<Rightarrow> kbd" where
  "keyboard_register_handler handler s = s\<lparr>keyboard_handler := handler\<rparr>"

section \<open>Terminal devices\<close>

text \<open>The operations of tty.c and n\_tty.c that only report that they are not implemented.\<close>

definition tty_create :: "nat \<Rightarrow> int \<Rightarrow> nat option" where "tty_create driver i = None"
definition tty_global_driver_callback :: "nat \<Rightarrow> byte \<Rightarrow> vterms \<Rightarrow> vterms option" where
  "tty_global_driver_callback arg c s = Some s"
definition tty_echo :: "nat \<Rightarrow> byte list \<Rightarrow> vterms \<Rightarrow> vterms option" where "tty_echo driver out s = Some s"
definition tty_read :: int where "tty_read = 0"
definition tty_write :: int where "tty_write = 0"
definition n_tty_attach :: "nat \<Rightarrow> nat \<Rightarrow> vterms \<Rightarrow> vterms option" where "n_tty_attach ldisc tty s = Some s"
definition n_tty_read :: int where "n_tty_read = 0"
definition n_tty_receive_char :: "byte list option" where "n_tty_receive_char = None"
definition n_tty_process_char :: "byte list option" where "n_tty_process_char = None"

text \<open>n\_tty\_create: the discipline kmalloc returns, or NULL.\<close>

definition n_tty_create :: "(vterms \<Rightarrow> nat option) \<Rightarrow> vterms \<Rightarrow> nat option" where
  "n_tty_create kmalloc s = kmalloc s"

text \<open>
  The loop of tty\_init over the terminals; \<open>bytedev_of\<close> is the byte device embedded in a tty, and
  the callback that is registered is number 0.
\<close>

fun tty_init_loop :: "(vterms \<Rightarrow> nat option) \<Rightarrow> (nat \<Rightarrow> unit dev) \<Rightarrow> int list \<Rightarrow> unit dev list \<times> vterms \<Rightarrow>
    (unit dev list \<times> vterms) option" where
  "tty_init_loop kmalloc bytedev_of [] (bytedevs, s) = Some (bytedevs, s)"
| "tty_init_loop kmalloc bytedev_of (i # js) (bytedevs, s) = do {
     r \<leftarrow> vt_get_tty_driver i;
     ttyd \<leftarrow> r;
     tty \<leftarrow> tty_create ttyd i;
     (prev, s1) \<leftarrow> vt_register_callback_handler ttyd (Some 0) tty s;
     kassert (prev = None);
     ldisc \<leftarrow> n_tty_create kmalloc s1;
     s2 \<leftarrow> n_tty_attach ldisc tty s1;
     let (ret, bytedevs1) = bytedev_register (Some (bytedev_of tty)) bytedevs;
     kassert (ret = 0);
     tty_init_loop kmalloc bytedev_of js (bytedevs1, s2)
   }"

definition tty_init :: "(vterms \<Rightarrow> nat option) \<Rightarrow> (nat \<Rightarrow> unit dev) \<Rightarrow> unit dev list \<Rightarrow> kbd \<Rightarrow> (unit dev list \<times> kbd) option" where
  "tty_init kmalloc bytedev_of bytedevs s = do {
     vt \<leftarrow> vt_init (kb_vt s);
     let s1 = keyboard_register_handler True (s\<lparr>kb_vt := vt\<rparr>);
     (bytedevs1, vt1) \<leftarrow> tty_init_loop kmalloc bytedev_of [0 .. vt_num_terminals - 1] (bytedevs, kb_vt s1);
     Some (bytedevs1, s1\<lparr>kb_vt := vt1\<rparr>)
   }"

text \<open>
  bytedev\_init empties the table and starts the terminals; memdevs\_init, which follows, only
  reports that it is not implemented.
\<close>

definition memdevs_init :: "unit dev list \<Rightarrow> unit dev list" where
  "memdevs_init bytedevs = bytedevs"

definition bytedev_init :: "(vterms \<Rightarrow> nat option) \<Rightarrow> (nat \<Rightarrow> unit dev) \<Rightarrow> kbd \<Rightarrow> (unit dev list \<times> kbd) option" where
  "bytedev_init kmalloc bytedev_of s = do {
     (bytedevs, s1) \<leftarrow> tty_init kmalloc bytedev_of [] s;
     Some (memdevs_init bytedevs, s1)
   }"

section \<open>Properties\<close>

lemma masks_disjoint:
  "(m AND NOT SHIFT_MASK) AND ESC_MASK = m AND ESC_MASK" "(m AND NOT CTRL_MASK) AND ESC_MASK = m AND ESC_MASK"
  "(m OR SHIFT_MASK) AND ESC_MASK = m AND ESC_MASK" "(m OR CTRL_MASK) AND ESC_MASK = m AND ESC_MASK"
  by (simp_all add: bit.conj_disj_distrib2 and.assoc)

text \<open>
  C19: The escape codes 0xe0 and 0xe1 have no effect: the handler strips the upper bit before it
  compares with them, so they count as break codes of other keys, and no key press ever sets the escape
  mask.
\<close>

theorem keyboard_escape_unseen:
  assumes "keyboard_intr_handler call port s = Some s'" and "curmask s AND ESC_MASK = 0"
  shows "curmask s' AND ESC_MASK = 0 \<and> (port = 0xe0 \<or> port = 0xe1 \<longrightarrow> s' = s)"
proof
  have "\<not> bit (port AND NOT 0x80) 7" by (simp add: bit_simps bit_numeral_rec)
  moreover have "bit (0xe0 :: byte) 7" "bit (0xe1 :: byte) 7" by (simp_all add: bit_numeral_rec)
  ultimately have "port AND NOT 0x80 \<noteq> 0xe0" "port AND NOT 0x80 \<noteq> 0xe1" by metis+
  then show "curmask s' AND ESC_MASK = 0"
    using assms by (auto simp: keyboard_intr_handler_def Let_def bind_eq_Some_conv masks_disjoint and.assoc split: if_splits)
  show "port = 0xe0 \<or> port = 0xe1 \<longrightarrow> s' = s"
    using assms(1) by (auto simp: keyboard_intr_handler_def Let_def)
qed

theorem keyboard_escape_unseen_witness:
  "keyboard_intr_handler (\<lambda>_ _ _. Some) 0xe0 \<lparr>kb_vt = fresh_terms, curmask = 0, keyboard_handler = True\<rparr> =
     Some \<lparr>kb_vt = fresh_terms, curmask = 0, keyboard_handler = True\<rparr>"
proof -
  obtain s' where s': "keyboard_intr_handler (\<lambda>_ _ _. Some) 0xe0 \<lparr>kb_vt = fresh_terms, curmask = 0, keyboard_handler = True\<rparr> = Some s'"
    by (simp add: keyboard_intr_handler_def Let_def)
  from keyboard_escape_unseen [OF s'] s' show ?thesis by simp
qed


end
