(* ===== verification/Vmmap.thy ===== *)
theory Vmmap
  imports Kstring
begin

text \<open>
  Address spaces, vm/vmmap.c, with the system calls of vm/mmap.c, the permission checks of api/access.c and the
  decisions of vm/pagefault.c.  An address space is the list of its areas, first link first; page numbers are
  natural numbers, and sums of them wrap at 32 bits.  Memory objects are cells of a store with their kind,
  reference count and chain of shadowed objects (vm/anon.c, vm/shadow.c, include/mm/mmobj.h).

  Arguments of the operations that stand for other parts of the kernel: whether the slab allocators return an
  area (\<open>area_ok\<close>) or which address they return for an object (\<open>new_obj\<close>), and the mmap operation of a file.
\<close>

unbundle bit_operations_syntax

section \<open>Memory objects\<close>

datatype mmo_kind = Anon | Shadow | File_obj

record mmobj =
  mmo_ops :: mmo_kind
  mmo_refcount :: int
  mmo_nrespages :: int
  mmo_bottom_obj :: "nat option"
  mmo_shadowed :: "nat option"

type_synonym objs = "nat \<rightharpoonup> mmobj"

definition mmobj_init :: "mmo_kind \<Rightarrow> mmobj" where
  "mmobj_init ops = \<lparr>mmo_ops = ops, mmo_refcount = 0, mmo_nrespages = 0, mmo_bottom_obj = None, mmo_shadowed = None\<rparr>"

definition anon_create :: "(objs \<Rightarrow> nat option) \<Rightarrow> objs \<Rightarrow> nat option \<times> objs" where
  "anon_create new_obj h =
    (case new_obj h of
       None \<Rightarrow> (None, h)
     | Some o1 \<Rightarrow> (Some o1, h(o1 \<mapsto> (mmobj_init Anon)\<lparr>mmo_refcount := 1\<rparr>)))"

definition shadow_create :: "(objs \<Rightarrow> nat option) \<Rightarrow> objs \<Rightarrow> nat option \<times> objs" where
  "shadow_create new_obj h =
    (case new_obj h of
       None \<Rightarrow> (None, h)
     | Some o1 \<Rightarrow> (Some o1, h(o1 \<mapsto> (mmobj_init Shadow)\<lparr>mmo_refcount := 1\<rparr>)))"

definition anon_ref :: "nat \<Rightarrow> objs \<Rightarrow> objs option" where
  "anon_ref o1 h = do {
     m \<leftarrow> h o1;
     kassert (0 < mmo_refcount m \<and> mmo_ops m = Anon);
     Some (h(o1 \<mapsto> m\<lparr>mmo_refcount := mmo_refcount m + 1\<rparr>))
   }"

definition shadow_ref :: "nat \<Rightarrow> objs \<Rightarrow> objs option" where
  "shadow_ref o1 h = do {
     m \<leftarrow> h o1;
     kassert (0 < mmo_refcount m \<and> mmo_ops m = Shadow);
     Some (h(o1 \<mapsto> m\<lparr>mmo_refcount := mmo_refcount m + 1\<rparr>))
   }"

text \<open>The operation of the object's table; a file's object counts on its vnode (vo\_vref).\<close>

definition mmo_ref :: "nat \<Rightarrow> objs \<Rightarrow> objs option" where
  "mmo_ref o1 h = do {
     m \<leftarrow> h o1;
     (case mmo_ops m of
        Anon \<Rightarrow> anon_ref o1 h
      | Shadow \<Rightarrow> shadow_ref o1 h
      | File_obj \<Rightarrow> do { kassert (0 < mmo_refcount m); Some (h(o1 \<mapsto> m\<lparr>mmo_refcount := mmo_refcount m + 1\<rparr>)) })
   }"

section \<open>Areas\<close>

record vmarea =
  vma_start :: nat
  vma_end :: nat
  vma_off :: nat
  vma_prot :: int
  vma_flags :: int
  vma_vmmap :: bool
  vma_obj :: "nat option"

type_synonym vmmap = "vmarea list"

abbreviation (input) PN_LOW :: nat where "PN_LOW \<equiv> 1024"
abbreviation (input) PN_HIGH :: nat where "PN_HIGH \<equiv> 786432"

definition vmmap_create :: vmmap where
  "vmmap_create = []"

fun insert_before :: "vmarea \<Rightarrow> vmmap \<Rightarrow> vmmap" where
  "insert_before new [] = [new]"
| "insert_before new (area # areas) =
    (if vma_start area > vma_start new then new # area # areas else area # insert_before new areas)"

definition vmmap_insert :: "vmarea \<Rightarrow> vmmap \<Rightarrow> vmmap option" where
  "vmmap_insert newvma mp = do {
     kassert (\<not> vma_vmmap newvma);
     kassert (vma_start newvma < vma_end newvma);
     kassert (PN_LOW \<le> vma_start newvma \<and> vma_end newvma \<le> PN_HIGH);
     Some (insert_before (newvma\<lparr>vma_vmmap := True\<rparr>) mp)
   }"

fun range_scan :: "nat \<Rightarrow> nat \<Rightarrow> vmmap \<Rightarrow> bool" where
  "range_scan startvfn endvfn [] = True"
| "range_scan startvfn endvfn (area # areas) =
    (if vma_start area > endvfn \<or> vma_end area \<le> startvfn then range_scan startvfn endvfn areas else False)"

definition vmmap_is_range_empty :: "vmmap \<Rightarrow> nat \<Rightarrow> nat \<Rightarrow> int option" where
  "vmmap_is_range_empty mp startvfn npages = do {
     let endvfn = uadd startvfn npages;
     kassert (startvfn < endvfn \<and> PN_LOW \<le> startvfn \<and> endvfn \<le> PN_HIGH);
     Some (if range_scan startvfn endvfn mp then 1 else 0)
   }"

fun find_hilo :: "vmmap \<Rightarrow> nat \<Rightarrow> vmmap \<Rightarrow> int option" where
  "find_hilo mp npages [] = Some (- 1)"
| "find_hilo mp npages (area # areas) = do {
     i \<leftarrow> vmmap_is_range_empty mp (usub (vma_start area) npages) (usub (vma_start area) 1);
     (if i = 1 then Some (int (usub (vma_start area) npages)) else find_hilo mp npages areas)
   }"

fun find_lohi :: "vmmap \<Rightarrow> nat \<Rightarrow> vmmap \<Rightarrow> int option" where
  "find_lohi mp npages [] = Some (- 1)"
| "find_lohi mp npages (area # areas) = do {
     i \<leftarrow> vmmap_is_range_empty mp (uadd (vma_end area) 1) (uadd (vma_end area) npages);
     (if i = 1 then Some (int (uadd (vma_end area) 1)) else find_lohi mp npages areas)
   }"

abbreviation (input) VMMAP_DIR_LOHI :: int where "VMMAP_DIR_LOHI \<equiv> 1"
abbreviation (input) VMMAP_DIR_HILO :: int where "VMMAP_DIR_HILO \<equiv> 2"

definition vmmap_find_range :: "vmmap \<Rightarrow> nat \<Rightarrow> int \<Rightarrow> int option" where
  "vmmap_find_range mp npages dir = do {
     kassert (0 < npages);
     (if mp \<noteq> [] then
        (if dir = VMMAP_DIR_HILO then find_hilo mp npages (rev mp) else find_lohi mp npages mp)
      else if dir = VMMAP_DIR_HILO then Some (int (uadd (usub PN_HIGH npages) 1))
      else Some (int PN_LOW))
   }"

definition vmmap_lookup :: "vmmap \<Rightarrow> nat \<Rightarrow> vmarea option" where
  "vmmap_lookup mp vfn = List.find (\<lambda>area. vma_start area \<le> vfn \<and> vma_end area > vfn) mp"

text \<open>vmmap\_clone: the copies have no object set; running out of areas returns NULL.\<close>

fun clone_areas :: "(vmmap \<Rightarrow> bool) \<Rightarrow> vmmap \<Rightarrow> vmmap \<Rightarrow> vmmap option option" where
  "clone_areas area_ok [] newmap = Some (Some newmap)"
| "clone_areas area_ok (area # areas) newmap =
    (if \<not> area_ok newmap then Some None
     else do {
       newmap' \<leftarrow> vmmap_insert (area\<lparr>vma_vmmap := False, vma_obj := None\<rparr>) newmap;
       clone_areas area_ok areas newmap'
     })"

definition vmmap_clone :: "bool \<Rightarrow> (vmmap \<Rightarrow> bool) \<Rightarrow> vmmap \<Rightarrow> vmmap option option" where
  "vmmap_clone map_ok area_ok mp = (if map_ok then clone_areas area_ok mp vmmap_create else Some None)"

text \<open>
  vmmap\_remove, area by area: what becomes of the area, and whether a new area is cut off behind
  it.  The iteration has saved its next link before, so it does not visit what it inserts.  A failing
  vmarea\_alloc is not checked and stops the kernel.
\<close>

definition remove_area :: "nat \<Rightarrow> nat \<Rightarrow> vmarea \<Rightarrow> vmarea option \<times> vmarea option" where
  "remove_area lopage npages area =
    (let hi = uadd lopage npages in
     if vma_start area < lopage \<and> vma_end area > hi then
       (Some (area\<lparr>vma_end := lopage\<rparr>),
        Some \<lparr>vma_start = hi, vma_end = vma_end area, vma_off = uadd (vma_off area) npages,
          vma_prot = vma_prot area, vma_flags = vma_flags area, vma_vmmap = False, vma_obj = vma_obj area\<rparr>)
     else if vma_start area < lopage \<and> vma_end area \<le> hi \<and> vma_end area \<ge> lopage then
       (Some (area\<lparr>vma_end := lopage\<rparr>), None)
     else if vma_start area \<ge> lopage \<and> vma_end area > hi \<and> vma_start area \<le> hi then
       (Some (area\<lparr>vma_off := usub (uadd (uadd (vma_off area) lopage) npages) (vma_start area), vma_start := hi\<rparr>), None)
     else if vma_start area \<ge> lopage \<and> vma_end area \<le> hi then (None, None)
     else (Some area, None))"

text \<open>
  The areas before the saved next link, and those from it on.  The new area goes where
  vmmap\_insert puts it: among the former or the latter.  Every area of the map is visited once, and so is
  every area cut off from one, at most twice the length of the map in all.
\<close>

fun remove_areas ::
    "nat \<Rightarrow> (vmmap \<Rightarrow> bool) \<Rightarrow> nat \<Rightarrow> nat \<Rightarrow> vmmap \<Rightarrow> vmmap \<Rightarrow> objs \<Rightarrow> (vmmap \<times> objs) option" where
  "remove_areas fuel area_ok lopage npages acc [] h = Some (acc, h)"
| "remove_areas 0 area_ok lopage npages acc (area # areas) h = None"
| "remove_areas (Suc fuel) area_ok lopage npages acc (area # areas) h =
    (let acc' = (case fst (remove_area lopage npages area) of None \<Rightarrow> acc | Some a \<Rightarrow> acc @ [a])
     in case snd (remove_area lopage npages area) of
          None \<Rightarrow> remove_areas fuel area_ok lopage npages acc' areas h
        | Some n \<Rightarrow> do {
            kassert (area_ok (acc' @ areas));
            _ \<leftarrow> vmmap_insert n (acc' @ areas);
            h' \<leftarrow> (case vma_obj n of None \<Rightarrow> Some h | Some o1 \<Rightarrow> mmo_ref o1 h);
            let n' = n\<lparr>vma_vmmap := True\<rparr>;
            (if (\<exists>a \<in> set acc'. vma_start a > vma_start n) \<or> (case areas of [] \<Rightarrow> True | a # _ \<Rightarrow> vma_start a > vma_start n)
             then remove_areas fuel area_ok lopage npages (insert_before n' acc') areas h'
             else remove_areas fuel area_ok lopage npages acc' (insert_before n' areas) h')
          })"

definition vmmap_remove :: "(vmmap \<Rightarrow> bool) \<Rightarrow> vmmap \<Rightarrow> nat \<Rightarrow> nat \<Rightarrow> objs \<Rightarrow> (int \<times> vmmap \<times> objs) option" where
  "vmmap_remove area_ok mp lopage npages h = do {
     (mp', h') \<leftarrow> remove_areas (2 * length mp) area_ok lopage npages [] mp h;
     Some (0, mp', h')
   }"


section \<open>Mapping\<close>

text \<open>
  What both branches of vmmap\_map do with the new area.  A file's mmap operation returns a negative
  error, or a result and its object; the object of an area whose shadow object cannot be created stays
  unset, and so does that of an area whose mapping failed, which stays in the address space.
\<close>

abbreviation (input) MAP_SHARED :: int where "MAP_SHARED \<equiv> 1"
abbreviation (input) MAP_PRIVATE :: int where "MAP_PRIVATE \<equiv> 2"

definition map_area :: "(vmmap \<Rightarrow> bool) \<Rightarrow> (objs \<Rightarrow> nat option) \<Rightarrow> (vmarea \<Rightarrow> objs \<Rightarrow> (int \<times> nat option \<times> objs) option) option \<Rightarrow>
    nat \<Rightarrow> nat \<Rightarrow> int \<Rightarrow> int \<Rightarrow> nat \<Rightarrow> vmmap \<Rightarrow> objs \<Rightarrow> (int \<times> vmmap \<times> objs) option" where
  "map_area area_ok new_obj file start npages prot flags off mp h =
    (if \<not> area_ok mp then Some (- 1, mp, h)
     else do {
       let newarea = \<lparr>vma_start = start, vma_end = uadd start npages, vma_off = off, vma_prot = prot,
             vma_flags = flags, vma_vmmap = False, vma_obj = None\<rparr>;
       mp1 \<leftarrow> vmmap_insert newarea mp;
       (case file of
          Some mmap \<Rightarrow> do {
            (i, obj, h1) \<leftarrow> mmap (newarea\<lparr>vma_vmmap := True\<rparr>) h;
            (if i < 0 then Some (i, mp1, h1)
             else case shadow_create new_obj h1 of
                    (None, h2) \<Rightarrow> Some (0, mp1, h2)
                  | (Some shadow, h2) \<Rightarrow> do {
                      m \<leftarrow> h2 shadow;
                      o1 \<leftarrow> obj;
                      h3 \<leftarrow> mmo_ref o1 (h2(shadow \<mapsto> m\<lparr>mmo_shadowed := Some o1, mmo_bottom_obj := Some o1\<rparr>));
                      Some (0, insert_before (newarea\<lparr>vma_vmmap := True, vma_obj := Some shadow\<rparr>) mp, h3)
                    })
          }
        | None \<Rightarrow>
            (case (if flags \<noteq> MAP_PRIVATE then anon_create new_obj h else shadow_create new_obj h) of
               (None, h1) \<Rightarrow> Some (- 1, mp1, h1)
             | (Some o1, h1) \<Rightarrow> do {
                 h2 \<leftarrow> mmo_ref o1 h1;
                 Some (0, insert_before (newarea\<lparr>vma_vmmap := True, vma_obj := Some o1\<rparr>) mp, h2)
               }))
     })"

definition vmmap_map :: "(vmmap \<Rightarrow> bool) \<Rightarrow> (objs \<Rightarrow> nat option) \<Rightarrow> vmmap \<Rightarrow>
    (vmarea \<Rightarrow> objs \<Rightarrow> (int \<times> nat option \<times> objs) option) option \<Rightarrow> nat \<Rightarrow> nat \<Rightarrow> int \<Rightarrow> int \<Rightarrow> nat \<Rightarrow> int \<Rightarrow> objs \<Rightarrow>
    (int \<times> vmmap \<times> objs) option" where
  "vmmap_map area_ok new_obj mp file lopage npages prot flags off dir h = do {
     kassert (0 < npages);
     kassert (NOT 7 AND prot = 0);
     kassert (1 AND flags \<noteq> 0 \<or> 2 AND flags \<noteq> 0);
     kassert (lopage = 0 \<or> PN_LOW \<le> lopage);
     kassert (lopage = 0 \<or> uadd lopage npages \<le> PN_HIGH);
     kassert (off mod 4096 = 0);
     (if lopage = 0 then do {
        start \<leftarrow> vmmap_find_range mp npages dir;
        (if start = - 1 then Some (- 1, mp, h)
         else map_area area_ok new_obj file (nat start) npages prot flags off mp h)
      } else do {
        e \<leftarrow> vmmap_is_range_empty mp lopage npages;
        (ret, mp1, h1) \<leftarrow> (if e = 0 then vmmap_remove area_ok mp lopage npages h else Some (0, mp, h));
        (if ret \<noteq> 0 then Some (- 1, mp1, h1)
         else map_area area_ok new_obj file lopage npages prot flags off mp1 h1)
      })
   }"


section \<open>Reading and writing\<close>

text \<open>
  pframe\_get only reports that it is not implemented: it returns 0 and leaves the result variable
  as it was.  A variable that was never set is \<^term>\<open>None\<close>, a frame its bytes.
\<close>

definition pframe_get :: "nat option \<Rightarrow> nat \<Rightarrow> byte list option option \<Rightarrow> int \<times> byte list option option" where
  "pframe_get o1 pagenum result = (0, result)"

definition npages_of :: "nat \<Rightarrow> nat" where
  "npages_of count =
    (if count div 4096 = 0 then 1 else if count mod 4096 = 0 then count div 4096 else count div 4096 + 1)"

text \<open>One round of the loop of vmmap\_read: the error it returns, or the frame and the buffer it leaves.\<close>

definition read_page :: "vmmap \<Rightarrow> nat \<Rightarrow> nat \<Rightarrow> nat \<Rightarrow> byte list option option \<Rightarrow> byte list \<Rightarrow>
    (int + byte list option option \<times> byte list) option" where
  "read_page mp count vfn i frame buf =
    (case vmmap_lookup mp vfn of
       None \<Rightarrow> Some (Inl (- EFAULT))
     | Some area \<Rightarrow> do {
         let frame1 = snd (pframe_get (vma_obj area) vfn frame);
         pf \<leftarrow> frame1;
         (case pf of
            None \<Rightarrow> Some (Inl (- EFAULT))
          | Some addr \<Rightarrow> do {
              let p = (i * 4096) mod 2 ^ 32;
              kassert (p \<le> length buf);
              q \<leftarrow> memcpy (drop p buf) addr (usub count p);
              Some (Inr (frame1, take p buf @ q))
            })
       })"

primrec read_loop :: "nat \<Rightarrow> vmmap \<Rightarrow> nat \<Rightarrow> nat \<Rightarrow> nat \<Rightarrow> byte list option option \<Rightarrow> byte list \<Rightarrow> (int \<times> byte list) option" where
  "read_loop 0 mp count vfn i frame buf = Some (0, buf)"
| "read_loop (Suc sz) mp count vfn i frame buf = do {
     r \<leftarrow> read_page mp count vfn i frame buf;
     (case r of
        Inl err \<Rightarrow> Some (err, buf)
      | Inr fb \<Rightarrow> read_loop sz mp count (uadd vfn 1) (i + 4096) (fst fb) (snd fb))
   }"

definition vmmap_read :: "vmmap \<Rightarrow> nat \<Rightarrow> byte list \<Rightarrow> nat \<Rightarrow> (int \<times> byte list) option" where
  "vmmap_read mp vaddr buf count =
    (if mp = [] then Some (- EFAULT, buf) else read_loop (npages_of count) mp count (vaddr div 4096) 0 None buf)"

text \<open>vmmap\_write: the same loop, with the bytes going to the frame.\<close>

definition write_page :: "vmmap \<Rightarrow> nat \<Rightarrow> nat \<Rightarrow> nat \<Rightarrow> byte list option option \<Rightarrow> byte list \<Rightarrow>
    (int + byte list option option) option" where
  "write_page mp count vfn i frame buf =
    (case vmmap_lookup mp vfn of
       None \<Rightarrow> Some (Inl (- EFAULT))
     | Some area \<Rightarrow> do {
         pf \<leftarrow> snd (pframe_get (vma_obj area) vfn frame);
         (case pf of
            None \<Rightarrow> Some (Inl (- EFAULT))
          | Some addr \<Rightarrow> do {
              let p = (i * 4096) mod 2 ^ 32;
              kassert (p \<le> length buf);
              addr1 \<leftarrow> memcpy addr (drop p buf) (usub count p);
              Some (Inr (Some (Some addr1)))
            })
       })"

primrec write_loop :: "nat \<Rightarrow> vmmap \<Rightarrow> nat \<Rightarrow> nat \<Rightarrow> nat \<Rightarrow> byte list option option \<Rightarrow> byte list \<Rightarrow> int option" where
  "write_loop 0 mp count vfn i frame buf = Some 0"
| "write_loop (Suc sz) mp count vfn i frame buf = do {
     r \<leftarrow> write_page mp count vfn i frame buf;
     (case r of
        Inl err \<Rightarrow> Some err
      | Inr frame1 \<Rightarrow> write_loop sz mp count (uadd vfn 1) (i + 4096) frame1 buf)
   }"

definition vmmap_write :: "vmmap \<Rightarrow> nat \<Rightarrow> byte list \<Rightarrow> nat \<Rightarrow> int option" where
  "vmmap_write mp vaddr buf count =
    (if mp = [] then Some (- EFAULT) else write_loop (npages_of count) mp count (vaddr div 4096) 0 None buf)"

section \<open>System calls and permission checks\<close>

text \<open>do\_mmap: what follows the check of the flags is the argument \<open>rest\<close>.\<close>

definition do_mmap :: "int \<Rightarrow> 'r \<Rightarrow> (int + 'r)" where
  "do_mmap flags rest = (if flags \<noteq> MAP_SHARED \<or> flags \<noteq> MAP_PRIVATE then Inl EINVAL else Inr rest)"

definition do_munmap :: "(vmmap \<Rightarrow> bool) \<Rightarrow> bool \<Rightarrow> nat \<Rightarrow> vmmap \<Rightarrow> objs \<Rightarrow> (int \<times> vmmap \<times> objs) option" where
  "do_munmap area_ok p_pagedir addr mp h =
    (if addr mod 4096 \<noteq> 0 then Some (- EINVAL, mp, h)
     else do {
       kassert p_pagedir;
       (_, mp1, h1) \<leftarrow> vmmap_remove area_ok mp 0 0 h;
       Some (0, mp1, h1)
     })"

text \<open>
  addr\_perm and range\_perm read a word through the address they are given, the argument \<open>load\<close>, and take
  it for a page number.  The inner loop of range\_perm moves \<open>newaddr\<close> on while it is in the area; every round
  of the outer loop ends in an area that ends later, so there are at most as many rounds as areas.  A round
  that does not move can only repeat itself: the kernel hangs.
\<close>

definition addr_perm :: "(nat \<Rightarrow> nat option) \<Rightarrow> vmmap option \<Rightarrow> nat \<Rightarrow> int \<Rightarrow> int option" where
  "addr_perm load p_vmmap vaddr perm =
    (case p_vmmap of
       None \<Rightarrow> Some 0
     | Some mp \<Rightarrow> do {
         vfn \<leftarrow> load vaddr;
         (case vmmap_lookup mp vfn of
            None \<Rightarrow> Some 0
          | Some vma \<Rightarrow> Some (if vma_prot vma AND perm \<noteq> 0 then 1 else 0))
       })"

definition skip_area :: "vmarea \<Rightarrow> nat \<Rightarrow> nat \<Rightarrow> nat" where
  "skip_area vma stop newaddr = (if newaddr < stop \<and> newaddr \<le> vma_end vma then min stop (vma_end vma + 1) else newaddr)"

fun range_loop :: "nat \<Rightarrow> vmmap \<Rightarrow> nat \<Rightarrow> nat \<Rightarrow> int \<Rightarrow> int option" where
  "range_loop 0 mp stop newaddr perm = None"
| "range_loop (Suc fuel) mp stop newaddr perm = do {
     vma \<leftarrow> vmmap_lookup mp newaddr;
     let newaddr1 = skip_area vma stop newaddr;
     i \<leftarrow> addr_perm (\<lambda>_. Some newaddr1) (Some mp) 0 perm;
     (if i \<noteq> 0 \<and> newaddr1 < usub stop 1 then range_loop fuel mp stop newaddr1 perm else Some i)
   }"

definition range_perm :: "(nat \<Rightarrow> nat option) \<Rightarrow> vmmap option \<Rightarrow> nat \<Rightarrow> nat \<Rightarrow> int \<Rightarrow> int option" where
  "range_perm load p_vmmap avaddr len perm = do {
     i \<leftarrow> addr_perm load p_vmmap avaddr perm;
     (if i = 0 then Some 0
      else do {
        w \<leftarrow> load avaddr;
        mp \<leftarrow> p_vmmap;
        range_loop (length mp + 1) mp (uadd w len) w perm
      })
   }"

definition copy_from_user :: "(nat \<Rightarrow> nat option) \<Rightarrow> vmmap option \<Rightarrow> byte list \<Rightarrow> nat \<Rightarrow> nat \<Rightarrow> (int \<times> byte list) option" where
  "copy_from_user load p_vmmap kaddr uaddr nbytes = do {
     r \<leftarrow> range_perm load p_vmmap uaddr nbytes 1;
     (if r = 0 then Some (- EFAULT, kaddr) else do { mp \<leftarrow> p_vmmap; vmmap_read mp uaddr kaddr nbytes })
   }"

definition copy_to_user :: "(nat \<Rightarrow> nat option) \<Rightarrow> vmmap option \<Rightarrow> nat \<Rightarrow> byte list \<Rightarrow> nat \<Rightarrow> int option" where
  "copy_to_user load p_vmmap uaddr kaddr nbytes = do {
     r \<leftarrow> range_perm load p_vmmap uaddr nbytes 2;
     (if r = 0 then Some (- EFAULT) else do { mp \<leftarrow> p_vmmap; vmmap_write mp uaddr kaddr nbytes })
   }"

text \<open>What handle\_pagefault does: kill the process with a status, return, or map the frame it got.\<close>

datatype fault_action = Kill int | Return | Map_frame "byte list"

definition handle_pagefault :: "vmmap \<Rightarrow> nat \<Rightarrow> int \<Rightarrow> fault_action option" where
  "handle_pagefault mp vaddr cause =
    (case vmmap_lookup mp (vaddr div 4096) of
       None \<Rightarrow> Some (Kill EFAULT)
     | Some vma \<Rightarrow>
         (if cause AND 2 \<noteq> 0 \<and> vma_prot vma AND 2 = 0 then Some (Kill EFAULT)
          else if cause AND 16 \<noteq> 0 \<and> vma_prot vma AND 4 = 0 then Some (Kill EFAULT)
          else if cause AND 8 \<noteq> 0 \<and> vma_prot vma = 0 then Some (Kill EFAULT)
          else if cause AND 1 \<noteq> 0 \<and> vma_prot vma AND 1 = 0 then Some (Kill EFAULT)
          else do {
            let (ret, needed_frm) = pframe_get (vma_obj vma) (vaddr mod 4096) (Some None);
            (if ret < 0 then Some Return
             else do { r \<leftarrow> needed_frm; frm \<leftarrow> r; Some (Map_frame frm) })
          }))"


section \<open>Well-formed address spaces\<close>

text \<open>Areas are not empty, lie in user memory, and stand in order without overlapping.\<close>

definition area_wf :: "vmarea \<Rightarrow> bool" where
  "area_wf a \<longleftrightarrow> vma_start a < vma_end a \<and> PN_LOW \<le> vma_start a \<and> vma_end a \<le> PN_HIGH \<and> vma_vmmap a"

definition vmmap_wf :: "vmmap \<Rightarrow> bool" where
  "vmmap_wf mp \<longleftrightarrow> sorted_wrt (\<lambda>a b. vma_end a \<le> vma_start b) mp \<and> (\<forall>a \<in> set mp. area_wf a)"

text \<open>What an address space promises: the object, protection and flags of every mapped page.\<close>

definition mapping :: "vmmap \<Rightarrow> nat \<Rightarrow> (nat option \<times> int \<times> int) option" where
  "mapping mp v = map_option (\<lambda>a. (vma_obj a, vma_prot a, vma_flags a)) (vmmap_lookup mp v)"

abbreviation covers :: "vmarea \<Rightarrow> nat \<Rightarrow> bool" where
  "covers a v \<equiv> vma_start a \<le> v \<and> v < vma_end a"

lemma vmmap_lookup_simps [simp]:
  "vmmap_lookup [] v = None"
  "vmmap_lookup (a # mp) v = (if covers a v then Some a else vmmap_lookup mp v)"
  by (simp_all add: vmmap_lookup_def)

lemma vmmap_lookup_append:
  "vmmap_lookup (xs @ ys) v = (case vmmap_lookup xs v of None \<Rightarrow> vmmap_lookup ys v | Some a \<Rightarrow> Some a)"
  by (induction xs) auto

lemma vmmap_lookup_SomeD: "vmmap_lookup mp v = Some a \<Longrightarrow> a \<in> set mp \<and> covers a v"
  by (induction mp) (auto split: if_splits)

lemma vmmap_lookup_None: "vmmap_lookup mp v = None \<longleftrightarrow> (\<forall>a \<in> set mp. \<not> covers a v)"
  by (induction mp) auto

lemma vmmap_wf_Nil [simp]: "vmmap_wf []"
  by (simp add: vmmap_wf_def)

lemma vmmap_wf_Cons [simp]:
  "vmmap_wf (a # mp) \<longleftrightarrow> area_wf a \<and> (\<forall>b \<in> set mp. vma_end a \<le> vma_start b) \<and> vmmap_wf mp"
  by (auto simp: vmmap_wf_def)

lemma vmmap_wf_append:
  "vmmap_wf (xs @ ys) \<longleftrightarrow> vmmap_wf xs \<and> vmmap_wf ys \<and> (\<forall>a \<in> set xs. \<forall>b \<in> set ys. vma_end a \<le> vma_start b)"
  by (auto simp: vmmap_wf_def sorted_wrt_append)

lemma vmmap_lookup_iff: "vmmap_wf mp \<Longrightarrow> vmmap_lookup mp v = Some a \<longleftrightarrow> a \<in> set mp \<and> covers a v"
proof (induction mp)
  case (Cons b mp)
  then have ih: "vmmap_lookup mp v = Some a \<longleftrightarrow> a \<in> set mp \<and> covers a v" and b: "\<forall>c \<in> set mp. vma_end b \<le> vma_start c"
    by simp_all
  show ?case
  proof (cases "covers b v")
    case True
    then have "\<not> covers c v" if "c \<in> set mp" for c using b that by force
    with True show ?thesis by auto
  qed (auto simp: ih)
qed simp

section \<open>Insertion\<close>

lemma set_insert_before [simp]: "set (insert_before n mp) = insert n (set mp)"
  by (induction mp) auto

lemma insert_before_wf:
  assumes "vmmap_wf mp" and "area_wf n" and "\<forall>a \<in> set mp. vma_end a \<le> vma_start n \<or> vma_end n \<le> vma_start a"
  shows "vmmap_wf (insert_before n mp)"
  using assms by (induction mp) (fastforce simp: area_wf_def)+

lemma insert_before_last:
  "\<forall>a \<in> set mp. vma_start a \<le> vma_start n \<Longrightarrow> insert_before n mp = mp @ [n]"
  by (induction mp) auto

lemma insert_before_lookup:
  assumes "vmmap_wf mp" and "area_wf n" and "\<forall>a \<in> set mp. vma_end a \<le> vma_start n \<or> vma_end n \<le> vma_start a"
  shows "vmmap_lookup (insert_before n mp) v = (if covers n v then Some n else vmmap_lookup mp v)"
proof (cases "vmmap_lookup (insert_before n mp) v")
  case None
  then have "\<forall>a \<in> insert n (set mp). \<not> covers a v" by (simp only: vmmap_lookup_None set_insert_before)
  then have "vmmap_lookup mp v = None" "\<not> covers n v" by (auto simp: vmmap_lookup_None)
  with None show ?thesis by simp
next
  case (Some a)
  with insert_before_wf [OF assms] have a: "a = n \<or> a \<in> set mp" "covers a v"
    by (auto dest: vmmap_lookup_SomeD)
  show ?thesis
  proof (cases "a = n")
    case True
    with Some a show ?thesis by simp
  next
    case False
    with a have "vmmap_lookup mp v = Some a" by (simp add: vmmap_lookup_iff [OF assms(1)])
    moreover have "\<not> covers n v" using False a assms(3) by force
    ultimately show ?thesis unfolding Some by (simp only: if_False)
  qed
qed

section \<open>Removal\<close>

definition pieces :: "nat \<Rightarrow> nat \<Rightarrow> vmarea \<Rightarrow> vmarea list" where
  "pieces lo n a = (case fst (remove_area lo n a) of None \<Rightarrow> [] | Some b \<Rightarrow> [b]) @
     (case snd (remove_area lo n a) of None \<Rightarrow> [] | Some b \<Rightarrow> [b\<lparr>vma_vmmap := True\<rparr>])"

lemma pieces_within:
  assumes "area_wf a" and "lo + n < 2 ^ 32" and "b \<in> set (pieces lo n a)"
  shows "vma_start a \<le> vma_start b \<and> vma_end b \<le> vma_end a \<and> vma_obj b = vma_obj a \<and>
    vma_prot b = vma_prot a \<and> vma_flags b = vma_flags a"
  using assms by (auto simp: pieces_def remove_area_def Let_def uadd_def area_wf_def split: if_splits)

lemma pieces_area_wf:
  assumes "area_wf a" and "lo + n < 2 ^ 32"
  shows "vmmap_wf (pieces lo n a)"
  using assms by (auto simp: pieces_def remove_area_def Let_def uadd_def area_wf_def)

lemma pieces_covers:
  assumes "area_wf a" and "lo + n < 2 ^ 32"
  shows "(\<exists>b \<in> set (pieces lo n a). covers b v) \<longleftrightarrow> covers a v \<and> \<not> (lo \<le> v \<and> v < lo + n)"
  using assms by (auto simp: pieces_def remove_area_def Let_def uadd_def area_wf_def)


lemma pieces_cross:
  assumes "vmmap_wf (a # mp)" and "lo + n < 2 ^ 32"
  shows "\<forall>b \<in> set (pieces lo n a). \<forall>c \<in> set mp. vma_end b \<le> vma_start c"
  using assms pieces_within [of a lo n] by fastforce

lemma removed_wf:
  assumes "vmmap_wf mp" and "lo + n < 2 ^ 32"
  shows "vmmap_wf (concat (map (pieces lo n) mp))"
  using assms(1)
proof (induction mp)
  case (Cons a mp)
  have "vma_end b \<le> vma_start d" if "b \<in> set (pieces lo n a)" "c \<in> set mp" "d \<in> set (pieces lo n c)" for b c d
  proof -
    have "area_wf c" using Cons.prems that(2) by (auto simp: vmmap_wf_def)
    then show ?thesis
      using pieces_cross [OF Cons.prems assms(2)] pieces_within [OF _ assms(2) that(3)] that(1,2) by fastforce
  qed
  moreover have "vmmap_wf (pieces lo n a)" using Cons.prems pieces_area_wf [OF _ assms(2)] by simp
  ultimately show ?case using Cons by (auto simp: vmmap_wf_append)
qed simp

lemma pieces_mapping:
  assumes "area_wf a" and "lo + n < 2 ^ 32"
  shows "mapping (pieces lo n a) v = (if lo \<le> v \<and> v < lo + n then None else mapping [a] v)"
proof (cases "vmmap_lookup (pieces lo n a) v")
  case None
  then have "\<not> (covers a v \<and> \<not> (lo \<le> v \<and> v < lo + n))"
    unfolding pieces_covers [OF assms, symmetric] by (simp only: vmmap_lookup_None) blast
  with None show ?thesis by (simp add: mapping_def)
next
  case (Some b)
  then have b: "b \<in> set (pieces lo n a)" "covers b v" by (auto dest: vmmap_lookup_SomeD)
  then have "covers a v \<and> \<not> (lo \<le> v \<and> v < lo + n)" using pieces_covers [OF assms, of v] by blast
  with Some pieces_within [OF assms b(1)] show ?thesis by (simp add: mapping_def)
qed

lemma mapping_append: "mapping (xs @ ys) v = (case mapping xs v of None \<Rightarrow> mapping ys v | Some p \<Rightarrow> Some p)"
  by (simp add: mapping_def vmmap_lookup_append split: option.split)

lemma removed_mapping:
  assumes "vmmap_wf mp" and "lo + n < 2 ^ 32"
  shows "mapping (concat (map (pieces lo n) mp)) v = (if lo \<le> v \<and> v < lo + n then None else mapping mp v)"
  using assms(1)
proof (induction mp)
  case Nil
  then show ?case by (simp add: mapping_def)
next
  case (Cons a mp)
  have "mapping (a # mp) v = (case mapping [a] v of None \<Rightarrow> mapping mp v | Some p \<Rightarrow> Some p)"
    using mapping_append [of "[a]" mp v] by simp
  moreover have "mapping (pieces lo n a) v = (if lo \<le> v \<and> v < lo + n then None else mapping [a] v)"
    using Cons.prems by (simp only: pieces_mapping assms(2) vmmap_wf_Cons)
  moreover have "mapping (concat (map (pieces lo n) mp)) v = (if lo \<le> v \<and> v < lo + n then None else mapping mp v)"
    using Cons by simp
  ultimately show ?case by (cases "lo \<le> v \<and> v < lo + n") (auto simp: mapping_append split: option.split)
qed

text \<open>Every object an area names is there and has a reference.\<close>

definition alive :: "objs \<Rightarrow> vmmap \<Rightarrow> bool" where
  "alive h mp \<longleftrightarrow> (\<forall>a \<in> set mp. \<forall>o1. vma_obj a = Some o1 \<longrightarrow> (\<exists>m. h o1 = Some m \<and> 0 < mmo_refcount m))"

lemma mmo_ref_eq:
  assumes "h o1 = Some m" and "0 < mmo_refcount m"
  shows "mmo_ref o1 h = Some (h(o1 \<mapsto> m\<lparr>mmo_refcount := mmo_refcount m + 1\<rparr>))"
  using assms by (cases "mmo_ops m") (simp_all add: mmo_ref_def anon_ref_def shadow_ref_def)

lemma mmo_ref_alive: "mmo_ref o1 h = Some h' \<Longrightarrow> alive h mp \<Longrightarrow> alive h' mp"
  unfolding mmo_ref_def anon_ref_def shadow_ref_def bind_eq_Some_conv
  by (elim exE conjE, rename_tac m, case_tac "mmo_ops m") (auto simp: alive_def)

lemma obj_ref_alive:
  assumes "alive h (a # mp)"
  obtains h' where "(case vma_obj a of None \<Rightarrow> Some h | Some o1 \<Rightarrow> mmo_ref o1 h) = Some h'" and "alive h' mp"
proof (cases "vma_obj a")
  case None
  with assms that show thesis by (simp add: alive_def)
next
  case (Some o1)
  with assms obtain m where "h o1 = Some m" "0 < mmo_refcount m" by (auto simp: alive_def)
  note r = mmo_ref_eq [of h o1 m, OF this]
  from assms have "alive h mp" by (simp add: alive_def)
  with mmo_ref_alive [OF r] r Some that show thesis by simp
qed

lemma remove_areas_eq:
  assumes "vmmap_wf (acc @ areas)" and "lo + n < 2 ^ 32" and "\<And>m. area_ok m" and "alive h areas" and "length areas \<le> fuel"
  shows "\<exists>h'. remove_areas fuel area_ok lo n acc areas h = Some (acc @ concat (map (pieces lo n) areas), h')"
  using assms(1,4,5)
proof (induction areas arbitrary: acc h fuel)
  case (Cons a areas)
  then obtain f where f: "fuel = Suc f" "length areas \<le> f" by (cases fuel) simp_all
  have wf: "area_wf a" "vmmap_wf acc" "vmmap_wf (a # areas)" and below: "\<forall>b \<in> set acc. vma_end b \<le> vma_start a"
    using Cons.prems(1) by (auto simp: vmmap_wf_append)
  have "vmmap_wf ((acc @ pieces lo n a) @ areas)"
    using Cons.prems(1) pieces_area_wf [OF wf(1) assms(2)] pieces_within [OF wf(1) assms(2)] pieces_cross [OF wf(3) assms(2)]
    by (fastforce simp: vmmap_wf_append)
  note ih = Cons.IH [OF this _ f(2)]
  show ?case
  proof (cases "snd (remove_area lo n a)")
    case None
    have "alive h areas" using Cons.prems(2) by (simp add: alive_def)
    from ih [OF this] None show ?thesis
      by (cases "fst (remove_area lo n a)") (simp_all add: f(1) Let_def pieces_def)
  next
    case (Some b)
    then have b: "vma_start a < lo" "lo + n < vma_end a" "vma_start b = lo + n" "vma_end b = vma_end a" "vma_obj b = vma_obj a"
        "\<not> vma_vmmap b" and fst: "fst (remove_area lo n a) = Some (a\<lparr>vma_end := lo\<rparr>)"
      using assms(2) by (auto simp: remove_area_def Let_def uadd_def split: if_splits)
    obtain h' where h': "(case vma_obj a of None \<Rightarrow> Some h | Some o1 \<Rightarrow> mmo_ref o1 h) = Some h'" "alive h' areas"
      by (rule obj_ref_alive [OF Cons.prems(2)])
    have "vma_start c \<le> lo + n" if "c \<in> set acc" for c
      using below wf(2) that b(1) by (fastforce simp: vmmap_wf_def area_wf_def)
    then have le: "\<forall>c \<in> set (acc @ [a\<lparr>vma_end := lo\<rparr>]). vma_start c \<le> vma_start (b\<lparr>vma_vmmap := True\<rparr>)"
      using b by auto
    have "case areas of [] \<Rightarrow> True | c # _ \<Rightarrow> vma_start c > vma_start b" unfolding b(3)
      using wf(3) b(2) by (auto split: list.split)
    moreover have "vmmap_insert b mp = Some (insert_before (b\<lparr>vma_vmmap := True\<rparr>) mp)" for mp
      using b wf(1) by (simp add: vmmap_insert_def area_wf_def)
    moreover have "pieces lo n a = [a\<lparr>vma_end := lo\<rparr>, b\<lparr>vma_vmmap := True\<rparr>]" using Some fst by (simp add: pieces_def)
    ultimately show ?thesis
      using ih [OF h'(2)] h'(1) b(3,5) assms(3) insert_before_last [OF le] by (auto simp: f(1) Let_def Some fst)
  qed
qed simp

lemma vmmap_remove_eq:
  assumes "vmmap_wf mp" and "lo + n < 2 ^ 32" and "\<And>m. area_ok m" and "alive h mp"
  shows "\<exists>h'. vmmap_remove area_ok mp lo n h = Some (0, concat (map (pieces lo n) mp), h')"
proof -
  have "\<exists>h'. remove_areas (2 * length mp) area_ok lo n [] mp h = Some ([] @ concat (map (pieces lo n) mp), h')"
    by (rule remove_areas_eq) (use assms in simp_all)
  then show ?thesis by (auto simp: vmmap_remove_def)
qed


section \<open>The contract of an address space\<close>

text \<open>
  The operations mapping a range relies on: taking a range out, and putting an area in where nothing is.
  \<open>abs\<close> is what is mapped at a page, \<open>lo\<close>, \<open>hi\<close> and \<open>val\<close> are the range and the contents of an area.
\<close>

locale address_space =
  fixes wf :: "'m \<Rightarrow> bool" and abs :: "'m \<Rightarrow> nat \<Rightarrow> 'v option"
    and remove :: "nat \<Rightarrow> nat \<Rightarrow> 'm \<Rightarrow> 'm" and ins :: "'a \<Rightarrow> 'm \<Rightarrow> 'm"
    and good :: "'a \<Rightarrow> bool" and lo :: "'a \<Rightarrow> nat" and hi :: "'a \<Rightarrow> nat" and val :: "'a \<Rightarrow> 'v"
  assumes good_range: "good a \<Longrightarrow> lo a < hi a \<and> hi a < 2 ^ 32"
    and remove_wf: "wf m \<Longrightarrow> l + n < 2 ^ 32 \<Longrightarrow> wf (remove l n m)"
    and remove_abs: "wf m \<Longrightarrow> l + n < 2 ^ 32 \<Longrightarrow> abs (remove l n m) v = (if l \<le> v \<and> v < l + n then None else abs m v)"
    and ins_wf: "wf m \<Longrightarrow> good a \<Longrightarrow> \<forall>v. lo a \<le> v \<and> v < hi a \<longrightarrow> abs m v = None \<Longrightarrow> wf (ins a m)"
    and ins_abs: "wf m \<Longrightarrow> good a \<Longrightarrow> \<forall>v. lo a \<le> v \<and> v < hi a \<longrightarrow> abs m v = None \<Longrightarrow>
      abs (ins a m) v = (if lo a \<le> v \<and> v < hi a then Some (val a) else abs m v)"
begin

lemma replace:
  assumes "wf m" and "good a"
  shows "wf (ins a (remove (lo a) (hi a - lo a) m))"
    and "abs (ins a (remove (lo a) (hi a - lo a) m)) v = (if lo a \<le> v \<and> v < hi a then Some (val a) else abs m v)"
proof -
  have r: "lo a + (hi a - lo a) = hi a" "hi a < 2 ^ 32" using good_range [OF assms(2)] by auto
  then have free: "\<forall>v. lo a \<le> v \<and> v < hi a \<longrightarrow> abs (remove (lo a) (hi a - lo a) m) v = None"
    by (simp add: remove_abs assms(1))
  show "wf (ins a (remove (lo a) (hi a - lo a) m))"
    using ins_wf [OF _ assms(2) free] remove_wf [OF assms(1), of "lo a" "hi a - lo a"] r by simp
  show "abs (ins a (remove (lo a) (hi a - lo a) m)) v = (if lo a \<le> v \<and> v < hi a then Some (val a) else abs m v)"
    using ins_abs [OF _ assms(2) free] remove_wf [OF assms(1), of "lo a" "hi a - lo a"] r
    by (simp add: remove_abs assms(1))
qed

lemma fill:
  assumes "wf m" and "good a" and "\<forall>v. lo a \<le> v \<and> v < hi a \<longrightarrow> abs m v = None"
  shows "wf (ins a m) \<and> abs (ins a m) = (\<lambda>v. if lo a \<le> v \<and> v < hi a then Some (val a) else abs m v)"
  using ins_wf [OF assms] ins_abs [OF assms] by auto

end

lemma free_disjoint:
  assumes "vmmap_wf mp" and "area_wf n" and "\<forall>v. covers n v \<longrightarrow> mapping mp v = None"
  shows "\<forall>a \<in> set mp. vma_end a \<le> vma_start n \<or> vma_end n \<le> vma_start a"
proof
  fix a
  assume a: "a \<in> set mp"
  have "\<not> (covers n v \<and> covers a v)" for v
    using assms(3) a by (auto simp: mapping_def vmmap_lookup_None)
  from this [of "max (vma_start n) (vma_start a)"] show "vma_end a \<le> vma_start n \<or> vma_end n \<le> vma_start a"
    using assms(1,2) a by (auto simp: vmmap_wf_def area_wf_def max_def split: if_splits)
qed

interpretation vmm: address_space vmmap_wf mapping "\<lambda>l n mp. concat (map (pieces l n) mp)" insert_before
  area_wf vma_start vma_end "\<lambda>a. (vma_obj a, vma_prot a, vma_flags a)"
proof unfold_locales
  fix a
  assume "area_wf a"
  then show "vma_start a < vma_end a \<and> vma_end a < 2 ^ 32" by (simp add: area_wf_def)
next
  fix m a v
  assume a: "vmmap_wf m" "area_wf a" "\<forall>v. covers a v \<longrightarrow> mapping m v = None"
  note d = free_disjoint [OF a]
  show "vmmap_wf (insert_before a m)" by (rule insert_before_wf [OF a(1,2) d])
  show "mapping (insert_before a m) v = (if covers a v then Some (vma_obj a, vma_prot a, vma_flags a) else mapping m v)"
    by (simp add: mapping_def insert_before_lookup [OF a(1,2) d])
qed (use removed_wf removed_mapping in auto)

section \<open>Finding and mapping ranges\<close>

lemma range_scan_iff: "range_scan s e mp \<longleftrightarrow> (\<forall>a \<in> set mp. vma_start a > e \<or> vma_end a \<le> s)"
  by (induction mp) auto

lemma vmmap_is_range_empty_free:
  assumes "vmmap_is_range_empty mp s n = Some 1" and "s + n < 2 ^ 32" and "s \<le> v" and "v < s + n"
  shows "mapping mp v = None"
  using assms by (auto simp: vmmap_is_range_empty_def Let_def range_scan_iff uadd_def mapping_def vmmap_lookup_None split: if_splits)

lemma vmmap_is_range_empty_bounds: "vmmap_is_range_empty mp s n = Some i \<Longrightarrow> PN_LOW \<le> s \<and> s < uadd s n \<and> uadd s n \<le> PN_HIGH"
  by (simp add: vmmap_is_range_empty_def Let_def)

lemma vmmap_is_range_empty_cases:
  assumes "PN_LOW \<le> s" and "0 < n" and "s + n \<le> PN_HIGH"
  shows "vmmap_is_range_empty mp s n = Some 0 \<or> vmmap_is_range_empty mp s n = Some 1"
  using assms by (simp add: vmmap_is_range_empty_def Let_def uadd_def)

text \<open>
  The search from the top asks for the range up to the page number of the area itself, instead of
  \<open>npages\<close> pages; the area is always in it.
\<close>

lemma hilo_overlaps:
  assumes "a \<in> set mp" and "area_wf a" and "0 < npages" and "npages \<le> PN_HIGH"
  shows "vmmap_is_range_empty mp (usub (vma_start a) npages) (usub (vma_start a) 1) \<noteq> Some 1"
proof
  let ?s = "vma_start a"
  assume e: "vmmap_is_range_empty mp (usub ?s npages) (usub ?s 1) = Some 1"
  have s: "PN_LOW \<le> ?s" "?s < PN_HIGH" "?s < vma_end a" using assms(2) by (auto simp: area_wf_def)
  have one: "usub ?s 1 = ?s - 1" by (rule usub_le) (use s in simp_all)
  note b = vmmap_is_range_empty_bounds [OF e]
  have "npages \<le> ?s"
  proof (rule ccontr)
    assume "\<not> npages \<le> ?s"
    then have "usub ?s npages = ?s + 2 ^ 32 - npages" unfolding usub_def by (intro mod_less) simp
    then have "PN_HIGH \<le> usub ?s npages" using assms(4) by simp
    with b show False by linarith
  qed
  then have n: "usub ?s npages = ?s - npages" by (rule usub_le) (use s in simp)
  have u: "uadd (?s - npages) (?s - 1) = ?s - npages + (?s - 1)"
    unfolding uadd_def using s by (intro mod_less) simp
  have "?s \<le> ?s - npages + (?s - 1)" "?s - npages < vma_end a" using b s unfolding n by linarith+
  then have "\<not> range_scan (?s - npages) (?s - npages + (?s - 1)) mp"
    unfolding range_scan_iff using assms(1) by force
  then show False using e unfolding n one vmmap_is_range_empty_def Let_def u by simp
qed

lemma find_hilo_never:
  assumes "set areas \<subseteq> set mp" and "\<forall>a \<in> set mp. area_wf a" and "0 < npages" and "npages \<le> PN_HIGH"
  shows "find_hilo mp npages areas = None \<or> find_hilo mp npages areas = Some (- 1)"
  using assms(1)
proof (induction areas)
  case (Cons a areas)
  then have "vmmap_is_range_empty mp (usub (vma_start a) npages) (usub (vma_start a) 1) \<noteq> Some 1"
    using hilo_overlaps [of a] assms(2-4) by simp
  with Cons show ?case
    by (cases "vmmap_is_range_empty mp (usub (vma_start a) npages) (usub (vma_start a) 1)") auto
qed simp

lemma map_area_wraps_fails:
  assumes "uadd start npages > PN_HIGH"
  shows "map_area area_ok new_obj file start npages prot flags off mp h \<in> {None, Some (- 1, mp, h)}"
  using assms by (simp add: map_area_def vmmap_insert_def Let_def)

lemma mod_add_twice: "((x mod m + 1) mod m + n) mod m = (x + 1 + n) mod (m :: nat)"
  by (simp add: mod_simps)

lemma uadd_top:
  assumes "npages < 2 ^ 32"
  shows "uadd (uadd (usub PN_HIGH npages) 1) npages = PN_HIGH + 1"
proof -
  have "PN_HIGH + 2 ^ 32 - npages + 1 + npages = (PN_HIGH + 1) + 2 ^ 32" using assms by simp
  then show ?thesis unfolding uadd_def usub_def mod_add_twice by simp
qed

lemma map_area_anon:
  assumes "\<And>m. area_ok m" and "new_obj h = Some o1" and "PN_LOW \<le> lo" and "0 < n" and "lo + n \<le> PN_HIGH"
  shows "\<exists>h'. map_area area_ok new_obj None lo n prot flags off mp h =
    Some (0, insert_before \<lparr>vma_start = lo, vma_end = lo + n, vma_off = off, vma_prot = prot, vma_flags = flags,
      vma_vmmap = True, vma_obj = Some o1\<rparr> mp, h')"
  using assms
  by (auto simp: map_area_def Let_def vmmap_insert_def uadd_def anon_create_def shadow_create_def mmobj_init_def mmo_ref_def anon_ref_def shadow_ref_def)

section \<open>Properties\<close>


definition area1 :: vmarea where
  "area1 = \<lparr>vma_start = 2000, vma_end = 2010, vma_off = 0, vma_prot = 3, vma_flags = 2, vma_vmmap = True, vma_obj = Some 7\<rparr>"

definition objs1 :: objs where
  "objs1 = [7 \<mapsto> \<lparr>mmo_ops = Anon, mmo_refcount = 1, mmo_nrespages = 0, mmo_bottom_obj = None, mmo_shadowed = None\<rparr>]"

lemma area1_wf: "vmmap_wf [area1]" and area1_alive: "alive objs1 [area1]"
  by (simp_all add: area1_def area_wf_def alive_def objs1_def)





text \<open>The page of its object an address shows: the area's offset and how far into the area the page is.\<close>

definition object_page :: "vmmap \<Rightarrow> nat \<Rightarrow> nat option" where
  "object_page mp v = map_option (\<lambda>a. uadd (vma_off a) (v - vma_start a)) (vmmap_lookup mp v)"





lemma clone_areas_eq:
  assumes "vmmap_wf (newmap @ mp)" and "\<And>m. area_ok m"
  shows "clone_areas area_ok mp newmap = Some (Some (newmap @ map (\<lambda>a. a\<lparr>vma_obj := None\<rparr>) mp))"
  using assms(1)
proof (induction mp arbitrary: newmap)
  case (Cons a mp)
  let ?a = "a\<lparr>vma_obj := None\<rparr>"
  have a: "area_wf a" "\<forall>b \<in> set newmap. vma_end b \<le> vma_start a \<and> area_wf b"
    using Cons.prems by (auto simp: vmmap_wf_append) (simp add: vmmap_wf_def)
  then have "\<forall>b \<in> set newmap. vma_start b \<le> vma_start ?a" by (force simp: area_wf_def)
  note last = insert_before_last [OF this]
  have "vmmap_insert (a\<lparr>vma_vmmap := False, vma_obj := None\<rparr>) newmap = Some (insert_before ?a newmap)"
    using a(1) by (cases a) (simp add: vmmap_insert_def area_wf_def)
  then have "vmmap_insert (a\<lparr>vma_vmmap := False, vma_obj := None\<rparr>) newmap = Some (newmap @ [?a])" unfolding last .
  moreover have "vmmap_wf ((newmap @ [?a]) @ mp)"
    using Cons.prems by (auto simp: vmmap_wf_append area_wf_def)
  ultimately show ?case using Cons.IH [of "newmap @ [?a]"] assms(2) by simp
qed simp



lemma remove_nothing:
  "\<forall>a \<in> set areas. area_wf a \<Longrightarrow> length areas \<le> fuel \<Longrightarrow> remove_areas fuel area_ok 0 0 acc areas h = Some (acc @ areas, h)"
proof (induction areas arbitrary: acc fuel)
  case (Cons a areas)
  then obtain f where f: "fuel = Suc f" "length areas \<le> f" by (cases fuel) simp_all
  have "remove_area 0 0 a = (Some a, None)" using Cons.prems(1) by (auto simp: remove_area_def uadd_def area_wf_def)
  with Cons f show ?case by simp
qed simp

text \<open>C26: munmap of any page-aligned address reports success and unmaps nothing.\<close>

theorem do_munmap_unmaps_nothing:
  assumes "vmmap_wf mp" and "addr mod 4096 = 0"
  shows "do_munmap area_ok True addr mp h = Some (0, mp, h)"
  using remove_nothing [of mp "2 * length mp" area_ok "[]" h] assms
  by (simp add: do_munmap_def vmmap_remove_def vmmap_wf_def)

theorem do_munmap_unmaps_nothing_witness: "do_munmap (\<lambda>_. True) True (2000 * 4096) [area1] objs1 = Some (0, [area1], objs1)"
  by (rule do_munmap_unmaps_nothing [OF area1_wf]) simp


end
