(* ===== verification/Vfs_Calls.thy ===== *)
theory Vfs_Calls
  imports Vfs
begin

text \<open>
  Properties of the file system calls: the reference counts of file objects, what can be opened, reading what
  was written, and duplicating descriptors.
\<close>

section \<open>Descriptors\<close>


definition root_vnode :: vnode where
  "root_vnode = \<lparr>vn_ops = Ramfs_dir_vops, vn_refcount = 1, vn_mode = S_IFDIR, vn_len = 64, vn_devid = 0, vn_cdev = None\<rparr>"

definition sys0 :: "vfs \<Rightarrow> ksys" where
  "sys0 v = \<lparr>sys_fs = v, files = Map.empty, p_files = replicate NFILES None, p_cwd = Some 0, vfs_root_vn = Some 0\<rparr>"

lemma sys0_fd: "get_empty_fd (sys0 v) = 0"
proof -
  have "[0 ..< NFILES] = 0 # [Suc 0 ..< NFILES]" by (rule upt_conv_Cons) simp
  then show ?thesis unfolding get_empty_fd_def by (simp add: sys0_def del: upt_rec_numeral)
qed


lemma sys0_namev:
  assumes "p_cwd s = Some 0" and "vnodes (sys_fs s) 0 = Some root_vnode"
  shows "dir_namev (Some (3221225472, [97, 47, 0])) None s =
    Some (Inr (1, 0, 0), s\<lparr>sys_fs := put_vnode 0 (root_vnode\<lparr>vn_refcount := 2\<rparr>) (sys_fs s)\<rparr>)"
proof -
  have r: "on_fs (vref 0) s = Some (s\<lparr>sys_fs := put_vnode 0 (root_vnode\<lparr>vn_refcount := 2\<rparr>) (sys_fs s)\<rparr>)"
    using assms(2) by (simp add: on_fs_def vref_def root_vnode_def)
  have c: "strchr [97, 47, 0] 47 = Some (Some 1)" by (simp add: strchr_def)
  have "namev_loop 3 addr [97, 47, 0] 0 0 None (s\<lparr>sys_fs := put_vnode 0 (root_vnode\<lparr>vn_refcount := 2\<rparr>) (sys_fs s)\<rparr>) =
      Some (Inr (1, 0, 0), s\<lparr>sys_fs := put_vnode 0 (root_vnode\<lparr>vn_refcount := 2\<rparr>) (sys_fs s)\<rparr>)" for addr
    unfolding numeral_3_eq_3 namev_loop.simps(2) by (simp add: c component_len_def root_vnode_def)
  then show ?thesis using assms(1) r by (simp add: dir_namev_def numeral_3_eq_3)
qed

lemma sys0_open:
  assumes "vnodes v 0 = Some root_vnode"
  shows "do_open (Some 5) (Some (3221225472, [97, 47, 0])) 0 (sys0 v) = Some (0, (sys0 v)\<lparr>
    sys_fs := put_vnode 0 (root_vnode\<lparr>vn_refcount := 2\<rparr>) v,
    files := [5 \<mapsto> \<lparr>f_pos = 0, f_mode = 1, f_refcount = 1, f_vnode = Some 0\<rparr>], p_files := (replicate NFILES None)[0 := Some 5]\<rparr>)"
proof -
  have m: "open_mode 0 = Some 1" by (simp add: open_mode_def)
  have n: "open_namev (Some (3221225472, [97, 47, 0])) 0 None None (put_file 5 (new_file 1) (sys0 v)) =
      Some (0, Some 0, put_file 5 (new_file 1) (sys0 v)\<lparr>sys_fs := put_vnode 0 (root_vnode\<lparr>vn_refcount := 2\<rparr>) v\<rparr>)"
    using sys0_namev [of "put_file 5 (new_file 1) (sys0 v)"] assms by (simp add: open_namev_def sys0_def)
  have l: "strlen [97, 47, 0] = Some 2" by simp
  show ?thesis
    unfolding do_open_def sys0_fd Let_def fget_new by (simp add: l m n) (simp add: open_vnode_def root_vnode_def sys0_def)
qed



section \<open>What can be opened\<close>

lemma trailing_slash:
  assumes "i + 1 < length (x @ [0])" and "(x @ [0]) ! i = 47" and "(x @ [0]) ! (i + 1) = (0 :: byte)" and "0 \<notin> set x"
  shows "x \<noteq> []" and "last x = 47"
proof -
  have "i + 1 = length x"
  proof (rule ccontr)
    assume "i + 1 \<noteq> length x"
    then have l: "i + 1 < length x" using assms(1) by simp
    then have "x ! (i + 1) = 0" using assms(3) by (simp add: nth_append)
    then show False using l assms(4) nth_mem [of "i + 1" x] by simp
  qed
  then have l: "length x - 1 = i" "i < length x" by simp_all
  then show "x \<noteq> []" by auto
  then show "last x = 47" using assms(2) l by (simp add: last_conv_nth nth_append)
qed





section \<open>Reading, writing and seeking\<close>

text \<open>A descriptor for a regular file: its vnode, its inode and the page of its contents.\<close>

lemma regular_file:
  assumes "vfs_typed s" and "vnodes s v = Some vn" and "vn_mode vn = S_IFREG"
  obtains inode mem where "rfs_inodes s v = Some inode" and "vnode_ok vn inode" and "rf_mode inode = RAMFS_TYPE_DATA"
    and "rf_mem inode = Page_data mem" and "length mem = 4096" and "vn_ops vn = Ramfs_file_vops"
proof -
  obtain inode where i: "rfs_inodes s v = Some inode" "vnode_ok vn inode" by (rule vfs_typed_vnode [OF assms(1,2)])
  then have m: "rf_mode inode = RAMFS_TYPE_DATA" using assms(3) by (cases "rf_mode inode") (simp_all add: vnode_ok_def type_mode_def)
  moreover have "contents_ok (rf_mode inode) (rf_mem inode)" using vfs_typed_inode [OF assms(1) i(1)] by (simp add: inode_ok_def)
  ultimately show thesis using that i by (auto simp: contents_ok_def vnode_ok_def type_ops_def)
qed

lemma do_lseek_set:
  assumes "opened fd a f s" and "0 \<le> pos"
  shows "do_lseek fd pos 0 s = Some (pos, put_file a (f\<lparr>f_pos := pos\<rparr>) s)"
  using assms fput_pos [OF assms(1), of pos]
  by (simp add: do_lseek_def opened_not_bad fget_opened [OF assms(1)] seek_to_def)

lemma do_write_regular:
  assumes "opened fd a f s" and "f_mode f AND 2 \<noteq> 0" and "f_mode f AND 4 = 0" and "f_vnode f = Some v"
    and "vnodes (sys_fs s) v = Some vn" and "vn_ops vn = Ramfs_file_vops"
    and "ramfs_write v (f_pos f) buf n (sys_fs s) = Some (int k, w)" and "vnodes w v = Some vn'" and "vn_mode vn' = S_IFREG"
    and "f_pos f \<le> vn_len vn'" and "0 \<le> f_pos f"
  shows "do_write W fd buf n s = Some (int k, s\<lparr>sys_fs := w, files := (files s)(a \<mapsto> f\<lparr>f_pos := f_pos f + int k\<rparr>)\<rparr>)"
  using assms(2-) fput_moved [OF assms(1), of "f_pos f + int k" w]
  by (simp add: do_write_def opened_not_bad [OF assms(1)] fget_opened [OF assms(1)] write_at_def vn_write_def)

lemma do_read_regular:
  assumes "opened fd a f s" and "f_mode f AND 1 \<noteq> 0" and "f_vnode f = Some v"
    and "vnodes (sys_fs s) v = Some vn" and "vn_ops vn = Ramfs_file_vops" and "vn_mode vn = S_IFREG"
    and "ramfs_read v (f_pos f) buf n (sys_fs s) = Some (int k, buf')" and "0 \<le> f_pos f"
  shows "do_read R fd buf n s = Some (int k, buf', put_file a (f\<lparr>f_pos := f_pos f + int k\<rparr>) s)"
  using assms(2-) fput_pos [OF assms(1), of "f_pos f + int k"]
  by (simp add: do_read_def opened_not_bad [OF assms(1)] fget_opened [OF assms(1)] vn_read_def)

lemma opened_pos: "opened fd a f s \<Longrightarrow> - 1 \<le> pos \<Longrightarrow> opened fd a (f\<lparr>f_pos := pos\<rparr>) (s\<lparr>sys_fs := w, files := (files s)(a \<mapsto> f\<lparr>f_pos := pos\<rparr>)\<rparr>)"
  by (simp add: opened_def file_sane_def)

lemma opened_put_pos: "opened fd a f s \<Longrightarrow> - 1 \<le> pos \<Longrightarrow> opened fd a (f\<lparr>f_pos := pos\<rparr>) (put_file a (f\<lparr>f_pos := pos\<rparr>) s)"
  by (simp add: opened_def file_sane_def)

text \<open>
  C35: on a descriptor of a regular file that is open for reading and writing, what was written is read back after seeking
  to where it was written, as long as it fits in the page of the file; the position is then behind it.
\<close>

theorem do_write_read:
  assumes "opened fd a f s" and "f_mode f = 3" and "f_vnode f = Some v" and "f_pos f = int p"
    and "vfs_typed (sys_fs s)" and "vnodes (sys_fs s) v = Some vn" and "vn_mode vn = S_IFREG"
    and "p + length data \<le> 4096" and "length data \<le> length buf"
  shows "\<exists>s1 s2 s3. do_write W fd data (length data) s = Some (int (length data), s1) \<and> do_lseek fd (int p) 0 s1 = Some (int p, s2) \<and>
    do_read R fd buf (length data) s2 = Some (int (length data), data @ drop (length data) buf, s3) \<and>
    opened fd a (f\<lparr>f_pos := int (p + length data)\<rparr>) s3"
proof -
  let ?n = "length data"
  obtain inode mem where i: "rfs_inodes (sys_fs s) v = Some inode" "vnode_ok vn inode" "rf_mode inode = RAMFS_TYPE_DATA"
      "rf_mem inode = Page_data mem" "length mem = 4096" "vn_ops vn = Ramfs_file_vops"
    by (rule regular_file [OF assms(5-7)])
  define inode' where "inode' = inode\<lparr>rf_mem := Page_data (take p mem @ take ?n data @ drop (p + ?n) mem), rf_size := max (rf_size inode) (int (p + ?n))\<rparr>"
  define vn' where "vn' = vn\<lparr>vn_len := max (rf_size inode) (int (p + ?n))\<rparr>"
  define w where "w = put_inode v inode' (put_vnode v vn' (sys_fs s))"
  define s1 where "s1 = s\<lparr>sys_fs := w, files := (files s)(a \<mapsto> f\<lparr>f_pos := int p + int ?n\<rparr>)\<rparr>"
  define s2 where "s2 = put_file a (f\<lparr>f_pos := int p\<rparr>) s1"
  have o1: "opened fd a (f\<lparr>f_pos := int p + int ?n\<rparr>) s1" unfolding s1_def using opened_pos [OF assms(1)] by simp
  have o2: "opened fd a (f\<lparr>f_pos := int p\<rparr>) s2" unfolding s2_def using opened_put_pos [OF o1, of "int p"] by simp
  have w: "ramfs_write v (int p) data ?n (sys_fs s) = Some (int ?n, w)"
    unfolding w_def inode'_def vn'_def using ramfs_write_ok [OF i(1) assms(6) i(2-5) assms(8)] by simp
  have "do_write W fd data ?n s = Some (int ?n, s1)"
    unfolding s1_def using do_write_regular [OF assms(1) _ _ assms(3,6) i(6), of data ?n ?n w vn'] w assms(2,4,7) by (simp add: w_def vn'_def)
  moreover have "do_lseek fd (int p) 0 s1 = Some (int p, s2)" unfolding s2_def using do_lseek_set [OF o1, of "int p"] by simp
  moreover have "ramfs_read v (int p) buf ?n (sys_fs s2) = Some (int ?n, data @ drop ?n buf)"
    using ramfs_read_ok [of w v inode' vn' "take p mem @ take ?n data @ drop (p + ?n) mem" p ?n buf] i(5) assms(7-9)
    by (simp add: s2_def s1_def w_def inode'_def vn'_def)
  then have "do_read R fd buf ?n s2 = Some (int ?n, data @ drop ?n buf, put_file a (f\<lparr>f_pos := int p + int ?n\<rparr>) s2)"
    using do_read_regular [OF o2, of v vn' buf ?n ?n] assms(2,3,7) i(6) by (simp add: s2_def s1_def w_def vn'_def)
  moreover have "opened fd a (f\<lparr>f_pos := int p + int ?n\<rparr>) (put_file a (f\<lparr>f_pos := int p + int ?n\<rparr>) s2)"
    using opened_put_pos [OF o2, of "int p + int ?n"] by simp
  ultimately show ?thesis by auto
qed

definition fs1 :: vfs where
  "fs1 = fs0\<lparr>rfs_inodes := [1 \<mapsto> \<lparr>rf_size = 0, rf_ino = 1, rf_mem = Page_data (replicate 4096 0), rf_mode = RAMFS_TYPE_DATA, rf_linkcount = 3\<rparr>],
     vnodes := [1 \<mapsto> \<lparr>vn_ops = Ramfs_file_vops, vn_refcount = 1, vn_mode = S_IFREG, vn_len = 0, vn_devid = 0, vn_cdev = None\<rparr>]\<rparr>"

definition sys1 :: ksys where
  "sys1 = (sys0 fs1)\<lparr>files := [5 \<mapsto> \<lparr>f_pos = 0, f_mode = 3, f_refcount = 1, f_vnode = Some 1\<rparr>], p_files := (replicate NFILES None)[0 := Some 5]\<rparr>"

lemma sys1_opened: "opened 0 5 \<lparr>f_pos = 0, f_mode = 3, f_refcount = 1, f_vnode = Some 1\<rparr> sys1"
  by (simp add: opened_def sys1_def file_sane_def)

lemma sys1_typed: "vfs_typed (sys_fs sys1)"
  by (rule vfs_typedI)
     (auto simp: sys1_def sys0_def fs1_def inode_ok_def contents_ok_def vnode_ok_def type_mode_def type_ops_def split: if_splits)

lemma sys1_vnode:
  "vnodes (sys_fs sys1) 1 = Some \<lparr>vn_ops = Ramfs_file_vops, vn_refcount = 1, vn_mode = S_IFREG, vn_len = 0, vn_devid = 0, vn_cdev = None\<rparr>"
  by (simp add: sys1_def sys0_def fs1_def)

theorem do_write_read_witness:
  "\<exists>s1 s2 s3. do_write (\<lambda>_ _ _ _. None) 0 [104, 105] 2 sys1 = Some (2, s1) \<and> do_lseek 0 0 0 s1 = Some (0, s2) \<and>
    do_read (\<lambda>_ _ _ _. None) 0 [0, 0, 0] 2 s2 = Some (2, [104, 105, 0], s3)"
proof -
  from do_write_read [OF sys1_opened _ _ _ sys1_typed sys1_vnode, of 0 "[104, 105]" "[0, 0, 0]" "\<lambda>_ _ _ _. None" "\<lambda>_ _ _ _. None"]
  show ?thesis by (auto simp: numeral_2_eq_2)
qed

text \<open>
  C36: seeking behind the page of a regular file succeeds, and writing there stops the kernel: the number of bytes to copy
  becomes negative.
\<close>

theorem do_write_behind_page:
  assumes "opened fd a f s" and "f_mode f = 3" and "f_vnode f = Some v"
    and "vfs_typed (sys_fs s)" and "vnodes (sys_fs s) v = Some vn" and "vn_mode vn = S_IFREG" and "4096 < off"
  shows "\<exists>s1. do_lseek fd off 0 s = Some (off, s1) \<and> do_write W fd buf n s1 = None"
proof -
  let ?s1 = "put_file a (f\<lparr>f_pos := off\<rparr>) s"
  have "vn_ops vn = Ramfs_file_vops" by (rule regular_file [OF assms(4-6)])
  then have "vn_write W v off buf n (sys_fs s) = None" using assms(5) ramfs_write_behind_page [OF assms(7)] by (simp add: vn_write_def)
  moreover have o: "opened fd a (f\<lparr>f_pos := off\<rparr>) ?s1" using assms(7) by (intro opened_put_pos [OF assms(1)]) simp
  ultimately have "do_write W fd buf n ?s1 = None"
    using assms(2,3) by (simp add: do_write_def opened_not_bad [OF o] fget_opened [OF o] write_at_def)
  moreover have "do_lseek fd off 0 s = Some (off, ?s1)" using assms(7) by (intro do_lseek_set [OF assms(1)]) simp
  ultimately show ?thesis by blast
qed

theorem do_write_behind_page_witness:
  "\<exists>s1. do_lseek 0 4097 0 sys1 = Some (4097, s1) \<and> do_write (\<lambda>_ _ _ _. None) 0 [104] 1 s1 = None"
  by (rule do_write_behind_page [OF sys1_opened _ _ sys1_typed sys1_vnode]) simp_all

section \<open>Duplicating descriptors\<close>

lemma get_empty_fd_lowest:
  assumes "k < NFILES" and "p_files s ! k = None" and "\<forall>j < k. p_files s ! j \<noteq> None"
  shows "get_empty_fd s = int k"
proof -
  have "List.find (\<lambda>fd. p_files s ! fd = None) [0 ..< NFILES] = Some k"
    unfolding find_Some_iff using assms by (intro exI [of _ k]) (simp del: upt_rec_numeral)
  then show ?thesis unfolding get_empty_fd_def by (simp only: option.case)
qed

lemma get_empty_fd_full:
  assumes "\<forall>j < NFILES. p_files s ! j \<noteq> None"
  shows "get_empty_fd s = - EMFILE"
proof -
  have "List.find (\<lambda>fd. p_files s ! fd = None) [0 ..< NFILES] = None"
    unfolding find_None_iff using assms by (simp del: upt_rec_numeral)
  then show ?thesis unfolding get_empty_fd_def by (simp only: option.case)
qed

lemma do_dup_eq:
  assumes "opened fd a f s"
  shows "do_dup fd s = (if get_empty_fd s = 0 then Some (- EMFILE, s) else do {
    kassert (0 \<le> get_empty_fd s);
    Some (get_empty_fd s, s\<lparr>files := (files s)(a \<mapsto> f\<lparr>f_refcount := f_refcount f + 1\<rparr>), p_files := (p_files s)[nat (get_empty_fd s) := Some a]\<rparr>) })"
proof -
  have "p_files (put_file a (f\<lparr>f_refcount := f_refcount f + 1\<rparr>) s) = p_files s" by simp
  then have "get_empty_fd (put_file a (f\<lparr>f_refcount := f_refcount f + 1\<rparr>) s) = get_empty_fd s" by (simp only: get_empty_fd_def)
  then show ?thesis using fput_same [OF assms] by (simp add: do_dup_def opened_not_bad [OF assms] fget_opened [OF assms] Let_def)
qed

text \<open>
  C37: duplicating an open descriptor makes the lowest free descriptor refer to the same file.  When that is descriptor
  0 the result is -EMFILE, although there is a free descriptor; when there is none, the kernel writes in front of the table.
\<close>

theorem do_dup_lowest:
  assumes "opened fd a f s"
  shows "(\<forall>k. 0 < k \<and> k < NFILES \<and> p_files s ! k = None \<and> (\<forall>j < k. p_files s ! j \<noteq> None) \<longrightarrow>
      do_dup fd s = Some (int k, s\<lparr>files := (files s)(a \<mapsto> f\<lparr>f_refcount := f_refcount f + 1\<rparr>), p_files := (p_files s)[k := Some a]\<rparr>)) \<and>
    (p_files s ! 0 = None \<longrightarrow> do_dup fd s = Some (- EMFILE, s)) \<and>
    ((\<forall>j < NFILES. p_files s ! j \<noteq> None) \<longrightarrow> do_dup fd s = None)"
proof (intro conjI allI impI)
  fix k
  assume k: "0 < k \<and> k < NFILES \<and> p_files s ! k = None \<and> (\<forall>j < k. p_files s ! j \<noteq> None)"
  then have "get_empty_fd s = int k" by (intro get_empty_fd_lowest) simp_all
  then show "do_dup fd s = Some (int k, s\<lparr>files := (files s)(a \<mapsto> f\<lparr>f_refcount := f_refcount f + 1\<rparr>), p_files := (p_files s)[k := Some a]\<rparr>)"
    unfolding do_dup_eq [OF assms] using k by simp
qed (simp_all add: do_dup_eq [OF assms] get_empty_fd_lowest [of 0 s] get_empty_fd_full)

theorem do_dup_lowest_witness:
  "(\<exists>s. do_dup 0 sys1 = Some (1, s) \<and> p_files s ! 1 = Some 5) \<and>
   do_dup 1 (sys1\<lparr>p_files := (replicate NFILES None)[1 := Some 5]\<rparr>) = Some (- EMFILE, sys1\<lparr>p_files := (replicate NFILES None)[1 := Some 5]\<rparr>) \<and>
   do_dup 0 (sys1\<lparr>p_files := replicate NFILES (Some 5)\<rparr>) = None"
proof (intro conjI)
  have "do_dup 0 sys1 = Some (int 1, sys1\<lparr>files := (files sys1)(5 \<mapsto> \<lparr>f_pos = 0, f_mode = 3, f_refcount = 1, f_vnode = Some 1\<rparr>\<lparr>f_refcount := 1 + 1\<rparr>),
      p_files := (p_files sys1)[1 := Some 5]\<rparr>)"
    using do_dup_lowest [OF sys1_opened] by (auto simp: sys1_def)
  then show "\<exists>s. do_dup 0 sys1 = Some (1, s) \<and> p_files s ! 1 = Some 5" by (simp add: sys1_def)
  have "opened 1 5 \<lparr>f_pos = 0, f_mode = 3, f_refcount = 1, f_vnode = Some 1\<rparr> (sys1\<lparr>p_files := (replicate NFILES None)[1 := Some 5]\<rparr>)"
    by (simp add: opened_def sys1_def file_sane_def)
  from do_dup_lowest [OF this]
  show "do_dup 1 (sys1\<lparr>p_files := (replicate NFILES None)[1 := Some 5]\<rparr>) = Some (- EMFILE, sys1\<lparr>p_files := (replicate NFILES None)[1 := Some 5]\<rparr>)"
    by simp
  have "opened 0 5 \<lparr>f_pos = 0, f_mode = 3, f_refcount = 1, f_vnode = Some 1\<rparr> (sys1\<lparr>p_files := replicate NFILES (Some 5)\<rparr>)"
    by (simp add: opened_def sys1_def file_sane_def)
  from do_dup_lowest [OF this] show "do_dup 0 (sys1\<lparr>p_files := replicate NFILES (Some 5)\<rparr>) = None" by simp
qed

end
