(* ===== verification/Spec2Isabelle.thy ===== *)
theory Spec2Isabelle
  imports Proc_Table Page_System Keyboard Vmmap Vfs_Calls
begin

text \<open>
  A verification library for the Weenix teaching kernel, src/weenix.

  \<^bold>\<open>The program.\<close>  Weenix is a small Unix-like kernel for one processor.  Kernel threads run until they
  block: a blocking operation puts the thread on a queue and switches to another one, and interrupts wake
  threads up.  Above threads sit mutexes; pages of memory come from a buddy allocator; the keyboard interrupt feeds
  virtual terminals that draw on the screen; every process has a map of its address space and a table of open files; the
  virtual file system resolves paths and calls the operations of a file system, here the one in memory.  Many
  parts were left to be written by students; the parts that only report that they are not implemented
  are modelled as that where other code calls them.

  \<^bold>\<open>Conventions.\<close>  An operation that can stop the kernel returns an option, and \<^const>\<open>None\<close> is a
  failed KASSERT, a panic, or an access through NULL, out of an object or through a pointer that was never set.  The
  errno results are negative integers as in the code.  State is passed explicitly in records; \<open>do\<close>
  blocks are binds of the option type.  Counters and addresses that wrap are reduced modulo \<open>2 ^ 32\<close>, bytes
  are 8-bit words.  Theory Kprelude has the shared types, \<open>kassert\<close>, the 32-bit arithmetic and C's
  division.

  \<^bold>\<open>Theories, code, and what is shown.\<close>

  \<^item> Klist models the intrusive doubly linked lists of include/util/list.h, every macro, as operations on a store
  of links, and relates them to lists.  Its locale \<open>link_list\<close> is what the queues rely on.

  \<^item> Sched models proc/sched.c: thread queues over that store, sleeping, waking, cancelling, switching.  Its
  invariant ties the links, the size counters and the back pointers of threads together.  Interrupts that
  arrive while no thread can run are a list of handlers, an argument of \<open>sched_switch\<close>.

  \<^item> Kmutex models proc/kmutex.c and the steps of a kernel whose threads use the scheduler and mutexes.  It shows
  mutual exclusion, that no thread is lost, that unlocking hands the mutex over in order of arrival, and that a
  broadcast ends; and that a cancelled waiter can be left holding a mutex it was refused.

  \<^item> Progress shows that every runnable thread runs, in every infinite run in which threads give up the
  processor time and again.

  \<^item> Page and Page\_System model the buddy allocator of mm/page.c with its free lists, bit maps and counter.  They
  show what allocation and freeing do to the free memory, that blocks never overlap and that freeing in any order
  restores the memory, and the one case in which freeing breaks: a range that is not a multiple of the largest block.
  The locale \<open>block_allocator\<close> is the contract.

  \<^item> Kstring models util/string.c over lists of bytes and relates the routines to list functions.

  \<^item> Virtterm models drivers/tty/screen.c and virtterm.c, Keyboard the interrupt handler of keyboard.c and the
  terminal devices, Devices the device tables (locale \<open>device_table\<close>).  Shown: what is on the screen is what a
  redraw would show; escape codes have no effect; device initialisation panics.

  \<^item> Vmmap models vm/vmmap.c, vm/mmap.c, the page fault handler and api/access.c.  An address space refines a map from
  pages to mappings (locale \<open>address_space\<close>); several operations that cannot work are shown not to.

  \<^item> Ramfs and Ramfs\_Dir model fs/ramfs/ramfs.c and the reference counts of vnodes, fs/vnode.c.  A directory refines a
  map from names to inodes; references taken and given back restore the file system; it stays well typed in every run.

  \<^item> Vfs and Vfs\_Calls model fs/file.c, namev.c, open.c, vfs\_syscall.c and vfs.c.  File objects count their
  descriptors in every run of system calls; what was written is read back; and the calls that go wrong are shown to.

  \<^item> Proc and Proc\_Table model proc/proc.c and proc/kthread.c over the scheduler and the file system: creating,
  killing, exiting and waiting.  Shown: pids are the next free ones; in every run of creating, exiting and waiting the
  lists of children and the parent pointers agree and no dead process has children; waiting disposes of an exited child
  and of nothing else.

  \<^bold>\<open>Bounds and fuel.\<close>  Loops that follow links or retry take the number of rounds as an argument, with a
  lemma that a stated number is enough: the length of a queue for \<open>list_iterate\<close> and \<open>sched_broadcast_on\<close>, the
  size of an address space for \<open>remove_areas\<close>, the length of a path for \<open>namev_loop\<close>, the number of pids for
  \<open>getid_loop\<close>.  All other loops are structural.

  \<^bold>\<open>Arguments that stand for other code.\<close>  Whether memory can be allocated (the slab allocator and
  \<open>kmalloc\<close>), what giving memory back to the page allocator does, the operations of character devices, and the
  interrupt handlers.  The file system in memory is taken as the root file system, as in a build without S5FS.

  \<^bold>\<open>Not modelled.\<close>  Code whose effect is on the machine: the boot loader, descriptor and page tables,
  interrupt controllers, the disk driver, saving and loading processor contexts.  The S5 file system, page frames and
  program loading, of which most operations are not implemented in the repository.  The slab allocator, which lays out
  objects in raw pages.  Formatted printing.  User programs, their library and linker, which run in user mode; the
  build and debugging tools.  The preemption of user programs, mount points and several threads per process are off in
  the build configuration.
\<close>

end
